(* ===== verification/Prelude.thy ===== *)
theory Prelude
  imports Main "HOL-Library.Word"
begin

text \<open>
  What every component of the development shares: the machine types, the status
  codes the C code returns, a byte-addressed little-endian memory, and the
  \<open>mem\<close> collection of rewrite rules that reduces facts about stores and loads to
  facts about single bits.
\<close>

unbundle bit_operations_syntax

section \<open>Machine types\<close>

type_synonym u8 = "8 word"
type_synonym u16 = "16 word"
type_synonym u32 = "32 word"

text \<open>A buffer is addressed by byte offset from its start.\<close>

type_synonym memory = "nat \<Rightarrow> u8"

named_theorems mem "loads and stores, seen bit by bit"

section \<open>Status codes\<close>

text \<open>
  The status values of \<open>mdsshr_messages.xml\<close> and \<open>treeshr_messages.xml\<close> the modelled
  routines return. \<open>STATUS_OK\<close> tests the low bit of the code, which is set for the
  severities Success and Info. \<open>Status0\<close> is the plain value 0; the plain value 1 some routines
  return is identified with \<open>MDSplusSUCCESS\<close>.
\<close>

datatype status =
    Status0 | MDSplusSUCCESS | MDSplusERROR
  | LibSTRTRU | LibINVSTRDES | LibINSVIRMEM | LibKEYNOTFOU
  | TdiUNKNOWN_VAR
  | StrMATCH | StrNOMATCH | StrNOELEM | StrINVDELIM | StrSTRTOOLON
  | TreeSUCCESS | TreeALREADY_THERE | TreeBUFFEROVF | TreeCONGLOMFULL
  | TreeCONGLOM_NOT_FULL | TreeDUPTAG | TreeINVPATH | TreeINVTAG | TreeINVTREE
  | TreeMEMERR | TreeNMN | TreeNMT | TreeNNF | TreeNOEDIT | TreeNOTCHILDLESS | TreeNOTMEMBERLESS
  | TreeNOTSON | TreeNOT_OPEN | TreeNOWILD | TreeTAGNAMLEN | TreeTNF
  | TreeALREADY_OFF | TreeALREADY_ON | TreePARENT_OFF | TreeNCIREAD | TreeREADONLY_TREE
  | TreeON | TreeOFF | TreeBOTH_OFF | MdsCOMPRESSIBLE

fun STATUS_OK :: "status \<Rightarrow> bool" where
  "STATUS_OK MDSplusSUCCESS = True"
| "STATUS_OK LibSTRTRU = True"
| "STATUS_OK StrMATCH = True"
| "STATUS_OK TreeSUCCESS = True"
| "STATUS_OK TreeALREADY_OFF = True"
| "STATUS_OK TreeALREADY_ON = True"
| "STATUS_OK TreeON = True"
| "STATUS_OK MdsCOMPRESSIBLE = True"
| "STATUS_OK _ = False"

lemma replicate_numeral: "replicate (numeral k) x = x # replicate (pred_numeral k) x"
  by (simp add: numeral_eq_Suc)

section \<open>Byte-addressed memory, little endian\<close>

definition mbit :: "memory \<Rightarrow> nat \<Rightarrow> bool" where
  "mbit m k = bit (m (k div 8)) (k mod 8)"

definition load16 :: "memory \<Rightarrow> nat \<Rightarrow> u16" where
  "load16 m a = ucast (m a) OR push_bit 8 (ucast (m (a + 1)))"

definition store16 :: "memory \<Rightarrow> nat \<Rightarrow> u16 \<Rightarrow> memory" where
  "store16 m a w = m(a := ucast w, a + 1 := ucast (drop_bit 8 w))"

definition load32 :: "memory \<Rightarrow> nat \<Rightarrow> u32" where
  "load32 m a =
     ucast (m a) OR push_bit 8 (ucast (m (a + 1)))
       OR push_bit 16 (ucast (m (a + 2))) OR push_bit 24 (ucast (m (a + 3)))"

definition store32 :: "memory \<Rightarrow> nat \<Rightarrow> u32 \<Rightarrow> memory" where
  "store32 m a w =
     m(a := ucast w, a + 1 := ucast (drop_bit 8 w),
       a + 2 := ucast (drop_bit 16 w), a + 3 := ucast (drop_bit 24 w))"

text \<open>\<open>memcpy\<close> of an \<open>int\<close> array: the words one after the other.\<close>

fun store_words :: "memory \<Rightarrow> nat \<Rightarrow> u32 list \<Rightarrow> memory" where
  "store_words m a [] = m"
| "store_words m a (x # xs) = store_words (store32 m a x) (a + 4) xs"

lemma less_32_cases:
  assumes "(k::nat) < 32"
  obtains "k < 8" | "8 \<le> k" "k < 16" | "16 \<le> k" "k < 24" | "24 \<le> k" "k < 32"
  using assms by linarith

lemma byte_of_bit:
  fixes k :: nat
  shows "k < 8 \<Longrightarrow> k div 8 = 0 \<and> k mod 8 = k"
    and "8 \<le> k \<Longrightarrow> k < 16 \<Longrightarrow> k div 8 = 1 \<and> k mod 8 = k - 8"
    and "16 \<le> k \<Longrightarrow> k < 24 \<Longrightarrow> k div 8 = 2 \<and> k mod 8 = k - 16"
    and "24 \<le> k \<Longrightarrow> k < 32 \<Longrightarrow> k div 8 = 3 \<and> k mod 8 = k - 24"
  by presburger+

lemma mbit_add [simp]: "mbit m (8 * a + k) = bit (m (a + k div 8)) (k mod 8)"
  by (simp add: mbit_def)

lemma bit_load32 [mem]: "bit (load32 m a) k \<longleftrightarrow> k < 32 \<and> mbit m (8 * a + k)"
proof (cases "k < 32")
  case True
  then show ?thesis
    by (cases rule: less_32_cases) (auto simp: load32_def bit_simps dest: byte_of_bit bit_imp_le_length)
next
  case False
  then show ?thesis by (simp add: bit_simps impossible_bit)
qed

lemma bit_store32 [mem]:
  "bit (store32 m a w b) k \<longleftrightarrow>
     (if a \<le> b \<and> b < a + 4 then k < 8 \<and> bit w (8 * (b - a) + k) else bit (m b) k)"
proof (cases "a \<le> b \<and> b < a + 4")
  case True
  then obtain d where d: "b = a + d" "d < 4"
    by (metis add_less_cancel_left le_iff_add)
  then have "d = 0 \<or> d = 1 \<or> d = 2 \<or> d = 3" by linarith
  with d show ?thesis by (auto simp: store32_def bit_simps ac_simps)
next
  case False
  then show ?thesis by (auto simp: store32_def)
qed

lemma mbit_store32 [mem]:
  "mbit (store32 m a w) j =
     (if 8 * a \<le> j \<and> j < 8 * a + 32 then bit w (j - 8 * a) else mbit m j)"
proof -
  obtain q r where j: "j = 8 * q + r" and r: "r < 8" and q: "q = j div 8" "r = j mod 8"
    by (metis mod_less_divisor mult_div_mod_eq zero_less_numeral)
  have "a \<le> q \<and> q < a + 4 \<longleftrightarrow> 8 * a \<le> j \<and> j < 8 * a + 32"
    using j r by linarith
  moreover have "8 * a \<le> j \<Longrightarrow> 8 * (q - a) + r = j - 8 * a"
    using j r by (simp add: diff_mult_distrib2)
  ultimately show ?thesis
    using r by (simp add: mbit_def bit_store32 flip: q)
qed

text \<open>A word that has been stored is loaded back, and only overlapping words change.\<close>

lemma load32_store32_same [simp]: "load32 (store32 m a w) a = w"
  by (rule bit_word_eqI) (simp add: mem del: mbit_add)

lemma load32_store32_other [simp]:
  "b + 4 \<le> a \<or> a + 4 \<le> b \<Longrightarrow> load32 (store32 m a w) b = load32 m b"
  by (rule bit_word_eqI) (auto simp: mem simp del: mbit_add)

lemma load32_zero [simp]: "load32 (\<lambda>_. 0) a = 0"
  by (simp add: load32_def)

lemma load32_store_words: "q + 4 \<le> p \<Longrightarrow> load32 (store_words m p ws) q = load32 m q"
  by (induction m p ws rule: store_words.induct) auto

lemma memory_eqI:
  assumes "\<And>j. mbit m j = mbit m' j"
  shows "m = m'"
proof (intro ext bit_word_eqI)
  fix a n
  assume "n < LENGTH(8)"
  then show "bit (m a) n = bit (m' a) n"
    using byte_of_bit(1) [of n] assms [of "8 * a + n"] by simp
qed

end
