(* ===== verification/BitPack.thy ===== *)
theory BitPack
  imports Prelude
begin

text \<open>
  The bit packer of \<open>mdsshr/MdsPk.c\<close>: \<open>MdsPk\<close> stores the low bits of a list of
  32-bit items one after the other from a given bit offset, \<open>MdsUnpk\<close> reads them
  back, sign extended when the width is negative. The little-endian build is
  modelled. Bit offsets are natural numbers, which is the code's \<open>int\<close> as long as
  a packed array stays below 2^31 bits.
\<close>

section \<open>The code\<close>

definition masks :: "u32 list" where
  "masks =
    [0, 0x1, 0x3, 0x7, 0xf, 0x1f, 0x3f, 0x7f, 0xff, 0x1ff, 0x3ff, 0x7ff, 0xfff,
     0x1fff, 0x3fff, 0x7fff, 0xffff, 0x1ffff, 0x3ffff, 0x7ffff, 0xfffff, 0x1fffff,
     0x3fffff, 0x7fffff, 0xffffff, 0x1ffffff, 0x3ffffff, 0x7ffffff, 0xfffffff,
     0x1fffffff, 0x3fffffff, 0x7fffffff, 0xffffffff]"

text \<open>\<open>getppack\<close>: on a little-endian machine \<open>SwapBytes\<close> copies the four bytes.\<close>

definition SwapBytes :: "memory \<Rightarrow> nat \<Rightarrow> u32" where
  "SwapBytes m a = load32 m a"

text \<open>
  The loop for 32-bit items at an offset that is not on a byte boundary. \<open>p\<close> is the
  byte address of \<open>ppack\<close>.
\<close>

fun pk32_loop :: "nat \<Rightarrow> memory \<Rightarrow> nat \<Rightarrow> u32 \<Rightarrow> u32 list \<Rightarrow> memory \<times> nat \<times> u32" where
  "pk32_loop off m p hold [] = (m, p, hold)"
| "pk32_loop off m p hold (x # xs) =
     (let hold = hold OR push_bit off x
      in pk32_loop off (store32 m p hold) (p + 4) (drop_bit (32 - off) x) xs)"

fun pk_loop :: "nat \<Rightarrow> memory \<Rightarrow> nat \<Rightarrow> u32 \<Rightarrow> nat \<Rightarrow> u32 list \<Rightarrow> memory \<times> nat \<times> u32 \<times> nat" where
  "pk_loop sz m p hold off [] = (m, p, hold, off)"
| "pk_loop sz m p hold off (x # xs) =
     (let msk = masks ! sz; test = 32 - sz;
          hold = hold OR push_bit off (msk AND x)
      in if off \<ge> test
         then pk_loop sz (store32 m p hold) (p + 4)
                (drop_bit (32 - off) (msk AND x)) (off - test) xs
         else pk_loop sz m p hold (off + sz) xs)"

definition MdsPk :: "int \<Rightarrow> int \<Rightarrow> memory \<Rightarrow> u32 list \<Rightarrow> nat \<Rightarrow> memory \<times> nat" where
  "MdsPk nbits nitems m items bitp =
     (let p = 4 * (bitp div 32);
          sz = nat (if nbits \<ge> 0 then nbits else - nbits);
          off = bitp mod 32;
          hold = (if off \<noteq> 0 then load32 m p AND masks ! off else 0);
          xs = take (nat nitems) items
      in if sz = 0 \<or> nitems \<le> 0 then (m, bitp)
         else if sz = 32 then
           (if off mod 8 = 0 then (store_words m (p + off div 8) xs, bitp + sz * nat nitems)
            else case pk32_loop off m p hold xs of
                   (m, p, hold) \<Rightarrow> (store32 m p hold, bitp + sz * nat nitems))
         else case pk_loop sz m p hold off xs of
                (m, p, hold, off) \<Rightarrow>
                  (if off \<noteq> 0 then store32 m p hold else m, bitp + sz * nat nitems))"

text \<open>The three loops of \<open>MdsUnpk\<close>: 32-bit items, sign extended, zero extended.\<close>

fun unpk32_bytes :: "memory \<Rightarrow> nat \<Rightarrow> nat \<Rightarrow> u32 list" where
  "unpk32_bytes m p 0 = []"
| "unpk32_bytes m p (Suc n) = SwapBytes m p # unpk32_bytes m (p + 4) n"

fun unpk32_loop :: "nat \<Rightarrow> memory \<Rightarrow> nat \<Rightarrow> nat \<Rightarrow> u32 list" where
  "unpk32_loop off m p 0 = []"
| "unpk32_loop off m p (Suc n) =
     (drop_bit off (SwapBytes m p) OR push_bit (32 - off) (SwapBytes m (p + 4)))
       # unpk32_loop off m (p + 4) n"

definition sign_extend :: "u32 \<Rightarrow> u32 \<Rightarrow> u32" where
  "sign_extend msk hold =
     (let full = msk + 1; mx = drop_bit 1 msk
      in if hold > mx then hold - full else hold)"

fun unpk_loop :: "(u32 \<Rightarrow> u32) \<Rightarrow> nat \<Rightarrow> memory \<Rightarrow> nat \<Rightarrow> nat \<Rightarrow> nat \<Rightarrow> u32 list" where
  "unpk_loop ext sz m p off 0 = []"
| "unpk_loop ext sz m p off (Suc n) =
     (let msk = masks ! sz; test = 32 - sz
      in if off \<ge> test
         then ext (drop_bit off (SwapBytes m p)
                    OR (push_bit (32 - off) (SwapBytes m (p + 4)) AND msk))
                # unpk_loop ext sz m (p + 4) (off - test) n
         else ext (drop_bit off (SwapBytes m p) AND msk)
                # unpk_loop ext sz m p (off + sz) n)"

definition MdsUnpk :: "int \<Rightarrow> int \<Rightarrow> memory \<Rightarrow> nat \<Rightarrow> u32 list \<times> nat" where
  "MdsUnpk nbits nitems m bitp =
     (let p = 4 * (bitp div 32);
          sz = nat (if nbits \<ge> 0 then nbits else - nbits);
          off = bitp mod 32;
          msk = masks ! sz;
          n = nat nitems
      in (if sz = 32 then
            (if off mod 8 = 0 then unpk32_bytes m (p + off div 8) n
             else unpk32_loop off m p n)
          else if nbits < 0 then unpk_loop (sign_extend msk) sz m p off n
          else if nbits > 0 then unpk_loop (\<lambda>x. x) sz m p off n
          else replicate n 0, nat (int bitp + int sz * nitems)))"


section \<open>Bit streams\<close>

text \<open>Bit \<open>d\<close> of the concatenation of the low \<open>sz\<close> bits of the items.\<close>

definition stream_bit :: "nat \<Rightarrow> u32 list \<Rightarrow> nat \<Rightarrow> bool" where
  "stream_bit sz xs d = bit (xs ! (d div sz)) (d mod sz)"

text \<open>The \<open>sz\<close> bits of the memory from bit \<open>b\<close> on, as a word.\<close>

definition field :: "memory \<Rightarrow> nat \<Rightarrow> nat \<Rightarrow> u32" where
  "field m b sz = horner_sum of_bool 2 (map (\<lambda>k. mbit m (b + k)) [0..<sz])"

text \<open>What \<open>MdsUnpk\<close> makes of a field, and what it recovers of a packed item.\<close>

definition extended :: "int \<Rightarrow> u32 \<Rightarrow> u32" where
  "extended nbits w =
     (if nbits < 0 \<and> - 32 < nbits then signed_take_bit (nat (- nbits) - 1) w
      else take_bit (nat \<bar>nbits\<bar>) w)"

text \<open>
  The bits that have been produced so far: those in memory below \<open>ppack\<close>, then those
  in the holding register.
\<close>

definition produced :: "memory \<Rightarrow> nat \<Rightarrow> u32 \<Rightarrow> nat \<Rightarrow> bool" where
  "produced m p hold j = (if j < 8 * p then mbit m j else bit hold (j - 8 * p))"

lemma stream_bit_Cons:
  "0 < sz \<Longrightarrow> stream_bit sz (x # xs) d = (if d < sz then bit x d else stream_bit sz xs (d - sz))"
  by (auto simp: stream_bit_def div_if mod_if)

lemma bit_field [mem]: "bit (field m b sz) k \<longleftrightarrow> k < 32 \<and> k < sz \<and> mbit m (b + k)"
  by (auto simp: field_def bit_horner_sum_bit_word_iff)

lemma field_cong:
  "(\<And>k. k < sz \<Longrightarrow> mbit m (b + k) = mbit m' (b' + k)) \<Longrightarrow> field m b sz = field m' b' sz"
  unfolding field_def by (intro arg_cong2 [where f = "horner_sum of_bool"] map_cong arg_cong [where f = "horner_sum of_bool 2"]) auto

lemma bit_masks [mem]: "sz \<le> 32 \<Longrightarrow> bit (masks ! sz) k \<longleftrightarrow> k < sz"
proof -
  assume "sz \<le> 32"
  have "map (\<lambda>n. mask n :: u32) [0..<33] = masks"
    by (simp add: masks_def mask_eq_exp_minus_1 upt_rec)
  then have "masks ! sz = map (\<lambda>n. mask n :: u32) [0..<33] ! sz" by simp
  also have "\<dots> = mask sz" using \<open>sz \<le> 32\<close> by (subst nth_map_upt) simp_all
  finally have "masks ! sz = mask sz" .
  then show ?thesis using \<open>sz \<le> 32\<close> by (auto simp: bit_simps)
qed


lemma masks_eq: "sz \<le> 32 \<Longrightarrow> masks ! sz = mask sz"
  by (rule bit_word_eqI) (auto simp: mem bit_simps)

section \<open>The packing loop\<close>

lemma pk_loop_32:
  "pk_loop 32 m p hold off xs = (case pk32_loop off m p hold xs of (m, p, hold) \<Rightarrow> (m, p, hold, off))"
proof (induction off m p hold xs rule: pk32_loop.induct)
  case (2 off m p hold x xs)
  have "masks ! 32 AND x = x" by (rule bit_word_eqI) (simp add: bit_simps mem)
  with 2 show ?case by (simp add: Let_def del: push_bit_and drop_bit_and)
qed simp

text \<open>One item, added to what has been produced.\<close>

lemma produced_or:
  assumes "\<And>k. off \<le> k \<Longrightarrow> \<not> bit hold k" and "sz \<le> 32" and "off < 32"
  shows "produced m p (hold OR push_bit off (masks ! sz AND x)) j =
     (if j < 8 * p + off then produced m p hold j
      else j < 8 * p + 32 \<and> j < 8 * p + off + sz \<and> bit x (j - (8 * p + off)))"
  using assms by (auto simp: produced_def bit_simps mem)

lemma produced_store:
  assumes "sz \<le> 32" "off < 32" "32 - sz \<le> off"
    and "\<And>k. off \<le> k \<Longrightarrow> \<not> bit hold k"
    and "j < 8 * p + off + sz"
  shows "produced (store32 m p (hold OR push_bit off (masks ! sz AND x))) (p + 4)
           (drop_bit (32 - off) (masks ! sz AND x)) j =
     (if j < 8 * p + off then produced m p hold j else bit x (j - (8 * p + off)))"
  using assms by (auto simp: produced_def bit_simps mem ac_simps)

lemma stream_step:
  assumes "0 < sz"
    and f: "\<forall>j < c + sz. f j = g j"
    and g: "\<forall>j < c + sz. g j = (if j < c then h j else bit x (j - c))"
    and rest: "\<forall>d < sz * length xs. f (c + sz + d) = stream_bit sz xs d"
  shows "(\<forall>j < c. f j = h j) \<and> (\<forall>d < sz * length (x # xs). f (c + d) = stream_bit sz (x # xs) d)"
proof (intro conjI allI impI)
  show "f j = h j" if "j < c" for j using that f g by simp
  fix d assume d: "d < sz * length (x # xs)"
  show "f (c + d) = stream_bit sz (x # xs) d"
  proof (cases "d < sz")
    case True
    then show ?thesis using assms(1) f g by (simp add: stream_bit_Cons)
  next
    case False
    then have "c + sz + (d - sz) = c + d" by simp
    then show ?thesis
      using False d assms(1) rest [rule_format, of "d - sz"] by (simp add: stream_bit_Cons)
  qed
qed

lemma pk_loop_spec:
  assumes "0 < sz" "sz \<le> 32" "off < 32" "\<forall>k \<ge> off. \<not> bit hold k"
    and "pk_loop sz m p hold off xs = (m', p', hold', off')"
  shows "8 * p' + off' = 8 * p + off + sz * length xs \<and> off' < 32 \<and> p \<le> p' \<and> p' mod 4 = p mod 4
    \<and> (\<forall>k. off' \<le> k \<longrightarrow> \<not> bit hold' k)
    \<and> (\<forall>j < 8 * p + off. produced m' p' hold' j = produced m p hold j)
    \<and> (\<forall>d < sz * length xs. produced m' p' hold' (8 * p + off + d) = stream_bit sz xs d)
    \<and> (\<forall>j \<ge> 8 * p'. mbit m' j = mbit m j)"
  using assms
proof (induction xs arbitrary: m p hold off)
  case Nil
  then show ?case by simp
next
  case (Cons x xs)
  let ?h = "hold OR push_bit off (masks ! sz AND x)"
  show ?case
  proof (cases "32 - sz \<le> off")
    case True
    let ?m = "store32 m p ?h" and ?h' = "drop_bit (32 - off) (masks ! sz AND x)"
    let ?o = "off - (32 - sz)"
    have run: "pk_loop sz ?m (p + 4) ?h' ?o xs = (m', p', hold', off')"
      using Cons.prems(5) True by (simp add: Let_def)
    have o: "8 * (p + 4) + ?o = 8 * p + off + sz" "?o < 32"
      using True Cons.prems(1-3) by simp_all
    have top: "\<forall>k \<ge> ?o. \<not> bit ?h' k"
      using Cons.prems(1-3) True by (auto simp: bit_simps mem)
    note IH = Cons.IH [OF Cons.prems(1,2) o(2) top run, unfolded o(1)]
    have P: "\<forall>j < 8 * p + off + sz. produced ?m (p + 4) ?h' j =
        (if j < 8 * p + off then produced m p hold j else bit x (j - (8 * p + off)))"
      using produced_store [OF Cons.prems(2,3) True] Cons.prems(4) by blast
    have len: "sz * length (x # xs) = sz + sz * length xs" by simp
    have "8 * (p + 4) \<le> 8 * p'" using IH by simp
    then have "\<forall>j \<ge> 8 * p'. mbit m' j = mbit m j" using IH by (simp add: mem)
    moreover have "(\<forall>j < 8 * p + off. produced m' p' hold' j = produced m p hold j)
        \<and> (\<forall>d < sz * length (x # xs).
             produced m' p' hold' (8 * p + off + d) = stream_bit sz (x # xs) d)"
      by (rule stream_step [OF Cons.prems(1) _ P]) (use IH in blast)+
    ultimately show ?thesis using IH len by (simp del: length_Cons)
  next
    case False
    let ?o = "off + sz"
    have run: "pk_loop sz m p ?h ?o xs = (m', p', hold', off')"
      using Cons.prems(5) False by (simp add: Let_def)
    have o: "8 * p + ?o = 8 * p + off + sz" "?o < 32"
      using False by simp_all
    have top: "\<forall>k \<ge> ?o. \<not> bit ?h k"
      using Cons.prems(1-4) False by (auto simp: bit_simps mem)
    note IH = Cons.IH [OF Cons.prems(1,2) o(2) top run, unfolded o(1)]
    have P: "\<forall>j < 8 * p + off + sz. produced m p ?h j =
        (if j < 8 * p + off then produced m p hold j else bit x (j - (8 * p + off)))"
      using produced_or [of off hold sz m p x] Cons.prems(2-4) False by (auto simp del: push_bit_and)
    have len: "sz * length (x # xs) = sz + sz * length xs" by simp
    have "(\<forall>j < 8 * p + off. produced m' p' hold' j = produced m p hold j)
        \<and> (\<forall>d < sz * length (x # xs).
             produced m' p' hold' (8 * p + off + d) = stream_bit sz (x # xs) d)"
      by (rule stream_step [OF Cons.prems(1) _ P]) (use IH in blast)+
    then show ?thesis using IH len by (simp del: length_Cons)
  qed
qed

lemma mbit_store_words [mem]:
  "mbit (store_words m a xs) j =
     (if 8 * a \<le> j \<and> j < 8 * a + 32 * length xs then stream_bit 32 xs (j - 8 * a) else mbit m j)"
  by (induction m a xs rule: store_words.induct) (auto simp: stream_bit_Cons mem)

lemma stream_bit_take: "d < sz * n \<Longrightarrow> stream_bit sz (take n xs) d = stream_bit sz xs d"
  by (simp add: stream_bit_def less_mult_imp_div_less mult.commute)

lemma produced_start:
  assumes "j < b"
  shows "produced m (4 * (b div 32))
           (if b mod 32 \<noteq> 0 then load32 m (4 * (b div 32)) AND masks ! (b mod 32) else 0) j
         = mbit m j"
proof -
  have "\<not> j < 8 * (4 * (b div 32)) \<Longrightarrow> j - 8 * (4 * (b div 32)) < b mod 32"
    using assms mult_div_mod_eq [of 32 b] by linarith
  then show ?thesis by (auto simp: produced_def bit_simps mem simp del: mbit_add)
qed

lemma produced_flush:
  assumes "j < 8 * p + off" "off < 32"
  shows "mbit (if off \<noteq> 0 then store32 m p hold else m) j = produced m p hold j"
  using assms by (auto simp: produced_def mem)

text \<open>
  The whole routine: the bits below the cursor are kept, the fields follow, the bits
  after them are kept too except in the last word, where they may be cleared.
\<close>

definition packs :: "memory \<Rightarrow> nat \<Rightarrow> nat \<Rightarrow> u32 list \<Rightarrow> memory \<times> nat \<Rightarrow> bool" where
  "packs m b sz xs r \<longleftrightarrow> snd r = b + sz * length xs
     \<and> (\<forall>j < b. mbit (fst r) j = mbit m j)
     \<and> (\<forall>d < sz * length xs. mbit (fst r) (b + d) = stream_bit sz xs d)
     \<and> (\<forall>j \<ge> 32 * (snd r div 32 + 1). mbit (fst r) j = mbit m j)"

lemma packs_words:
  assumes "b mod 32 mod 8 = 0"
  shows "packs m b 32 xs
    (store_words m (4 * (b div 32) + b mod 32 div 8) xs, b + 32 * length xs)"
proof -
  have "8 * (4 * (b div 32) + b mod 32 div 8) = b" using assms by presburger
  then show ?thesis by (auto simp: packs_def mem)
qed

lemma packs_loop:
  assumes "0 < sz" "sz \<le> 32"
    and "pk_loop sz m (4 * (b div 32))
           (if b mod 32 \<noteq> 0 then load32 m (4 * (b div 32)) AND masks ! (b mod 32) else 0)
           (b mod 32) xs = (m', p', hold', off')"
  shows "packs m b sz xs (if off' \<noteq> 0 then store32 m' p' hold' else m', b + sz * length xs)"
proof -
  let ?p = "4 * (b div 32)"
  let ?hold = "if b mod 32 \<noteq> 0 then load32 m ?p AND masks ! (b mod 32) else 0"
  have b: "8 * ?p + b mod 32 = b" by simp
  have "\<forall>k \<ge> b mod 32. \<not> bit ?hold k" by (simp add: bit_simps mem)
  note L = pk_loop_spec [OF assms(1,2) _ this assms(3), unfolded b]
  have e: "8 * p' + off' = b + sz * length xs" and o: "off' < 32" and p4: "p' mod 4 = 0"
    using L by auto
  have flush: "mbit (if off' \<noteq> 0 then store32 m' p' hold' else m') j = produced m' p' hold' j"
    if "j < b + sz * length xs" for j
    using produced_flush o e that by metis
  have keep: "mbit (if off' \<noteq> 0 then store32 m' p' hold' else m') j = mbit m j"
    if "32 * ((b + sz * length xs) div 32 + 1) \<le> j" for j
  proof -
    obtain k where k: "p' = 4 * k" using p4 by (metis dvd_eq_mod_eq_0 dvdE)
    then have "(b + sz * length xs) div 32 = k" using e o by simp
    then have "8 * p' + 32 \<le> j" using that k by simp
    then show ?thesis using L by (simp add: mem)
  qed
  have pre: "mbit (if off' \<noteq> 0 then store32 m' p' hold' else m') j = mbit m j" if "j < b" for j
    using flush [of j] L produced_start [OF that, of m] that by simp
  show ?thesis
    unfolding packs_def fst_conv snd_conv using L keep pre flush by auto
qed

lemma MdsPk_packs:
  assumes "\<bar>nbits\<bar> \<le> 32" and "nat nitems \<le> length items"
  shows "packs m b (nat \<bar>nbits\<bar>) (take (nat nitems) items) (MdsPk nbits nitems m items b)"
proof -
  let ?sz = "nat \<bar>nbits\<bar>" and ?xs = "take (nat nitems) items"
  have sz: "nat (if nbits \<ge> 0 then nbits else - nbits) = ?sz" by simp
  have len: "length ?xs = nat nitems" using assms by simp
  consider "?sz = 0 \<or> nitems \<le> 0" | "?sz = 32" "b mod 32 mod 8 = 0" "0 < nitems"
    | "?sz = 32" "b mod 32 mod 8 \<noteq> 0" "0 < nitems" | "0 < ?sz" "?sz \<noteq> 32" "0 < nitems"
    by linarith
  then show ?thesis
  proof cases
    case 1
    then show ?thesis by (auto simp: MdsPk_def packs_def Let_def)
  next
    case 2
    then show ?thesis
      using packs_words [OF 2(2), of m ?xs] len
      by (simp add: MdsPk_def Let_def sz del: length_take)
  next
    case 3
    obtain m' p' hold' where "pk32_loop (b mod 32) m (4 * (b div 32))
        (load32 m (4 * (b div 32)) AND masks ! (b mod 32)) ?xs = (m', p', hold')"
      by (metis prod_cases3)
    moreover have "b mod 32 \<noteq> 0" using 3(2) by presburger
    ultimately show ?thesis
      using packs_loop [of 32 m b ?xs m' p' hold' "b mod 32"] 3 len
      by (simp add: MdsPk_def Let_def sz pk_loop_32 del: length_take)
  next
    case 4
    obtain m' p' hold' off' where "pk_loop ?sz m (4 * (b div 32))
        (if b mod 32 \<noteq> 0 then load32 m (4 * (b div 32)) AND masks ! (b mod 32) else 0)
        (b mod 32) ?xs = (m', p', hold', off')"
      by (metis prod_cases4)
    then show ?thesis
      using packs_loop [of ?sz m b ?xs m' p' hold' off'] 4 len assms
      by (simp add: MdsPk_def Let_def sz del: length_take)
  qed
qed

section \<open>The unpacking loops\<close>

lemma field_load: "field m (8 * p) 32 = SwapBytes m p"
  by (rule bit_word_eqI) (simp add: mem SwapBytes_def)

lemma field_one_word:
  "off + sz \<le> 32 \<Longrightarrow> drop_bit off (SwapBytes m p) AND masks ! sz = field m (8 * p + off) sz"
  by (rule bit_word_eqI) (auto simp: mem SwapBytes_def bit_simps add.assoc simp del: mbit_add)

lemma field_two_words:
  assumes "0 < off" "off < 32" "sz \<le> 32" "32 - sz \<le> off"
  shows "drop_bit off (SwapBytes m p) OR (push_bit (32 - off) (SwapBytes m (p + 4)) AND masks ! sz)
         = field m (8 * p + off) sz"
proof (rule bit_word_eqI)
  fix k
  have "8 * (p + 4) + (k - (32 - off)) = 8 * p + off + k" if "32 - off \<le> k"
    using that assms by simp
  then show "bit (drop_bit off (SwapBytes m p)
        OR (push_bit (32 - off) (SwapBytes m (p + 4)) AND masks ! sz)) k
      = bit (field m (8 * p + off) sz) k"
    using assms by (auto simp: mem SwapBytes_def bit_simps ac_simps simp del: mbit_add)
qed

lemma unpk_loop_fields:
  "0 < sz \<Longrightarrow> sz < 32 \<Longrightarrow> off < 32 \<Longrightarrow>
   unpk_loop ext sz m p off n = map (\<lambda>i. ext (field m (8 * p + off + i * sz) sz)) [0..<n]"
proof (induction ext sz m p off n rule: unpk_loop.induct)
  case (2 ext sz m p off n)
  let ?f = "\<lambda>i. ext (field m (8 * p + off + i * sz) sz)"
  have shift: "map (\<lambda>i. ext (field m (8 * p' + off' + i * sz) sz)) [0..<n] = map (\<lambda>i. ?f (Suc i)) [0..<n]"
    if "8 * p' + off' = 8 * p + off + sz" for p' off'
    using that by (simp add: add.assoc)
  show ?case
  proof (cases "32 - sz \<le> off")
    case True
    then have c: "8 * (p + 4) + (off - (32 - sz)) = 8 * p + off + sz" using "2.prems" by simp
    have "unpk_loop ext sz m (p + 4) (off - (32 - sz)) n = map (\<lambda>i. ?f (Suc i)) [0..<n]"
      using "2.IH"(1) True "2.prems" shift [OF c] by simp
    then show ?thesis
      using True "2.prems" field_two_words [of off sz m p]
      by (simp add: Let_def map_upt_Suc del: upt_Suc)
  next
    case False
    have "unpk_loop ext sz m p (off + sz) n = map (\<lambda>i. ?f (Suc i)) [0..<n]"
      using "2.IH"(2) False "2.prems" shift [of p "off + sz"] by simp
    then show ?thesis
      using False "2.prems" field_one_word [of off sz m p]
      by (simp add: Let_def map_upt_Suc del: upt_Suc)
  qed
qed simp

lemma unpk32_loop_fields:
  "0 < off \<Longrightarrow> off < 32 \<Longrightarrow>
   unpk32_loop off m p n = map (\<lambda>i. field m (8 * p + off + i * 32) 32) [0..<n]"
proof (induction off m p n rule: unpk32_loop.induct)
  case (2 off m p n)
  have "masks ! 32 = - 1" by (rule bit_word_eqI) (simp add: mem)
  then show ?case
    using 2 field_two_words [of off 32 m p]
    by (simp add: map_upt_Suc add.assoc algebra_simps del: upt_Suc)
qed simp

lemma unpk32_bytes_fields:
  "unpk32_bytes m p n = map (\<lambda>i. field m (8 * p + i * 32) 32) [0..<n]"
  by (induction m p n rule: unpk32_bytes.induct)
     (simp_all add: map_upt_Suc algebra_simps field_load [unfolded mult.commute [of 8]] del: upt_Suc)

lemma bit_imp_exp_le_unat: "bit w n \<Longrightarrow> 2 ^ n \<le> unat (w :: 'a::len word)"
proof -
  assume "bit w n"
  then have "bit (unat w) n" by (simp add: bit_unsigned_iff)
  then have "odd (unat w div 2 ^ n)" by (simp add: bit_iff_odd)
  then have "unat w div 2 ^ n \<noteq> 0" by (metis even_zero)
  then show ?thesis by (simp add: div_eq_0_iff not_less)
qed

lemma sign_extend_eq:
  assumes "0 < sz" "sz < 32" "\<And>k. sz \<le> k \<Longrightarrow> \<not> bit w k"
  shows "sign_extend (masks ! sz) w = signed_take_bit (sz - 1) w"
proof -
  have mx: "drop_bit 1 (masks ! sz) = mask (sz - 1)"
    using assms by (intro bit_word_eqI) (auto simp: mem bit_simps)
  have full: "w - (masks ! sz + 1) = w OR NOT (mask sz)"
  proof -
    have "masks ! sz + 1 = 2 ^ sz" using assms by (simp add: masks_eq mask_eq_exp_minus_1)
    then have "w - (masks ! sz + 1) = w + NOT (mask sz)"
      by (simp only: diff_conv_add_uminus minus_exp_eq_not_mask)
    also have "\<dots> = w OR NOT (mask sz)"
      using assms(3) by (intro disjunctive_add_eq_or bit_word_eqI) (auto simp: bit_simps, meson not_le)
    finally show ?thesis .
  qed
  show ?thesis
  proof (cases "bit w (sz - 1)")
    case True
    have "unat (mask (sz - 1) :: u32) < 2 ^ (sz - 1)"
      using take_bit_nat_less_exp [of "sz - 1" "unat (- 1 :: u32)"]
      by (simp only: unsigned_take_bit_eq flip: take_bit_minus_one_eq_mask)
    then have "mask (sz - 1) < w"
      using bit_imp_exp_le_unat [OF True] by (simp add: word_less_nat_alt)
    have sign_bit: "bit w n" if "sz - Suc 0 \<le> n" "n < sz" for n
    proof -
      have "n = sz - 1" using that by linarith
      then show ?thesis using True by simp
    qed
    have "sign_extend (masks ! sz) w = w OR NOT (mask sz)"
      unfolding sign_extend_def Let_def mx full using \<open>mask (sz - 1) < w\<close> by simp
    also have "\<dots> = signed_take_bit (sz - 1) w"
      using assms True sign_bit
      by (intro bit_word_eqI) (auto simp: bit_simps bit_signed_take_bit_iff min_def not_le not_less)
    finally show ?thesis .
  next
    case False
    have low: "n < sz - 1" if "bit w n" for n
    proof (rule ccontr)
      assume "\<not> n < sz - 1"
      then have "n = sz - 1 \<or> sz \<le> n" by linarith
      then show False using that False assms(3) by auto
    qed
    have w: "w AND mask (sz - 1) = w"
      using low by (intro bit_word_eqI) (auto simp: bit_simps)
    have "w \<le> mask (sz - 1)" using word_and_le1 [of w "mask (sz - 1)"] w by simp
    then have "\<not> mask (sz - 1) < w" by (simp only: not_less)
    then have "sign_extend (masks ! sz) w = w"
      unfolding sign_extend_def Let_def mx by (simp only: if_False)
    also have "\<dots> = signed_take_bit (sz - 1) w"
      using False low by (intro bit_word_eqI) (auto simp: bit_signed_take_bit_iff min_def dest: low)
    finally show ?thesis .
  qed
qed

section \<open>What is read back\<close>

lemma extend_field:
  assumes "- 32 < nbits" "nbits < 0"
  shows "sign_extend (masks ! nat (- nbits)) (field m b (nat (- nbits)))
         = extended nbits (field m b (nat (- nbits)))"
  using assms by (subst sign_extend_eq) (auto simp: mem extended_def)

theorem MdsUnpk_fields:
  assumes "\<bar>nbits\<bar> \<le> 32" and "0 \<le> nitems"
  shows "MdsUnpk nbits nitems m b =
    (map (\<lambda>i. extended nbits (field m (b + i * nat \<bar>nbits\<bar>) (nat \<bar>nbits\<bar>))) [0..<nat nitems],
     b + nat \<bar>nbits\<bar> * nat nitems)"
proof -
  let ?sz = "nat \<bar>nbits\<bar>" and ?p = "4 * (b div 32)"
  have sz: "nat (if nbits \<ge> 0 then nbits else - nbits) = ?sz" by simp
  have cur: "nat (int b + int ?sz * nitems) = b + ?sz * nat nitems"
    using assms(2) by (simp add: nat_add_distrib nat_mult_distrib)
  have b: "8 * ?p + b mod 32 = b" by simp
  have id: "extended nbits (field m c ?sz) = field m c ?sz" if "0 \<le> nbits \<or> ?sz = 32" for c
    using that assms(1) by (intro bit_word_eqI) (auto simp: extended_def mem bit_simps)
  consider "?sz = 32" "b mod 32 mod 8 = 0" | "?sz = 32" "b mod 32 mod 8 \<noteq> 0"
    | "nbits < 0" "?sz \<noteq> 32" | "0 < nbits" "?sz \<noteq> 32" | "nbits = 0"
    by linarith
  then show ?thesis
  proof cases
    case 1
    have "8 * (?p + b mod 32 div 8) = b" using 1(2) by presburger
    then show ?thesis
      using 1 id cur by (simp add: MdsUnpk_def Let_def sz unpk32_bytes_fields)
  next
    case 2
    have "0 < b mod 32" using 2(2) by presburger
    then show ?thesis
      using 2 id cur by (simp add: MdsUnpk_def Let_def sz unpk32_loop_fields b)
  next
    case 3
    then show ?thesis
      using assms cur extend_field [of nbits m]
      by (simp add: MdsUnpk_def Let_def sz unpk_loop_fields b)
  next
    case 4
    then show ?thesis
      using assms id cur by (simp add: MdsUnpk_def Let_def sz unpk_loop_fields b)
  next
    case 5
    then show ?thesis
      using cur by (auto simp: MdsUnpk_def Let_def sz extended_def map_replicate_const)
  qed
qed

section \<open>The packer as an interface\<close>

text \<open>Two memories hold the same bits below a cursor.\<close>

definition same_bits :: "memory \<Rightarrow> memory \<Rightarrow> nat \<Rightarrow> bool" where
  "same_bits m m' b \<longleftrightarrow> (\<forall>j < b. mbit m j = mbit m' j)"

lemma same_bits_refl [simp]: "same_bits m m b"
  by (simp add: same_bits_def)

lemma same_bits_sym: "same_bits m m' b \<Longrightarrow> same_bits m' m b"
  by (simp add: same_bits_def)

lemma same_bits_trans: "same_bits m m' b \<Longrightarrow> same_bits m' m'' b \<Longrightarrow> same_bits m m'' b"
  by (simp add: same_bits_def)

lemma same_bits_less: "same_bits m m' b \<Longrightarrow> c \<le> b \<Longrightarrow> same_bits m m' c"
  by (simp add: same_bits_def)

text \<open>
  What a client of the packer relies on: where the cursor ends up, that the bits
  before it are kept, and that a memory that agrees with the packed one up to the new
  cursor reads back as the extended items.
\<close>

locale bit_packer =
  fixes pk :: "int \<Rightarrow> int \<Rightarrow> memory \<Rightarrow> u32 list \<Rightarrow> nat \<Rightarrow> memory \<times> nat"
    and unpk :: "int \<Rightarrow> int \<Rightarrow> memory \<Rightarrow> nat \<Rightarrow> u32 list \<times> nat"
    and ext :: "int \<Rightarrow> u32 \<Rightarrow> u32"
  assumes pk_cursor:
      "\<bar>nbits\<bar> \<le> 32 \<Longrightarrow> nat n \<le> length xs \<Longrightarrow>
       snd (pk nbits n m xs b) = b + nat \<bar>nbits\<bar> * nat n"
    and pk_keeps:
      "\<bar>nbits\<bar> \<le> 32 \<Longrightarrow> nat n \<le> length xs \<Longrightarrow> same_bits m (fst (pk nbits n m xs b)) b"
    and unpk_pk:
      "\<bar>nbits\<bar> \<le> 32 \<Longrightarrow> \<bar>nbits'\<bar> = \<bar>nbits\<bar> \<Longrightarrow> 0 \<le> k \<Longrightarrow> k \<le> n \<Longrightarrow> nat n \<le> length xs \<Longrightarrow>
       same_bits (fst (pk nbits n m xs b)) m' (b + nat \<bar>nbits\<bar> * nat n) \<Longrightarrow>
       unpk nbits' k m' b = (map (ext nbits') (take (nat k) xs), b + nat \<bar>nbits\<bar> * nat k)"
begin

text \<open>Two blocks one after the other: the second leaves the first readable.\<close>

lemma pk_two:
  assumes "\<bar>n1\<bar> \<le> 32" "\<bar>n2\<bar> \<le> 32" "nat k1 \<le> length xs" "nat k2 \<le> length ys"
    and "pk n1 k1 m xs b = (m1, b1)" "pk n2 k2 m1 ys b1 = (m2, b2)"
  shows "same_bits m m2 b" and "same_bits m1 m2 b1"
    and "b1 = b + nat \<bar>n1\<bar> * nat k1" and "b2 = b1 + nat \<bar>n2\<bar> * nat k2"
proof -
  show 1: "same_bits m1 m2 b1" using pk_keeps [OF assms(2,4), of m1 b1] assms(6) by simp
  show b1: "b1 = b + nat \<bar>n1\<bar> * nat k1" using pk_cursor [OF assms(1,3), of m b] assms(5) by simp
  show "b2 = b1 + nat \<bar>n2\<bar> * nat k2" using pk_cursor [OF assms(2,4), of m1 b1] assms(6) by simp
  have "same_bits m m1 b" using pk_keeps [OF assms(1,3), of m b] assms(5) by simp
  then show "same_bits m m2 b"
    using same_bits_less [OF 1, of b] b1 by (auto intro: same_bits_trans)
qed

end

lemma extend_cong:
  assumes "\<bar>nbits\<bar> \<le> 32" "\<And>k. k < nat \<bar>nbits\<bar> \<Longrightarrow> bit v k = bit w k"
  shows "extended nbits v = extended nbits w"
  using assms by (intro bit_word_eqI) (auto simp: extended_def bit_simps bit_signed_take_bit_iff min_def)

interpretation MdsPk: bit_packer MdsPk MdsUnpk extended
proof
  fix nbits n :: int and m b and xs :: "u32 list"
  assume "\<bar>nbits\<bar> \<le> 32" "nat n \<le> length xs"
  note P = MdsPk_packs [OF this, of m b]
  with \<open>nat n \<le> length xs\<close> show "snd (MdsPk nbits n m xs b) = b + nat \<bar>nbits\<bar> * nat n"
    by (simp add: packs_def min_def)
  from P show "same_bits m (fst (MdsPk nbits n m xs b)) b"
    by (simp add: packs_def same_bits_def)
next
  fix nbits nbits' k n :: int and m m' b and xs :: "u32 list"
  let ?sz = "nat \<bar>nbits\<bar>"
  assume n: "\<bar>nbits\<bar> \<le> 32" "\<bar>nbits'\<bar> = \<bar>nbits\<bar>" and k: "0 \<le> k" "k \<le> n"
    and len: "nat n \<le> length xs"
    and same: "same_bits (fst (MdsPk nbits n m xs b)) m' (b + ?sz * nat n)"
  note P = MdsPk_packs [OF n(1) len, of m b]
  have "extended nbits' (field m' (b + i * ?sz) ?sz) = extended nbits' (xs ! i)" if i: "i < nat k" for i
  proof (rule extend_cong)
    show "\<bar>nbits'\<bar> \<le> 32" using n by simp
    fix l assume "l < nat \<bar>nbits'\<bar>"
    then have l: "l < ?sz" "l < 32" using n by auto
    have "i < nat n" using i k by linarith
    then have "Suc i * ?sz \<le> nat n * ?sz" by (intro mult_le_mono1) simp
    then have "i * ?sz + l < nat n * ?sz" using l by simp
    then have d: "i * ?sz + l < ?sz * nat n" by (simp add: mult.commute)
    have "length (take (nat n) xs) = nat n" using len by simp
    then have "mbit (fst (MdsPk nbits n m xs b)) (b + (i * ?sz + l))
        = stream_bit ?sz (take (nat n) xs) (i * ?sz + l)"
      using P d unfolding packs_def by metis
    then have "mbit m' (b + (i * ?sz + l)) = stream_bit ?sz (take (nat n) xs) (i * ?sz + l)"
      using same d unfolding same_bits_def by simp
    also have "\<dots> = bit (xs ! i) l"
      using l \<open>i < nat n\<close> len by (simp add: stream_bit_def)
    finally show "bit (field m' (b + i * ?sz) ?sz) l = bit (xs ! i) l"
      using l by (simp add: mem add.assoc del: mbit_add)
  qed
  then show "MdsUnpk nbits' k m' b
      = (map (extended nbits') (take (nat k) xs), b + ?sz * nat k)"
    using MdsUnpk_fields [of nbits' k m' b] n k len
    by (auto simp: n(2) intro!: nth_equalityI)
qed


section \<open>Property\<close>

text \<open>
  C20: \<open>MdsUnpk\<close> reads back what \<open>MdsPk\<close> packed: every item, cut to the width and sign or
  zero extended by the sign of the width; both cursors agree, and the bits before the
  start are untouched.
\<close>

theorem MdsUnpk_MdsPk:
  assumes "\<bar>nbits\<bar> \<le> 32" "\<bar>nbits'\<bar> = \<bar>nbits\<bar>" "nat n \<le> length xs" "0 \<le> n"
    and "MdsPk nbits n m xs b = (m', b')"
  shows "MdsUnpk nbits' n m' b = (map (extended nbits') (take (nat n) xs), b')
    \<and> same_bits m m' b \<and> b' = b + nat \<bar>nbits\<bar> * nat n"
  using MdsPk.unpk_pk [OF assms(1,2,4) order_refl assms(3), of m b m'] MdsPk.pk_keeps [OF assms(1,3), of m b]
    MdsPk.pk_cursor [OF assms(1,3), of m b] assms(5)
  by auto

theorem MdsUnpk_MdsPk_witness:
  "\<exists>m'. MdsPk 6 3 (\<lambda>_. 0xFF) [17, 33, 5] 13 = (m', 31)
     \<and> MdsUnpk (- 6) 3 m' 13 = ([17, -31, 5], 31)"
proof -
  obtain m' b' where m: "MdsPk 6 3 (\<lambda>_. 0xFF) [17, 33, 5] 13 = (m', b')" by force
  have e: "map (extended (- 6)) (take (nat 3) [17, 33, 5]) = [17, -31, 5]"
    by (simp add: extended_def) 
  show ?thesis
    using MdsUnpk_MdsPk [OF _ _ _ _ m, of "- 6"] m e by simp
qed

end
