(* ===== verification/Cmprs.thy ===== *)
theory Cmprs
  imports BitPack
begin

text \<open>
  The delta compressor of \<open>mdsshr/MdsCmprs.c\<close>. \<open>MdsCmprs\<close> writes an array in runs of
  at most 1024 items: a 32-bit header, the differences in \<open>yn\<close> bits each, and the
  differences that do not fit (marked by the most negative \<open>yn\<close>-bit number) in \<open>ye\<close>
  bits each. \<open>MdsXpand\<close> reads such runs back. An access outside the local tables of the
  code (beyond the differences of the run, beyond the exceptions, beyond \<open>masks\<close>) is
  undefined there and is the value \<open>None\<close> here.
\<close>

section \<open>Reading and writing the items of an array\<close>

definition "DTYPE_BU = (2 :: nat)"
definition "DTYPE_WU = (3 :: nat)"
definition "DTYPE_LU = (4 :: nat)"
definition "DTYPE_B = (6 :: nat)"
definition "DTYPE_W = (7 :: nat)"
definition "DTYPE_L = (8 :: nat)"
definition "DTYPE_T = (14 :: nat)"
definition "DTYPE_FLOATS = [10, 11, 12, 13, 27, 28, 29, 30 :: nat]"

lemmas dtypes = DTYPE_BU_def DTYPE_WU_def DTYPE_LU_def DTYPE_B_def DTYPE_W_def
  DTYPE_L_def DTYPE_T_def DTYPE_FLOATS_def

text \<open>The labels of the switch on \<open>dtype\<close>.\<close>

datatype case_label = Case_BU | Case_B | Case_WU | Case_W | Case_LU | Case_Swapped

definition step_of :: "nat \<Rightarrow> nat \<Rightarrow> nat" where
  "step_of dtype len =
     (if dtype = DTYPE_T then 1
      else if len mod 4 = 0 then 4
      else if len mod 2 = 0 then 2
      else 1)"

definition case_of :: "nat \<Rightarrow> nat \<Rightarrow> case_label" where
  "case_of dtype step =
     (if dtype = DTYPE_T \<or> dtype = DTYPE_BU then Case_BU
      else if dtype = DTYPE_B then Case_B
      else if dtype = DTYPE_WU then Case_WU
      else if dtype = DTYPE_W then Case_W
      else if dtype = DTYPE_L \<or> dtype = DTYPE_LU then Case_LU
      else if dtype \<in> set DTYPE_FLOATS then Case_Swapped
      else if step = 4 then Case_LU
      else if step = 2 then Case_WU
      else Case_BU)"

fun width :: "case_label \<Rightarrow> nat" where
  "width Case_BU = 1"
| "width Case_B = 1"
| "width Case_WU = 2"
| "width Case_W = 2"
| "width Case_LU = 4"
| "width Case_Swapped = 4"

definition SWAP_SHORTS :: "u32 \<Rightarrow> u32" where
  "SWAP_SHORTS w = drop_bit 16 w OR push_bit 16 w"

text \<open>One item, sign or field extended to 32 bits, and one value stored back.\<close>

fun read_item :: "case_label \<Rightarrow> memory \<Rightarrow> nat \<Rightarrow> u32" where
  "read_item Case_BU m p = ucast (m p)"
| "read_item Case_B m p = scast (m p)"
| "read_item Case_WU m p = ucast (load16 m p)"
| "read_item Case_W m p = scast (load16 m p)"
| "read_item Case_LU m p = load32 m p"
| "read_item Case_Swapped m p = SWAP_SHORTS (load32 m p)"

fun write_item :: "case_label \<Rightarrow> memory \<Rightarrow> nat \<Rightarrow> u32 \<Rightarrow> memory" where
  "write_item Case_BU m p w = m(p := ucast w)"
| "write_item Case_B m p w = m(p := ucast w)"
| "write_item Case_WU m p w = store16 m p (ucast w)"
| "write_item Case_W m p w = store16 m p (ucast w)"
| "write_item Case_LU m p w = store32 m p w"
| "write_item Case_Swapped m p w = store32 m p (SWAP_SHORTS w)"

fun read_items :: "case_label \<Rightarrow> memory \<Rightarrow> nat \<Rightarrow> nat \<Rightarrow> u32 list" where
  "read_items c m p 0 = []"
| "read_items c m p (Suc n) = read_item c m p # read_items c m (p + width c) n"

fun write_items :: "case_label \<Rightarrow> memory \<Rightarrow> nat \<Rightarrow> u32 list \<Rightarrow> memory" where
  "write_items c m p [] = m"
| "write_items c m p (w # ws) = write_items c (write_item c m p w) (p + width c) ws"

section \<open>Compression\<close>

definition "MAXX = (1024 :: nat)"
definition "MAXY = (32 :: nat)"
definition "BITSX = (10 :: nat)"
definition "BITSY = (6 :: nat)"
definition "FIELDSY = (16 :: nat)"
definition "FIELDSX = (2 :: nat)"

lemmas sizes = MAXX_def MAXY_def BITSX_def BITSY_def FIELDSY_def FIELDSX_def

definition MASK :: "nat \<Rightarrow> u32" where
  "MASK bits = drop_bit (32 - bits) 0xffffffff"

definition X_AND_Y :: "u32 \<Rightarrow> u32 \<Rightarrow> u32" where
  "X_AND_Y x y = push_bit BITSY (x AND MASK BITSX) OR (y AND MASK BITSY)"

definition X_OF_INT :: "u32 \<Rightarrow> nat" where
  "X_OF_INT val = unat (drop_bit BITSY val AND MASK BITSX)"

definition Y_OF_INT :: "u32 \<Rightarrow> nat" where
  "Y_OF_INT val = unat (val AND MASK BITSY)"

definition signif :: "nat list" where
  "signif =
    [0, 1, 2, 2, 3, 3, 3, 3, 4, 4, 4, 4, 4, 4, 4, 4, 5, 5, 5, 5, 5, 5,
     5, 5, 5, 5, 5, 5, 5, 5, 5, 5, 6, 6, 6, 6, 6, 6, 6, 6, 6, 6, 6, 6,
     6, 6, 6, 6, 6, 6, 6, 6, 6, 6, 6, 6, 6, 6, 6, 6, 6, 6, 6, 6, 7]"

text \<open>Number of significant bits of a difference, by table after at most three shifts.\<close>

definition signif_of :: "nat \<Rightarrow> nat" where
  "signif_of delta =
     (if delta \<le> 64 then signif ! delta
      else let (delta, yy) = (if delta > 0x1000000 then (delta div 2 ^ 24, 24) else (delta, 0));
               (delta, yy) = (if delta > 0x1000 then (delta div 2 ^ 12, yy + 12) else (delta, yy));
               (delta, yy) = (if delta > 0x40 then (delta div 2 ^ 6, yy + 6) else (delta, yy))
           in yy + signif ! delta)"

text \<open>The difference to the previous item, and the bin of the tally it goes to.\<close>

definition difference :: "u32 \<Rightarrow> u32 \<Rightarrow> u32 \<times> nat" where
  "difference old p =
     (let ans = p - old
      in if ans = 0x80000000
            \<or> (if sint old < 0 then sint ans < sint p else sint ans > sint p)
         then (ans, 32)
         else (ans, signif_of (unat (if sint ans < 0 then - ans else ans))))"

fun differences :: "u32 \<Rightarrow> u32 list \<Rightarrow> (u32 \<times> nat) list" where
  "differences old [] = []"
| "differences old (p # ps) = difference old p # differences p ps"

fun tally_up :: "int list \<Rightarrow> nat list \<Rightarrow> int list" where
  "tally_up tally [] = tally"
| "tally_up tally (yy # ys) = tally_up (tally[yy := tally ! yy + 1]) ys"

text \<open>
  \<open>for (ptally = tally, xsum = xn; (*ptally = xsum -= *ptally) > 0; ++ptally)\<close>: the
  part of the table that is overwritten, \<open>None\<close> when the loop leaves the table.
\<close>

fun sum_tally :: "int \<Rightarrow> int list \<Rightarrow> int list option" where
  "sum_tally xsum [] = None"
| "sum_tally xsum (t # ts) =
     (let xsum = xsum - t
      in if xsum > 0 then map_option ((#) xsum) (sum_tally xsum ts) else Some [xsum])"

text \<open>\<open>while (--yy > 0)\<close>: the cheapest width of the normal block.\<close>

fun best_width :: "int list \<Rightarrow> int \<Rightarrow> int \<Rightarrow> nat \<Rightarrow> int \<Rightarrow> nat \<Rightarrow> nat" where
  "best_width sums xn ye 0 best yn = yn"
| "best_width sums xn ye (Suc y) best yn =
     (let test = xn * int (Suc y) + sums ! y * ye
      in if test < best then best_width sums xn ye y test (Suc y)
         else best_width sums xn ye y best yn)"

text \<open>
  The exception table: \<open>j\<close> differences outside the normal range are moved out and
  replaced by the mark. The scan is not bounded in the code.
\<close>

fun take_exceptions :: "u32 \<Rightarrow> u32 \<Rightarrow> nat \<Rightarrow> u32 list \<Rightarrow> (u32 list \<times> u32 list) option" where
  "take_exceptions mark maxim 0 ds = Some ([], ds)"
| "take_exceptions mark maxim (Suc j) [] = None"
| "take_exceptions mark maxim (Suc j) (d # ds) =
     (if sint d \<le> sint maxim \<and> sint d > sint mark
      then map_option (\<lambda>(exce, ds). (exce, d # ds)) (take_exceptions mark maxim (Suc j) ds)
      else map_option (\<lambda>(exce, ds). (d # exce, mark # ds)) (take_exceptions mark maxim j ds))"

text \<open>One run: its header fields, the normal block and the exceptions.\<close>

record run =
  run_yn :: nat
  run_xe :: nat
  run_ye :: nat
  run_diff :: "u32 list"
  run_exce :: "u32 list"

definition plan_run :: "u32 list \<Rightarrow> run option" where
  "plan_run ps =
     (let xn = length ps;
          dys = differences 0 ps;
          diff = map fst dys;
          tally = tally_up (replicate (MAXY + 1) 0) (map snd dys)
      in if tally ! 0 = int xn
         then Some \<lparr>run_yn = 0, run_xe = 0, run_ye = 0, run_diff = diff, run_exce = []\<rparr>
         else let tally = tally[MAXY - 1 := tally ! (MAXY - 1) + tally ! MAXY]
         in case sum_tally (int xn) tally of
              None \<Rightarrow> None
            | Some sums \<Rightarrow>
                let ye = length sums;
                    yn = best_width sums (int xn) (int ye) (ye - 1) (int xn * int ye) ye;
                    xe = nat (sums ! (yn - 1));
                    mark = push_bit (yn - 1) 0xFFFFFFFF;
                    maxim = NOT mark
                in map_option
                     (\<lambda>(exce, diff). \<lparr>run_yn = yn, run_xe = xe, run_ye = ye,
                                      run_diff = diff, run_exce = exce\<rparr>)
                     (take_exceptions mark maxim xe diff))"

text \<open>The three calls of \<open>MdsPk\<close> that write a run.\<close>

definition put_run :: "nat \<Rightarrow> run \<Rightarrow> memory \<Rightarrow> nat \<Rightarrow> memory \<times> nat" where
  "put_run xn r pack b =
     (let header = [X_AND_Y (of_nat xn - 1) (of_nat (run_yn r)),
                    X_AND_Y (of_nat (run_xe r)) (of_nat (run_ye r) - 1)];
          (pack, b) = MdsPk (int FIELDSY) (int FIELDSX) pack header b;
          (pack, b) = MdsPk (int (run_yn r)) (int xn) pack (run_diff r) b
      in MdsPk (int (run_ye r)) (int (run_xe r)) pack (run_exce r) b)"

function cmprs_loop ::
  "case_label \<Rightarrow> memory \<Rightarrow> nat \<Rightarrow> nat \<Rightarrow> nat \<Rightarrow> memory \<Rightarrow> nat \<Rightarrow> (status \<times> memory \<times> nat) option"
where
  "cmprs_loop c items px nitems limit pack b =
     (if nitems = 0 then Some (MDSplusSUCCESS, pack, b)
      else let xn = min nitems MAXX
      in case plan_run (read_items c items px xn) of
           None \<Rightarrow> None
         | Some r \<Rightarrow>
             if b + run_xe r * run_ye r + xn * run_yn r > limit
             then Some (LibSTRTRU, pack, b)
             else case put_run xn r pack b of
                    (pack, b) \<Rightarrow>
                      cmprs_loop c items (px + xn * width c) (nitems - xn) limit pack b)"
  by pat_completeness auto
termination
  by (relation "measure (\<lambda>(c, items, px, nitems, limit, pack, b). nitems)") (auto simp: MAXX_def)

declare cmprs_loop.simps [simp del]

definition cmprs_limit :: "nat \<Rightarrow> nat" where
  "cmprs_limit arsize = (if arsize > 4 then arsize * 8 - 2 * (BITSY + BITSX) else 0)"

definition MdsCmprs ::
  "nat \<Rightarrow> nat \<Rightarrow> nat \<Rightarrow> memory \<Rightarrow> nat \<Rightarrow> memory \<Rightarrow> nat \<Rightarrow> (status \<times> memory \<times> nat) option"
where
  "MdsCmprs nitems dtype len items arsize pack b =
     (let step = step_of dtype len
      in cmprs_loop (case_of dtype step) items 0 (nitems * (len div step))
           (cmprs_limit arsize) pack b)"

section \<open>Expansion\<close>

text \<open>
  The summation of a run: a marked difference takes the next exception, and there may be
  none left.
\<close>

fun accumulate :: "bool \<Rightarrow> u32 \<Rightarrow> u32 \<Rightarrow> u32 list \<Rightarrow> u32 list \<Rightarrow> u32 list option" where
  "accumulate xe mark old [] pe = Some []"
| "accumulate xe mark old (d # ds) pe =
     (if xe \<and> d = mark
      then (case pe of
              [] \<Rightarrow> None
            | e # pe \<Rightarrow> map_option ((#) (old + e)) (accumulate xe mark (old + e) ds pe))
      else map_option ((#) (old + d)) (accumulate xe mark (old + d) ds pe))"

text \<open>
  What one run gives: the \<open>break\<close> at a header that promises more bits than there are, an
  access outside the tables, or the items and the new cursor.
\<close>

datatype expanded = Break nat | Undefined | Items "u32 list" nat

definition get_run :: "memory \<Rightarrow> nat \<Rightarrow> nat \<Rightarrow> nat \<Rightarrow> expanded" where
  "get_run ppack limit nitems b =
     (case MdsUnpk (int FIELDSY) (int FIELDSX) ppack b of (header, b) \<Rightarrow>
        let xhead = X_OF_INT (header ! 0) + 1;
            j = min xhead nitems;
            yn = Y_OF_INT (header ! 0);
            xe = X_OF_INT (header ! 1);
            ye = Y_OF_INT (header ! 1) + 1
        in if b + ye * xe + yn * j > limit then Break b
           else if yn > 32 \<or> xe > 0 \<and> ye > 32 then Undefined
           else case MdsUnpk (- int yn) (int j) ppack b of (diff, b) \<Rightarrow>
             if xe > 0
             then case MdsUnpk (- int ye) (int xe) ppack (b + yn * (xhead - j)) of (exce, b) \<Rightarrow>
                    (case accumulate True (push_bit (yn - 1) 0xFFFFFFFF) 0 diff exce of
                       None \<Rightarrow> Undefined
                     | Some ws \<Rightarrow> Items ws b)
             else (case accumulate False 0 0 diff diff of
                     None \<Rightarrow> Undefined
                   | Some ws \<Rightarrow> Items ws b))"

function xpand_loop ::
  "case_label \<Rightarrow> memory \<Rightarrow> nat \<Rightarrow> nat \<Rightarrow> nat \<Rightarrow> memory \<Rightarrow> nat \<Rightarrow> (status \<times> memory \<times> nat) option"
where
  "xpand_loop c ppack limit nitems px out b =
     (if nitems = 0 then Some (MDSplusSUCCESS, out, b)
      else if b + 2 * (BITSY + BITSX) > limit then Some (LibINVSTRDES, out, b)
      else case get_run ppack limit nitems b of
             Break b \<Rightarrow> Some (LibINVSTRDES, out, b)
           | Undefined \<Rightarrow> None
           | Items ws b \<Rightarrow>
               if ws = [] then None
               else xpand_loop c ppack limit (nitems - length ws)
                      (px + length ws * width c) (write_items c out px ws) b)"
  by pat_completeness auto
termination
  by (relation "measure (\<lambda>(c, ppack, limit, nitems, px, out, b). nitems)") auto

declare xpand_loop.simps [simp del]

text \<open>
  \<open>MdsXpand\<close> works on a copy of the packed bytes that is followed by bytes of all ones.
\<close>

definition padded :: "memory \<Rightarrow> nat \<Rightarrow> memory" where
  "padded pack arsize = (\<lambda>a. if a < arsize then pack a else - 1)"

definition MdsXpand ::
  "nat \<Rightarrow> nat \<Rightarrow> nat \<Rightarrow> memory \<Rightarrow> nat \<Rightarrow> memory \<Rightarrow> nat \<Rightarrow> (status \<times> memory \<times> nat) option"
where
  "MdsXpand nitems dtype len pack arsize out b =
     (let step = step_of dtype len
      in xpand_loop (case_of dtype step) (padded pack arsize) (arsize * 8)
           (nitems * (len div step)) 0 out b)"


section \<open>Significant bits\<close>

definition bit_length :: "nat \<Rightarrow> nat \<Rightarrow> bool" where
  "bit_length d y \<longleftrightarrow> (if d = 0 then y = 0 else 0 < y \<and> 2 ^ (y - 1) \<le> d \<and> d < 2 ^ y)"

lemma bit_length_less_iff: "bit_length d y \<Longrightarrow> y \<le> n \<longleftrightarrow> d < 2 ^ n"
proof (cases "d = 0")
  case False
  assume "bit_length d y"
  with False have y: "0 < y" "2 ^ (y - 1) \<le> d" "d < 2 ^ y" by (auto simp: bit_length_def)
  show ?thesis
  proof
    assume "y \<le> n"
    then have "(2::nat) ^ y \<le> 2 ^ n" by simp
    with y show "d < 2 ^ n" by linarith
  next
    assume "d < 2 ^ n"
    with y have "(2::nat) ^ (y - 1) < 2 ^ n" by linarith
    then have "y - 1 < n" by simp
    then show "y \<le> n" by linarith
  qed
qed (simp add: bit_length_def)

lemma bit_length_signif: "d \<le> 64 \<Longrightarrow> bit_length d (signif ! d)"
proof -
  have "\<forall>d \<in> set [0..<65]. bit_length d (signif ! d)" by code_simp
  then show "d \<le> 64 \<Longrightarrow> bit_length d (signif ! d)" by simp
qed

lemma bit_length_shift:
  assumes "bit_length (d div 2 ^ s) y" "2 ^ s \<le> d"
  shows "bit_length d (y + s)"
proof -
  have "d div 2 ^ s \<noteq> 0" using assms(2) by (simp add: div_eq_0_iff)
  with assms have y: "0 < y" "2 ^ (y - 1) \<le> d div 2 ^ s" "d div 2 ^ s < 2 ^ y"
    by (auto simp: bit_length_def)
  have "2 ^ (y - 1) * 2 ^ s \<le> d div 2 ^ s * 2 ^ s" using y by simp
  also have "\<dots> \<le> d" by simp
  finally have "2 ^ (y + s - 1) \<le> d" using y by (simp flip: power_add)
  moreover have "d < 2 ^ (y + s)"
    using y(3) by (simp add: power_add div_less_iff_less_mult)
  moreover have "0 < d" using assms(2) by (metis gr0I le_0_eq power_not_zero zero_neq_numeral)
  ultimately show ?thesis using y by (simp add: bit_length_def)
qed

lemma bit_length_last_step:
  "d \<le> 0x1000 \<Longrightarrow> bit_length d (if d > 0x40 then 6 + signif ! (d div 2 ^ 6) else signif ! d)"
  using bit_length_shift [of d 6, OF bit_length_signif] bit_length_signif [of d]
  by (auto simp: add.commute)

lemma bit_length_signif_of:
  assumes "d < 2 ^ 31"
  shows "bit_length d (signif_of d)"
proof -
  let ?last = "\<lambda>d. if d > 0x40 then 6 + signif ! (d div 2 ^ 6) else signif ! d"
  consider "d \<le> 0x1000" | "0x1000 < d" "d \<le> 0x1000000" | "0x1000000 < d" by linarith
  then show ?thesis
  proof cases
    case 1
    then have "signif_of d = ?last d" by (simp add: signif_of_def)
    then show ?thesis using bit_length_last_step [OF 1] by (simp only:)
  next
    case 2
    then have "d div 2 ^ 12 \<le> 0x1000" by simp
    from bit_length_shift [OF bit_length_last_step [OF this]]
    have "bit_length d (?last (d div 2 ^ 12) + 12)" using 2 by simp
    moreover have "signif_of d = ?last (d div 2 ^ 12) + 12"
      using 2 by (simp add: signif_of_def)
    ultimately show ?thesis by (simp only:)
  next
    case 3
    then have "d div 2 ^ 24 \<le> 0x1000" using assms by simp
    from bit_length_shift [OF bit_length_last_step [OF this]]
    have "bit_length d (?last (d div 2 ^ 24) + 24)" using 3 by simp
    moreover have "signif_of d = ?last (d div 2 ^ 24) + 24"
      using 3 assms by (simp add: signif_of_def)
    ultimately show ?thesis by (simp only:)
  qed
qed

section \<open>Normal differences and exceptions\<close>

text \<open>The normal range of a width, and its mark.\<close>

definition mark_of :: "nat \<Rightarrow> u32" where
  "mark_of yn = push_bit (yn - 1) 0xFFFFFFFF"

definition normal :: "nat \<Rightarrow> u32 \<Rightarrow> bool" where
  "normal yn d \<longleftrightarrow> sint d \<le> sint (NOT (mark_of yn)) \<and> sint d > sint (mark_of yn)"

lemma sint_mark: "0 < yn \<Longrightarrow> yn \<le> 32 \<Longrightarrow> sint (mark_of yn) = - (2 ^ (yn - 1))"
proof -
  assume yn: "0 < yn" "yn \<le> 32"
  have m: "mark_of yn = word_of_int (- (2 ^ (yn - 1)))"
  proof -
    have "(0xFFFFFFFF :: u32) = - 1" by simp
    then show ?thesis by (simp only: mark_of_def push_bit_eq_mult) simp
  qed
  have "(2::int) ^ (yn - 1) \<le> 2 ^ 31" using yn by (intro power_increasing) auto
  then show ?thesis
    unfolding m sint_sbintrunc' by (subst signed_take_bit_int_eq_self) (simp_all, smt (verit) zero_less_power)
qed

lemma sint_NOT: "sint (NOT (w :: u32)) = - sint w - 1"
proof -
  have "- (2 ^ 32) \<le> - sint w - 1" "- sint w - 1 < 2 ^ 32"
    using sint_greater_eq [of w] sint_less [of w] by simp_all
  then show ?thesis by (simp add: signed_not_eq not_int_def signed_take_bit_int_eq_self)
qed

lemma normal_iff: "0 < yn \<Longrightarrow> yn \<le> 32 \<Longrightarrow> normal yn d \<longleftrightarrow> \<bar>sint d\<bar> < 2 ^ (yn - 1)"
  by (auto simp: normal_def sint_NOT sint_mark)

lemma extend_small:
  assumes "0 < sz" "sz \<le> 32" "- (2 ^ (sz - 1)) \<le> sint d" "sint d < 2 ^ (sz - 1)"
  shows "extended (- int sz) d = d"
proof (cases "sz = 32")
  case True
  then show ?thesis by (intro bit_word_eqI) (auto simp: extended_def bit_simps)
next
  case False
  have "signed_take_bit (sz - 1) d = word_of_int (signed_take_bit (sz - 1) (sint d))"
    using assms False
    by (intro bit_word_eqI) (auto simp: bit_signed_take_bit_iff bit_sint_iff bit_simps min_def)
  also have "signed_take_bit (sz - 1) (sint d) = sint d"
    using assms by (intro signed_take_bit_int_eq_self) auto
  finally show ?thesis using assms False by (simp add: extended_def)
qed

lemma extend_normal:
  "0 < yn \<Longrightarrow> yn \<le> 32 \<Longrightarrow> normal yn d \<or> d = mark_of yn \<Longrightarrow> extended (- int yn) d = d"
  by (rule extend_small) (auto simp: normal_iff sint_mark)

lemma extend_32: "extended (- 32) d = d"
  by (intro bit_word_eqI) (auto simp: extended_def bit_simps)

lemma extend_0 [simp]: "extended 0 d = 0"
  by (simp add: extended_def)

lemma mark_not_normal: "0 < yn \<Longrightarrow> yn \<le> 32 \<Longrightarrow> \<not> normal yn (mark_of yn)"
  by (simp add: normal_iff sint_mark)

text \<open>
  A difference that does not overflow is tallied by its significant bits; one that
  overflows is tallied in the last bin.
\<close>

definition overflows :: "u32 \<Rightarrow> u32 \<Rightarrow> bool" where
  "overflows old p \<longleftrightarrow> \<bar>sint p - sint old\<bar> \<ge> 2 ^ 31"

lemma signif_of_bound: "d < 2 ^ 31 \<Longrightarrow> signif_of d \<le> 31"
  using bit_length_less_iff [OF bit_length_signif_of, of d 31] by simp

lemma sint_diff: "\<not> overflows old p \<Longrightarrow> sint (p - old) = sint p - sint old"
  using signed_take_bit_int_eq_self [of 31 "sint p - sint old"]
  by (simp add: overflows_def sint_word_diff)

lemma unat_abs:
  fixes d :: u32
  assumes "\<bar>sint d\<bar> < 2 ^ 31"
  shows "unat (if sint d < 0 then - d else d) = nat \<bar>sint d\<bar>"
proof (cases "sint d < 0")
  case True
  have "sint (- d) = - sint d"
    using assms by (simp add: sint_word_minus signed_take_bit_int_eq_self)
  then show ?thesis
    using True assms by (simp add: unat_eq_nat_uint uint_sint take_bit_int_eq_self)
next
  case False
  then show ?thesis
    using assms by (simp add: unat_eq_nat_uint uint_sint take_bit_int_eq_self)
qed

lemma sint_range: "- (2 ^ 31) \<le> sint (w :: u32)" "sint (w :: u32) < 2 ^ 31"
  using sint_greater_eq [of w] sint_less [of w] by simp_all

lemma signed_wrap: "signed_take_bit 31 (k + 4294967296) = signed_take_bit 31 (k :: int)"
proof -
  have "(k + 4294967296 + 2147483648) mod 4294967296 = (k + 2147483648) mod 4294967296"
    using mod_add_self2 [of "k + 2147483648" 4294967296] by (simp add: algebra_simps)
  then show ?thesis
    by (simp add: signed_take_bit_eq_take_bit_shift take_bit_eq_mod)
qed

lemma sint_diff_wrapped:
  "2 ^ 31 \<le> sint p - sint old \<Longrightarrow> sint (p - old) = sint p - sint old - 4294967296"
  "sint p - sint old < - (2 ^ 31) \<Longrightarrow> sint (p - old) = sint p - sint old + 4294967296"
  for p old :: u32
  using signed_wrap [of "sint p - sint old - 4294967296"] signed_wrap [of "sint p - sint old"]
    signed_take_bit_int_eq_self [of 31 "sint p - sint old - 4294967296"]
    signed_take_bit_int_eq_self [of 31 "sint p - sint old + 4294967296"]
    sint_range [of p] sint_range [of old]
  by (simp_all add: sint_word_diff)

lemma overflow_test:
  "p - old = 0x80000000
     \<or> (if sint old < 0 then sint (p - old) < sint p else sint (p - old) > sint p)
   \<longleftrightarrow> overflows old p"
proof -
  have r: "- 2147483648 \<le> sint p" "sint p < 2147483648"
      "- 2147483648 \<le> sint old" "sint old < 2147483648"
    using sint_range [of p] sint_range [of old] by simp_all
  have eq: "p - old = 0x80000000 \<longleftrightarrow> sint (p - old) = - 2147483648"
  proof
    assume "sint (p - old) = - 2147483648"
    then have "sint (p - old) = sint (0x80000000 :: u32)" by simp
    then show "p - old = 0x80000000" by (rule signed_word_eqI)
  qed simp
  consider "\<not> overflows old p" | "2147483648 \<le> sint p - sint old"
    | "sint p - sint old = - 2147483648" | "sint p - sint old < - 2147483648"
    unfolding overflows_def by fastforce
  then show ?thesis
  proof cases
    case 1
    then have "\<bar>sint p - sint old\<bar> < 2147483648" by (simp add: overflows_def)
    then show ?thesis unfolding eq sint_diff [OF 1] using 1 by auto
  next
    case 2
    then have "sint (p - old) = sint p - sint old - 4294967296"
      using sint_diff_wrapped(1) [of p old] by simp
    then show ?thesis unfolding eq using 2 r by (auto simp: overflows_def)
  next
    case 3
    then have "sint (p - old) = - 2147483648" by (simp add: sint_word_diff)
    then show ?thesis unfolding eq using 3 by (auto simp: overflows_def)
  next
    case 4
    then have "sint (p - old) = sint p - sint old + 4294967296"
      using sint_diff_wrapped(2) [of p old] by simp
    then show ?thesis unfolding eq using 4 r by (auto simp: overflows_def)
  qed
qed

lemma difference_cases:
  obtains "overflows old p" "difference old p = (p - old, 32)"
  | "\<not> overflows old p" "difference old p = (p - old, signif_of (nat \<bar>sint (p - old)\<bar>))"
      "\<bar>sint (p - old)\<bar> < 2 ^ 31"
proof (cases "overflows old p")
  case True
  then show ?thesis using that(1) overflow_test [of p old] by (simp add: difference_def Let_def)
next
  case False
  have b: "\<bar>sint (p - old)\<bar> < 2 ^ 31" using False sint_diff [OF False] by (simp add: overflows_def)
  have "difference old p = (p - old, signif_of (nat \<bar>sint (p - old)\<bar>))"
    using False unfolding difference_def Let_def overflow_test unat_abs [OF b] by simp
  then show ?thesis using that(2) False b by simp
qed

text \<open>What the tally bin of a difference says about it.\<close>

definition tallied :: "u32 \<times> nat \<Rightarrow> bool" where
  "tallied dy \<longleftrightarrow> snd dy = 32 \<or> snd dy \<le> 31 \<and> \<bar>sint (fst dy)\<bar> < 2 ^ 31
     \<and> bit_length (nat \<bar>sint (fst dy)\<bar>) (snd dy)"

lemma tallied_difference: "tallied (difference old p)"
proof (cases rule: difference_cases [of old p])
  case 2
  then have "nat \<bar>sint (p - old)\<bar> < 2 ^ 31" by simp
  then show ?thesis
    using 2 bit_length_signif_of signif_of_bound by (simp add: tallied_def)
qed (simp add: tallied_def)

lemma tallied_normal:
  assumes "tallied (d, y)" "0 < yn" "yn \<le> 32"
  shows "y < 32 \<Longrightarrow> normal yn d \<longleftrightarrow> y < yn" and "\<not> normal yn d \<Longrightarrow> yn \<le> y"
    and "y < yn \<Longrightarrow> y < 32 \<Longrightarrow> normal yn d"
proof -
  show 1: "normal yn d \<longleftrightarrow> y < yn" if "y < 32"
  proof -
    have "bit_length (nat \<bar>sint d\<bar>) y" using assms that by (auto simp: tallied_def)
    from bit_length_less_iff [OF this, of "yn - 1"]
    have "y < yn \<longleftrightarrow> nat \<bar>sint d\<bar> < 2 ^ (yn - 1)" using assms(2) by linarith
    then show ?thesis using assms(2,3) by (simp add: normal_iff nat_less_iff)
  qed
  show "\<not> normal yn d \<Longrightarrow> yn \<le> y"
    using 1 assms by (cases "y < 32") (auto simp: tallied_def)
  show "y < yn \<Longrightarrow> y < 32 \<Longrightarrow> normal yn d" using 1 by simp
qed

lemma differences_tallied: "dy \<in> set (differences old ps) \<Longrightarrow> tallied dy"
  by (induction old ps rule: differences.induct) (auto simp: tallied_difference)

lemma length_differences [simp]: "length (differences old ps) = length ps"
  by (induction old ps rule: differences.induct) auto

section \<open>The tally and the cheapest width\<close>

lemma length_tally_up [simp]: "length (tally_up t ys) = length t"
  by (induction t ys rule: tally_up.induct) auto

lemma nth_tally_up:
  "set ys \<subseteq> {..< length t} \<Longrightarrow> k < length t \<Longrightarrow> tally_up t ys ! k = t ! k + int (count_list ys k)"
  by (induction t ys rule: tally_up.induct) (auto simp: nth_list_update)

lemma sum_tally_nth:
  "sum_tally x ts = Some ss \<Longrightarrow> i < length ss \<Longrightarrow> ss ! i = x - sum_list (take (Suc i) ts)"
  by (induction x ts arbitrary: ss i rule: sum_tally.induct)
     (auto simp: Let_def nth_Cons' split: if_splits)

lemma sum_tally_last: "sum_tally x ts = Some ss \<Longrightarrow> ss \<noteq> [] \<and> last ss \<le> 0 \<and> length ss \<le> length ts"
  by (induction x ts arbitrary: ss rule: sum_tally.induct)
     (auto simp: Let_def split: if_splits)

lemma sum_tally_some:
  "k < length ts \<Longrightarrow> x \<le> sum_list (take (Suc k) ts) \<Longrightarrow> \<exists>ss. sum_tally x ts = Some ss \<and> length ss \<le> Suc k"
proof (induction x ts arbitrary: k rule: sum_tally.induct)
  case (2 x t ts)
  show ?case
  proof (cases "x - t > 0")
    case True
    with 2 have "0 < k" by (cases k) auto
    then obtain k' where "k = Suc k'" by (cases k) auto
    then show ?thesis using 2 True by (fastforce simp: Let_def)
  next
    case False
    then show ?thesis by (simp add: Let_def)
  qed
qed simp

text \<open>The cost of a width, and what the search for the cheapest one returns.\<close>

definition cost :: "int list \<Rightarrow> int \<Rightarrow> int \<Rightarrow> nat \<Rightarrow> int" where
  "cost sums xn ye y = xn * int y + sums ! (y - 1) * ye"

lemma best_width_cases:
  "best_width sums xn ye y best yn = yn \<and> (\<forall>k. 1 \<le> k \<and> k \<le> y \<longrightarrow> best \<le> cost sums xn ye k)
   \<or> (\<exists>r. best_width sums xn ye y best yn = r \<and> 1 \<le> r \<and> r \<le> y \<and> cost sums xn ye r < best
         \<and> (\<forall>k. 1 \<le> k \<and> k \<le> y \<longrightarrow> cost sums xn ye r \<le> cost sums xn ye k))"
proof (induction sums xn ye y best yn rule: best_width.induct)
  case (2 sums xn ye y best yn)
  have c: "xn * int (Suc y) + sums ! y * ye = cost sums xn ye (Suc y)" by (simp add: cost_def)
  show ?case
  proof (cases "cost sums xn ye (Suc y) < best")
    case True
    note IH = "2.IH"(1) [OF refl, unfolded c, OF True]
    have e: "best_width sums xn ye (Suc y) best yn
        = best_width sums xn ye y (cost sums xn ye (Suc y)) (Suc y)"
      using True by (simp add: Let_def c del: of_nat_Suc)
    show ?thesis unfolding e using IH True by (auto simp: le_Suc_eq intro: less_trans)
  next
    case False
    note IH = "2.IH"(2) [OF refl, unfolded c, OF False]
    have e: "best_width sums xn ye (Suc y) best yn = best_width sums xn ye y best yn"
      using False by (simp add: Let_def c del: of_nat_Suc)
    show ?thesis unfolding e using IH False by (auto simp: le_Suc_eq)
  qed
qed simp

section \<open>The exception table\<close>

lemma accumulate_differences:
  "accumulate False mk old (map fst (differences old ps)) pe = Some ps"
  by (induction old ps rule: differences.induct) (auto simp: difference_def Let_def)

definition abnormal :: "nat \<Rightarrow> u32 list \<Rightarrow> nat" where
  "abnormal yn ds = length (filter (\<lambda>d. \<not> normal yn d) ds)"

lemma abnormal_simps [simp]:
  "abnormal yn [] = 0"
  "abnormal yn (d # ds) = (if normal yn d then abnormal yn ds else Suc (abnormal yn ds))"
  by (simp_all add: abnormal_def)

lemma take_exceptions_Cons:
  "take_exceptions (mark_of yn) (NOT (mark_of yn)) (Suc j) (d # ds) =
     (if normal yn d
      then map_option (\<lambda>(exce, ds). (exce, d # ds))
             (take_exceptions (mark_of yn) (NOT (mark_of yn)) (Suc j) ds)
      else map_option (\<lambda>(exce, ds). (d # exce, mark_of yn # ds))
             (take_exceptions (mark_of yn) (NOT (mark_of yn)) j ds))"
  by (simp add: normal_def)

lemma take_exceptions_some:
  "(take_exceptions (mark_of yn) (NOT (mark_of yn)) j ds \<noteq> None) \<longleftrightarrow> j \<le> abnormal yn ds"
proof (induction ds arbitrary: j)
  case Nil
  then show ?case by (cases j) auto
next
  case (Cons d ds)
  then show ?case by (cases j) (auto simp: take_exceptions_Cons simp del: take_exceptions.simps(3))
qed

lemma take_exceptions_shape:
  "take_exceptions (mark_of yn) (NOT (mark_of yn)) j ds = Some (exce, ds') \<Longrightarrow>
   length exce = j \<and> length ds' = length ds \<and> set exce \<subseteq> set ds \<and> set ds' \<subseteq> insert (mark_of yn) (set ds)"
proof (induction ds arbitrary: j exce ds')
  case Nil
  then show ?case by (cases j) auto
next
  case (Cons d ds)
  then show ?case
    by (cases j)
       (fastforce simp: take_exceptions_Cons simp del: take_exceptions.simps(3) split: if_splits)+
qed

lemma take_exceptions_normal:
  "take_exceptions (mark_of yn) (NOT (mark_of yn)) j ds = Some (exce, ds') \<Longrightarrow> abnormal yn ds \<le> j \<Longrightarrow>
   d \<in> set ds' \<Longrightarrow> normal yn d \<or> d = mark_of yn"
proof (induction ds arbitrary: j exce ds')
  case Nil
  then show ?case by (cases j) auto
next
  case (Cons d' ds)
  show ?case
  proof (cases j)
    case 0
    then have "\<forall>x \<in> set (d' # ds). normal yn x"
      using Cons.prems(2) by (auto simp: abnormal_def filter_empty_conv split: if_splits)
    then show ?thesis using Cons.prems 0 by auto
  next
    case (Suc k)
    then show ?thesis
      using Cons by (fastforce simp: take_exceptions_Cons simp del: take_exceptions.simps(3) split: if_splits)
  qed
qed

lemma accumulate_exceptions:
  assumes "0 < yn" "yn \<le> 32"
  shows "take_exceptions (mark_of yn) (NOT (mark_of yn)) j (map fst (differences old ps)) = Some (exce, ds') \<Longrightarrow>
   abnormal yn (map fst (differences old ps)) \<le> j \<Longrightarrow>
   accumulate True (mark_of yn) old ds' exce = Some ps"
proof (induction old ps arbitrary: j exce ds' rule: differences.induct)
  case (1 old)
  then show ?case by (cases j) auto
next
  case (2 old p ps)
  have m: "\<not> normal yn (mark_of yn)" by (rule mark_not_normal [OF assms])
  have f: "fst (difference old p) = p - old" by (simp add: difference_def Let_def)
  show ?case
  proof (cases j)
    case 0
    then show ?thesis
      using "2.prems" "2.IH" [of 0 "[]" "map fst (differences p ps)"] f m
      by (cases "p - old = mark_of yn") (auto split: if_splits)
  next
    case (Suc k)
    then show ?thesis
      using 2 f m
      by (cases "normal yn (p - old)")
         (auto simp: take_exceptions_Cons simp del: take_exceptions.simps(3))
  qed
qed

section \<open>What a planned run is\<close>

text \<open>
  The fields of a run fit its header, its blocks fit their widths, and its exceptions
  restore the items.
\<close>

definition restores :: "u32 list \<Rightarrow> run \<Rightarrow> bool" where
  "restores ps r \<longleftrightarrow>
     run_yn r \<le> 32 \<and> run_ye r \<le> 32 \<and> run_xe r < MAXX \<and> (0 < run_xe r \<longrightarrow> 0 < run_ye r)
     \<and> length (run_diff r) = length ps \<and> length (run_exce r) = run_xe r
     \<and> map (extended (- int (run_yn r))) (run_diff r) = run_diff r
     \<and> map (extended (- int (run_ye r))) (run_exce r) = run_exce r
     \<and> (if 0 < run_xe r then accumulate True (push_bit (run_yn r - 1) 0xFFFFFFFF) 0 (run_diff r) (run_exce r)
        else accumulate False 0 0 (run_diff r) (run_diff r)) = Some ps"

text \<open>The tally after the fold of its last bin.\<close>

definition folded :: "nat list \<Rightarrow> int list" where
  "folded ys = (let tally = tally_up (replicate (MAXY + 1) 0) ys
                in tally[MAXY - 1 := tally ! (MAXY - 1) + tally ! MAXY])"

lemma nth_folded:
  assumes "set ys \<subseteq> {..32}" "k < 32"
  shows "folded ys ! k = int (length (filter (\<lambda>y. min y 31 = k) ys))"
proof -
  have c: "count_list ys j = length (filter (\<lambda>y. y = j) ys)" for j
    by (induction ys) auto
  have t: "tally_up (replicate 33 0) ys ! j = int (length (filter (\<lambda>y. y = j) ys))" if "j < 33" for j
    using assms(1) that by (subst nth_tally_up) (auto simp: c)
  have m: "set ys \<subseteq> {..32} \<Longrightarrow> length (filter (\<lambda>y. y = 31) ys) + length (filter (\<lambda>y. y = 32) ys)
      = length (filter (\<lambda>y. min y 31 = 31) ys)"
    by (induction ys) auto
  show ?thesis
  proof (cases "k = 31")
    case True
    then show ?thesis using t m [OF assms(1)] by (simp add: folded_def MAXY_def Let_def flip: of_nat_add)
  next
    case False
    then have "min y 31 = k \<longleftrightarrow> y = k" for y using assms(2) by auto
    then show ?thesis using False assms(2) t by (simp add: folded_def MAXY_def Let_def)
  qed
qed

lemma length_folded [simp]: "length (folded ys) = 33"
  by (simp add: folded_def MAXY_def Let_def)

lemma sum_folded:
  assumes "set ys \<subseteq> {..32}"
  shows "i < 32 \<Longrightarrow> sum_list (take (Suc i) (folded ys)) = int (length (filter (\<lambda>y. min y 31 \<le> i) ys))"
proof (induction i)
  case 0
  have "take (Suc 0) (folded ys) = [folded ys ! 0]"
    by (simp add: take_Suc_conv_app_nth)
  then show ?case using nth_folded [OF assms, of 0] by simp
next
  case (Suc i)
  have m: "length (filter (\<lambda>y. min y 31 \<le> i) ys) + length (filter (\<lambda>y. min y 31 = Suc i) ys)
      = length (filter (\<lambda>y. min y 31 \<le> Suc i) ys)"
    by (induction ys) auto
  have "take (Suc (Suc i)) (folded ys) = take (Suc i) (folded ys) @ [folded ys ! Suc i]"
    using Suc.prems by (simp add: take_Suc_conv_app_nth)
  then show ?case using Suc nth_folded [OF assms, of "Suc i"] m by (simp flip: of_nat_add)
qed

text \<open>The number of differences of a run that a width leaves out.\<close>

definition above :: "nat \<Rightarrow> nat list \<Rightarrow> nat" where
  "above k ys = length (filter (\<lambda>y. k < min y 31) ys)"

lemma sums_folded:
  assumes "set ys \<subseteq> {..32}" "ys \<noteq> []"
  obtains ss where "sum_tally (int (length ys)) (folded ys) = Some ss"
    "0 < length ss" "length ss \<le> 32" "\<And>i. i < length ss \<Longrightarrow> ss ! i = int (above i ys)"
    "above (length ss - 1) ys = 0"
proof -
  have all: "filter (\<lambda>y. min y 31 \<le> 31) ys = ys" by (simp add: filter_id_conv)
  have "int (length ys) \<le> sum_list (take (Suc 31) (folded ys))"
    using sum_folded [OF assms(1), of 31] all by simp
  then obtain ss where ss: "sum_tally (int (length ys)) (folded ys) = Some ss" "length ss \<le> 32"
    using sum_tally_some [of 31 "folded ys" "int (length ys)"] by auto
  have nth: "ss ! i = int (above i ys)" if "i < length ss" for i
  proof -
    have "length (filter (\<lambda>y. min y 31 \<le> i) ys) + above i ys = length ys"
      unfolding above_def using sum_length_filter_compl [of "\<lambda>y. min y 31 \<le> i" ys]
      by (simp only: not_le)
    then show ?thesis
      using sum_tally_nth [OF ss(1) that] sum_folded [OF assms(1), of i] that ss(2) by linarith
  qed
  have "ss \<noteq> []" "last ss \<le> 0" using sum_tally_last [OF ss(1)] by auto
  then have "above (length ss - 1) ys = 0"
    using nth [of "length ss - 1"] by (simp add: last_conv_nth)
  then show ?thesis using that ss nth \<open>ss \<noteq> []\<close> by simp
qed


lemma above_abnormal:
  assumes "\<And>dy. dy \<in> set dys \<Longrightarrow> tallied dy" "0 < yn" "yn \<le> 31"
  shows "abnormal yn (map fst dys) \<le> above (yn - 1) (map snd dys)"
    and "\<forall>dy \<in> set dys. snd dy < 32 \<Longrightarrow> abnormal yn (map fst dys) = above (yn - 1) (map snd dys)"
proof -
  have "abnormal yn (map fst dys) \<le> above (yn - 1) (map snd dys)
      \<and> ((\<forall>dy \<in> set dys. snd dy < 32) \<longrightarrow> abnormal yn (map fst dys) = above (yn - 1) (map snd dys))"
    using assms(1)
  proof (induction dys)
    case (Cons dy dys)
    obtain d y where dy: "dy = (d, y)" by force
    have t: "tallied (d, y)" using Cons.prems dy by simp
    show ?case
      using Cons tallied_normal [OF t, of yn] assms(2,3) dy
      by (cases "normal yn d") (auto simp: above_def)
  qed (simp add: above_def)
  then show "abnormal yn (map fst dys) \<le> above (yn - 1) (map snd dys)"
    and "\<forall>dy \<in> set dys. snd dy < 32 \<Longrightarrow> abnormal yn (map fst dys) = above (yn - 1) (map snd dys)"
    by auto
qed

text \<open>What \<open>plan_run\<close> chooses when not all items are zero.\<close>

lemma plan_run_widths:
  assumes "ps \<noteq> []" "length ps \<le> MAXX"
    and "tally_up (replicate (MAXY + 1) 0) (map snd (differences 0 ps)) ! 0 \<noteq> int (length ps)"
  obtains ye yn where
    "plan_run ps = map_option
       (\<lambda>(exce, diff). \<lparr>run_yn = yn, run_xe = above (yn - 1) (map snd (differences 0 ps)), run_ye = ye,
                         run_diff = diff, run_exce = exce\<rparr>)
       (take_exceptions (mark_of yn) (NOT (mark_of yn)) (above (yn - 1) (map snd (differences 0 ps)))
          (map fst (differences 0 ps)))"
    "0 < yn" "yn \<le> ye" "ye \<le> 32"
    "above (ye - 1) (map snd (differences 0 ps)) = 0"
    "above (yn - 1) (map snd (differences 0 ps)) < MAXX"
    "\<And>k. 1 \<le> k \<Longrightarrow> k \<le> ye \<Longrightarrow>
       length ps * yn + above (yn - 1) (map snd (differences 0 ps)) * ye
         \<le> length ps * k + above (k - 1) (map snd (differences 0 ps)) * ye"
proof -
  let ?ys = "map snd (differences 0 ps)" and ?n = "length ps"
  have "snd dy \<le> 32" if "dy \<in> set (differences 0 ps)" for dy
    using differences_tallied [OF that] by (auto simp: tallied_def)
  then have ys: "set ?ys \<subseteq> {..32}" by auto
  have len: "length ?ys = ?n" by simp
  have ne: "?ys \<noteq> []" using assms(1) len by (metis length_0_conv)
  obtain ss where ss: "sum_tally (int ?n) (folded ?ys) = Some ss"
    "0 < length ss" "length ss \<le> 32" "\<And>i. i < length ss \<Longrightarrow> ss ! i = int (above i ?ys)"
    "above (length ss - 1) ?ys = 0"
    using sums_folded [OF ys ne, unfolded len] by blast
  let ?ye = "length ss"
  define yn where "yn = best_width ss (int ?n) (int ?ye) (?ye - 1) (int ?n * int ?ye) ?ye"
  have cost: "cost ss (int ?n) (int ?ye) k = int (?n * k + above (k - 1) ?ys * ?ye)"
    if "1 \<le> k" "k \<le> ?ye" for k
    using that ss(4) [of "k - 1"] by (simp add: cost_def)
  have top: "cost ss (int ?n) (int ?ye) ?ye = int ?n * int ?ye"
    using cost [of ?ye] ss by (simp add: Suc_le_eq)
  have A: "1 \<le> yn \<and> yn \<le> ?ye \<and> (\<forall>k. 1 \<le> k \<and> k \<le> ?ye \<longrightarrow>
      cost ss (int ?n) (int ?ye) yn \<le> cost ss (int ?n) (int ?ye) k)"
  proof -
    have le: "k \<le> ?ye \<longleftrightarrow> k \<le> ?ye - 1 \<or> k = ?ye" for k using ss(2) by linarith
    consider "yn = ?ye" "\<forall>k. 1 \<le> k \<and> k \<le> ?ye - 1 \<longrightarrow> int ?n * int ?ye \<le> cost ss (int ?n) (int ?ye) k"
      | "1 \<le> yn" "yn \<le> ?ye - 1" "cost ss (int ?n) (int ?ye) yn < int ?n * int ?ye"
        "\<forall>k. 1 \<le> k \<and> k \<le> ?ye - 1 \<longrightarrow> cost ss (int ?n) (int ?ye) yn \<le> cost ss (int ?n) (int ?ye) k"
      using best_width_cases [of ss "int ?n" "int ?ye" "?ye - 1" "int ?n * int ?ye" ?ye, folded yn_def]
      by blast
    then show ?thesis
    proof cases
      case 1
      have "1 \<le> ?ye" using ss(2) by linarith
      then show ?thesis using 1 top le by (metis order.refl)
    next
      case 2
      have "yn \<le> ?ye" using 2(2) by linarith
      then show ?thesis using 2 top le by (metis less_imp_le)
    qed
  qed
  then have yn: "1 \<le> yn" "yn \<le> ?ye" and best: "\<And>k. 1 \<le> k \<Longrightarrow> k \<le> ?ye \<Longrightarrow>
      cost ss (int ?n) (int ?ye) yn \<le> cost ss (int ?n) (int ?ye) k" by blast+
  have opt: "?n * yn + above (yn - 1) ?ys * ?ye \<le> ?n * k + above (k - 1) ?ys * ?ye"
    if "1 \<le> k" "k \<le> ?ye" for k
    using best [OF that] cost [OF that] cost [OF yn] by (simp only: of_nat_le_iff)
  have "above (yn - 1) ?ys < MAXX"
  proof -
    have "?n * yn + above (yn - 1) ?ys * ?ye \<le> ?n * ?ye"
      using opt [of ?ye] ss(2,5) by (simp add: Suc_le_eq)
    moreover have "0 < ?n * yn" using yn assms(1) by simp
    ultimately have "above (yn - 1) ?ys * ?ye < ?n * ?ye" by linarith
    then show ?thesis using assms(2) by simp
  qed
  moreover have "plan_run ps = map_option
       (\<lambda>(exce, diff). \<lparr>run_yn = yn, run_xe = above (yn - 1) ?ys, run_ye = ?ye,
                         run_diff = diff, run_exce = exce\<rparr>)
       (take_exceptions (mark_of yn) (NOT (mark_of yn)) (above (yn - 1) ?ys) (map fst (differences 0 ps)))"
  proof -
    have "nat (ss ! (yn - 1)) = above (yn - 1) ?ys" using ss(4) [of "yn - 1"] yn by simp
    then show ?thesis
      by (simp only: plan_run_def Let_def assms(3) if_False folded_def [unfolded Let_def, symmetric]
            ss(1) option.case yn_def [symmetric] mark_of_def)
  qed
  ultimately show ?thesis using that yn ss opt by (simp add: Suc_le_eq)
qed

lemma all_zero_differences:
  assumes "tally_up (replicate (MAXY + 1) 0) (map snd (differences 0 ps)) ! 0 = int (length ps)"
  shows "set (map fst (differences 0 ps)) \<subseteq> {0}"
proof -
  let ?ys = "map snd (differences 0 ps)"
  have c: "count_list ys 0 = length ys \<Longrightarrow> y \<in> set ys \<Longrightarrow> y = 0" for y and ys :: "nat list"
  proof (induction ys)
    case (Cons a ys)
    then show ?case using count_le_length [of ys 0] by (cases "a = 0") auto
  qed simp
  have le: "snd dy < 33" if "dy \<in> set (differences 0 ps)" for dy
    using differences_tallied [OF that] by (auto simp: tallied_def)
  then have ys: "set ?ys \<subseteq> {..<33}" by auto
  have "count_list ?ys 0 = length ?ys"
    using assms nth_tally_up [of ?ys "replicate 33 0" 0] ys by (simp add: MAXY_def del: set_map)
  then have z: "snd dy = 0" if "dy \<in> set (differences 0 ps)" for dy
    using c [of ?ys "snd dy"] that by simp
  have "fst dy = 0" if "dy \<in> set (differences 0 ps)" for dy
    using differences_tallied [OF that] z [OF that] signed_word_eqI [of "fst dy" 0]
    by (auto simp: tallied_def bit_length_def split: if_splits)
  then show ?thesis by auto
qed

lemma plan_run_restores:
  assumes "ps \<noteq> []" "length ps \<le> MAXX" "plan_run ps = Some r"
  shows "restores ps r"
proof -
  let ?dys = "differences 0 ps" and ?ys = "map snd (differences 0 ps)"
  show ?thesis
  proof (cases "tally_up (replicate (MAXY + 1) 0) ?ys ! 0 = int (length ps)")
    case True
    then have r: "r = \<lparr>run_yn = 0, run_xe = 0, run_ye = 0, run_diff = map fst ?dys, run_exce = []\<rparr>"
      using assms(3) by (simp add: plan_run_def Let_def)
    have "map (extended 0) (map fst ?dys) = map fst ?dys"
      using all_zero_differences [OF True] by (auto intro!: map_idI)
    then show ?thesis by (simp add: restores_def r accumulate_differences MAXX_def)
  next
    case False
    obtain ye yn where plan: "plan_run ps = map_option
       (\<lambda>(exce, diff). \<lparr>run_yn = yn, run_xe = above (yn - 1) ?ys, run_ye = ye,
                         run_diff = diff, run_exce = exce\<rparr>)
       (take_exceptions (mark_of yn) (NOT (mark_of yn)) (above (yn - 1) ?ys) (map fst ?dys))"
      and yn: "0 < yn" "yn \<le> ye" "ye \<le> 32" "above (ye - 1) ?ys = 0" "above (yn - 1) ?ys < MAXX"
      using plan_run_widths [OF assms(1,2) False] by metis
    then obtain exce diff where take:
      "take_exceptions (mark_of yn) (NOT (mark_of yn)) (above (yn - 1) ?ys) (map fst ?dys) = Some (exce, diff)"
      and r: "r = \<lparr>run_yn = yn, run_xe = above (yn - 1) ?ys, run_ye = ye,
                   run_diff = diff, run_exce = exce\<rparr>"
      using assms(3) [unfolded plan map_option_eq_Some] by auto
    note shape = take_exceptions_shape [OF take]
    have fit: "extended (- int ye) d = d" if "d \<in> set (map fst ?dys)" for d
    proof (cases "ye = 32")
      case False
      have "abnormal ye (map fst ?dys) = 0"
        using above_abnormal(1) [of ?dys ye, OF differences_tallied] yn False by simp
      then have "normal ye d" using that by (auto simp: abnormal_def filter_empty_conv)
      then show ?thesis using extend_normal [of ye d] yn by simp
    qed (simp add: extend_32)
    have exce: "map (extended (- int ye)) exce = exce"
      using shape fit by (intro map_idI) (meson subsetD)
    show ?thesis
    proof (cases "yn = 32")
      case True
      then have "above (yn - 1) ?ys = 0" using yn by simp
      then show ?thesis
        using take True yn by (auto simp: restores_def r accumulate_differences extend_32 MAXX_def intro: map_idI)
    next
      case False
      have ab: "abnormal yn (map fst ?dys) \<le> above (yn - 1) ?ys"
        using above_abnormal(1) [of ?dys yn, OF differences_tallied] yn False by simp
      have diff: "map (extended (- int yn)) diff = diff"
        using take_exceptions_normal [OF take ab] extend_normal [of yn] yn by (intro map_idI) auto
      have acc: "accumulate True (push_bit (yn - 1) 0xFFFFFFFF) 0 diff exce = Some ps"
        using accumulate_exceptions [OF _ _ take ab] yn by (simp add: mark_of_def)
      show ?thesis
      proof (cases "above (yn - 1) ?ys = 0")
        case True
        then have "diff = map fst ?dys" using take by simp
        then show ?thesis using True yn shape exce diff by (simp add: restores_def r accumulate_differences)
      next
        case False
        then show ?thesis using yn shape exce diff acc by (simp add: restores_def r)
      qed
    qed
  qed
qed

text \<open>Without an overflow among the differences the exception scan stays in the run.\<close>

fun steady :: "u32 \<Rightarrow> u32 list \<Rightarrow> bool" where
  "steady old [] = True"
| "steady old (p # ps) = (\<not> overflows old p \<and> steady p ps)"

lemma steady_tally: "steady old ps \<Longrightarrow> dy \<in> set (differences old ps) \<Longrightarrow> snd dy < 32"
proof (induction old ps rule: differences.induct)
  case (2 old p ps)
  have "snd (difference old p) < 32"
    using 2(2) signif_of_bound [of "nat \<bar>sint (p - old)\<bar>"]
    by (cases rule: difference_cases [of old p]) (simp_all add: nat_less_iff)
  then show ?case using 2 by auto
qed simp

lemma plan_run_steady:
  assumes "ps \<noteq> []" "length ps \<le> MAXX" "steady 0 ps"
  shows "plan_run ps \<noteq> None"
proof -
  let ?ys = "map snd (differences 0 ps)"
  show ?thesis
  proof (cases "tally_up (replicate (MAXY + 1) 0) ?ys ! 0 = int (length ps)")
    case True
    then show ?thesis by (simp add: plan_run_def Let_def)
  next
    case False
    then obtain ye yn where plan: "plan_run ps = map_option
       (\<lambda>(exce, diff). \<lparr>run_yn = yn, run_xe = above (yn - 1) ?ys, run_ye = ye,
                         run_diff = diff, run_exce = exce\<rparr>)
       (take_exceptions (mark_of yn) (NOT (mark_of yn)) (above (yn - 1) ?ys) (map fst (differences 0 ps)))"
      and yn: "0 < yn" "yn \<le> ye" "ye \<le> 32" "above (ye - 1) ?ys = 0"
      using plan_run_widths [OF assms(1,2) False] by metis
    have "above (yn - 1) ?ys \<le> abnormal yn (map fst (differences 0 ps))"
    proof (cases "yn = 32")
      case True
      then show ?thesis using yn by simp
    next
      case False
      then show ?thesis
        using above_abnormal(2) [of "differences 0 ps" yn, OF differences_tallied] steady_tally [OF assms(3)] yn by simp
    qed
    then show ?thesis using plan take_exceptions_some [of yn] by (auto simp: option.map_disc_iff)
  qed
qed


section \<open>A run in the packed bits\<close>

lemma MASK_fields: "MASK 10 = mask 10" "MASK 6 = mask 6"
  by (simp_all add: MASK_def mask_eq_exp_minus_1)

lemma header_fields:
  "X_OF_INT (extended 16 (X_AND_Y x y)) = unat (take_bit 10 x)"
  "Y_OF_INT (extended 16 (X_AND_Y x y)) = unat (take_bit 6 y)"
proof -
  have "drop_bit 6 (extended 16 (X_AND_Y x y)) AND mask 10 = take_bit 10 x"
    by (rule bit_word_eqI)
       (auto simp: extended_def X_AND_Y_def MASK_fields bit_simps sizes simp del: push_bit_and)
  then show "X_OF_INT (extended 16 (X_AND_Y x y)) = unat (take_bit 10 x)"
    by (simp add: X_OF_INT_def MASK_fields sizes)
  have "extended 16 (X_AND_Y x y) AND mask 6 = take_bit 6 y"
    by (rule bit_word_eqI)
       (auto simp: extended_def X_AND_Y_def MASK_fields bit_simps sizes simp del: push_bit_and)
  then show "Y_OF_INT (extended 16 (X_AND_Y x y)) = unat (take_bit 6 y)"
    by (simp add: Y_OF_INT_def MASK_fields sizes)
qed

lemma unat_take_bit_small: "k < 2 ^ n \<Longrightarrow> n \<le> 32 \<Longrightarrow> unat (take_bit n (of_nat k :: u32)) = k"
proof -
  assume k: "k < 2 ^ n" "n \<le> 32"
  then have "k < 2 ^ 32" by (meson less_le_trans one_le_numeral power_increasing)
  then show ?thesis using k by (simp add: unsigned_take_bit_eq unat_of_nat take_bit_nat_eq_self)
qed

lemma put_run_spec:
  assumes "restores ps r" "ps \<noteq> []" "length ps \<le> MAXX"
    and put: "put_run (length ps) r pack b = (m, e)"
  shows "e = b + 32 + run_yn r * length ps + run_ye r * run_xe r" and "same_bits pack m b"
    and "same_bits m M e \<Longrightarrow> e \<le> limit \<Longrightarrow> length ps \<le> nitems \<Longrightarrow>
         get_run M limit nitems b = Items ps e"
proof -
  let ?hd = "[X_AND_Y (of_nat (length ps) - 1) (of_nat (run_yn r)),
              X_AND_Y (of_nat (run_xe r)) (of_nat (run_ye r) - 1)]"
  note R = assms(1) [unfolded restores_def]
  obtain m1 b1 where 1: "MdsPk (int FIELDSY) (int FIELDSX) pack ?hd b = (m1, b1)" by force
  obtain m2 b2 where 2: "MdsPk (int (run_yn r)) (int (length ps)) m1 (run_diff r) b1 = (m2, b2)" by force
  have 3: "MdsPk (int (run_ye r)) (int (run_xe r)) m2 (run_exce r) b2 = (m, e)"
    using put 1 2 by (simp add: put_run_def Let_def)
  have b1: "b1 = b + 32" "same_bits pack m1 b"
    using MdsPk.pk_cursor [of "int FIELDSY" "int FIELDSX" ?hd pack b]
      MdsPk.pk_keeps [of "int FIELDSY" "int FIELDSX" ?hd pack b] 1 by (simp_all add: sizes)
  have b2: "b2 = b1 + run_yn r * length ps" "same_bits m1 m2 b1"
    using MdsPk.pk_cursor [of "int (run_yn r)" "int (length ps)" "run_diff r" m1 b1]
      MdsPk.pk_keeps [of "int (run_yn r)" "int (length ps)" "run_diff r" m1 b1] 2 R by simp_all
  have e: "e = b2 + run_ye r * run_xe r" "same_bits m2 m b2"
    using MdsPk.pk_cursor [of "int (run_ye r)" "int (run_xe r)" "run_exce r" m2 b2]
      MdsPk.pk_keeps [of "int (run_ye r)" "int (run_xe r)" "run_exce r" m2 b2] 3 R by simp_all
  show "e = b + 32 + run_yn r * length ps + run_ye r * run_xe r" using b1 b2 e by simp
  have m1m: "same_bits m1 m b1"
    using b2 e same_bits_less [OF e(2), of b1] by (auto intro: same_bits_trans)
  then show "same_bits pack m b"
    using b1 same_bits_less [OF m1m, of b] by (auto intro: same_bits_trans)
  assume M: "same_bits m M e" and lim: "e \<le> limit" and n: "length ps \<le> nitems"
  have M1: "same_bits m1 M b1" and M2: "same_bits m2 M b2"
    using M m1m e b1 b2 same_bits_less [OF M, of b1] same_bits_less [OF M, of b2]
    by (auto intro: same_bits_trans)
  have hd: "MdsUnpk (int FIELDSY) (int FIELDSX) M b = (map (extended 16) ?hd, b + 32)"
    using MdsPk.unpk_pk [of "int FIELDSY" "int FIELDSY" "int FIELDSX" "int FIELDSX" ?hd pack b M] M1 1 b1(1)
    by (simp add: sizes)
  have nb: "MdsUnpk (- int (run_yn r)) (int (length ps)) M b1 = (run_diff r, b2)"
    using MdsPk.unpk_pk [of "int (run_yn r)" "- int (run_yn r)" "int (length ps)" "int (length ps)"
        "run_diff r" m1 b1 M] M2 2 b2(1) R by simp
  have eb: "MdsUnpk (- int (run_ye r)) (int (run_xe r)) M b2 = (run_exce r, e)"
    using MdsPk.unpk_pk [of "int (run_ye r)" "- int (run_ye r)" "int (run_xe r)" "int (run_xe r)"
        "run_exce r" m2 b2 M] M 3 e(1) R by simp
  have "of_nat (length ps) - 1 = (of_nat (length ps - 1) :: u32)"
    using assms(2) by (cases ps) auto
  then have xn: "X_OF_INT (extended 16 (?hd ! 0)) = length ps - 1"
    using assms(2,3) by (simp only: nth_Cons_0 header_fields) (subst unat_take_bit_small; simp add: MAXX_def)
  have yn: "Y_OF_INT (extended 16 (?hd ! 0)) = run_yn r"
    using R by (simp only: nth_Cons_0 header_fields) (subst unat_take_bit_small; simp)
  have xe: "X_OF_INT (extended 16 (?hd ! 1)) = run_xe r"
    using R by (simp add: header_fields) (subst unat_take_bit_small; simp add: MAXX_def)
  have ye: "Y_OF_INT (extended 16 (?hd ! 1)) + 1 = run_ye r" if "0 < run_xe r"
  proof -
    have "0 < run_ye r" using that R by simp
    then have "of_nat (run_ye r) - 1 = (of_nat (run_ye r - 1) :: u32)" by (cases "run_ye r") auto
    moreover have "unat (take_bit 6 (of_nat (run_ye r - 1) :: u32)) = run_ye r - 1"
      using R by (intro unat_take_bit_small) auto
    moreover have "?hd ! 1 = X_AND_Y (of_nat (run_xe r)) (of_nat (run_ye r) - 1)" by simp
    ultimately show ?thesis using \<open>0 < run_ye r\<close> by (simp only: header_fields)
  qed
  have j: "min (length ps - 1 + 1) nitems = length ps" "length ps - 1 + 1 = length ps"
    using assms(2) n by (cases ps; simp)+
  have nth: "map (extended 16) ?hd ! 0 = extended 16 (?hd ! 0)"
    "map (extended 16) ?hd ! 1 = extended 16 (?hd ! 1)" by simp_all
  define hs where "hs = map (extended 16) ?hd"
  note F = hd [folded hs_def] xn [folded nth, folded hs_def] yn [folded nth, folded hs_def]
    xe [folded nth, folded hs_def] j
  have n': "min (length ps) nitems = length ps" using n by simp
  have ye: "Y_OF_INT (hs ! 1) + 1 = run_ye r" if "0 < run_xe r"
    using ye [OF that] by (simp add: hs_def)
  show "get_run M limit nitems b = Items ps e"
  proof (cases "run_xe r = 0")
    case True
    then show ?thesis
      using R lim b1 b2 e nb
      by (simp only: get_run_def F prod.case Let_def) (simp add: n')
  next
    case False
    then show ?thesis
      using R lim b1 b2 e nb eb ye
      by (simp only: get_run_def F prod.case Let_def) (simp add: n')
  qed
qed

section \<open>Items\<close>

lemma length_read_items [simp]: "length (read_items c m p n) = n"
  by (induction c m p n rule: read_items.induct) auto

lemma read_items_add:
  "read_items c m p (n + k) = read_items c m p n @ read_items c m (p + n * width c) k"
  by (induction c m p n rule: read_items.induct) (auto simp: algebra_simps)

lemma write_items_append:
  "write_items c m p (xs @ ys) = write_items c (write_items c m p xs) (p + length xs * width c) ys"
  by (induction c m p xs rule: write_items.induct) (auto simp: algebra_simps)

lemma cast_back:
  "ucast (ucast (w :: u8) :: u32) = w" "ucast (scast (w :: u8) :: u32) = w"
  "ucast (ucast (v :: u16) :: u32) = v" "ucast (scast (v :: u16) :: u32) = v"
  by (rule bit_word_eqI; simp add: bit_simps)+

lemma SWAP_SHORTS_twice [simp]: "SWAP_SHORTS (SWAP_SHORTS w) = w"
proof (rule bit_word_eqI)
  fix n assume "n < LENGTH(32)"
  then have "n < 16 \<or> 16 + (n - 16) = n" "n < 32" by auto
  then show "bit (SWAP_SHORTS (SWAP_SHORTS w)) n = bit w n"
    by (auto simp: SWAP_SHORTS_def bit_simps dest: bit_imp_le_length)
qed

lemma store_load_16:
  "store16 m p (load16 items p) = (\<lambda>a. if p \<le> a \<and> a < p + 2 then items a else m a)"
proof (rule ext)
  fix a
  have 1: "ucast (load16 items p) = items p"
    by (rule bit_word_eqI) (simp add: load16_def bit_simps)
  have 2: "ucast (drop_bit 8 (load16 items p)) = items (p + 1)"
    by (rule bit_word_eqI) (auto simp: load16_def bit_simps dest: bit_imp_le_length)
  show "store16 m p (load16 items p) a = (if p \<le> a \<and> a < p + 2 then items a else m a)"
    unfolding store16_def 1 2 by auto
qed

lemma store_load_32:
  "store32 m p (load32 items p) = (\<lambda>a. if p \<le> a \<and> a < p + 4 then items a else m a)"
proof (intro ext bit_word_eqI)
  fix a k assume "k < LENGTH(8)"
  then have k: "k < 8" by simp
  show "bit (store32 m p (load32 items p) a) k = bit (if p \<le> a \<and> a < p + 4 then items a else m a) k"
  proof (cases "p \<le> a \<and> a < p + 4")
    case True
    then have "8 * p + (8 * (a - p) + k) = 8 * a + k" by (simp add: diff_mult_distrib2)
    then have "mbit items (8 * p + (8 * (a - p) + k)) = bit (items a) k"
      using k by (simp only: mbit_add) simp
    moreover have "8 * (a - p) + k < 32" using True k by linarith
    ultimately show ?thesis using True k by (simp add: mem add.assoc del: mbit_add)
  next
    case False
    then show ?thesis by (simp only: bit_store32 if_False)
  qed
qed

lemma write_read_item:
  "write_item c m p (read_item c items p) = (\<lambda>a. if p \<le> a \<and> a < p + width c then items a else m a)"
  by (cases c) (auto simp: cast_back store_load_16 store_load_32 fun_eq_iff)

lemma write_read_items:
  "write_items c m p (read_items c items p n)
   = (\<lambda>a. if p \<le> a \<and> a < p + n * width c then items a else m a)"
  by (induction n arbitrary: m p) (auto simp: write_read_item fun_eq_iff)

section \<open>What is expanded is what was compressed\<close>

lemma cmprs_loop_step:
  assumes "n \<noteq> 0"
  shows "cmprs_loop c items px n limit pack b =
    (case plan_run (read_items c items px (min n MAXX)) of
       None \<Rightarrow> None
     | Some r \<Rightarrow>
         if b + run_xe r * run_ye r + min n MAXX * run_yn r > limit then Some (LibSTRTRU, pack, b)
         else cmprs_loop c items (px + min n MAXX * width c) (n - min n MAXX) limit
                (fst (put_run (min n MAXX) r pack b)) (snd (put_run (min n MAXX) r pack b)))"
  using assms by (subst cmprs_loop.simps) (simp only: if_False Let_def split_beta)

lemma cmprs_loop_xpand:
  "cmprs_loop c items px n limit pack b = Some (MDSplusSUCCESS, pack', e) \<Longrightarrow>
   same_bits pack pack' b \<and> b \<le> e
   \<and> (\<forall>M lim out. same_bits pack' M e \<longrightarrow> e \<le> lim \<longrightarrow>
        xpand_loop c M lim n px out b
        = Some (MDSplusSUCCESS, write_items c out px (read_items c items px n), e))"
proof (induction c items px n limit pack b rule: cmprs_loop.induct)
  case (1 c items px n limit pack b)
  show ?case
  proof (cases "n = 0")
    case True
    then have e: "pack' = pack" "e = b"
      using "1.prems" by (simp_all add: cmprs_loop.simps [of c items px 0 limit pack b])
    have "xpand_loop c M lim 0 px out b = Some (MDSplusSUCCESS, out, b)" for M lim out
      by (subst xpand_loop.simps) simp
    then show ?thesis using True e by simp
  next
    case False
    let ?xn = "min n MAXX" and ?px = "px + min n MAXX * width c"
    let ?ps = "read_items c items px ?xn"
    note L = "1.prems" [unfolded cmprs_loop_step [OF False]]
    obtain r where plan: "plan_run ?ps = Some r"
      using L by (cases "plan_run ?ps") (simp_all only: option.case option.distinct)
    obtain m1 b1 where put: "put_run ?xn r pack b = (m1, b1)" by force
    have room: "\<not> b + run_xe r * run_ye r + ?xn * run_yn r > limit"
      using L [unfolded plan option.case] by (auto split: if_splits)
    have rest: "cmprs_loop c items ?px (n - ?xn) limit m1 b1 = Some (MDSplusSUCCESS, pack', e)"
      using L unfolding plan option.case put fst_conv snd_conv by (simp only: room if_False)
    have IH: "same_bits m1 pack' b1 \<and> b1 \<le> e
      \<and> (\<forall>M lim out. same_bits pack' M e \<longrightarrow> e \<le> lim \<longrightarrow>
           xpand_loop c M lim (n - ?xn) ?px out b1
           = Some (MDSplusSUCCESS, write_items c out ?px (read_items c items ?px (n - ?xn)), e))"
      using "1.IH" [OF False refl plan room put [symmetric] rest] .
    then have IH1: "same_bits m1 pack' b1" and IH2: "b1 \<le> e" by blast+
    have ps: "length ?ps \<le> MAXX" "length ?ps = ?xn" "length ?ps \<le> n" by simp_all
    have "0 < length ?ps" using False by (simp add: MAXX_def)
    then have ne: "?ps \<noteq> []" by blast
    note R = plan_run_restores [OF ne ps(1) plan]
    have "put_run (length ?ps) r pack b = (m1, b1)" using put by (simp only: ps(2))
    note P = put_run_spec [OF R ne ps(1) this]
    have "xpand_loop c M lim n px out b
        = Some (MDSplusSUCCESS, write_items c out px (read_items c items px n), e)"
      if M: "same_bits pack' M e" "e \<le> lim" for M lim out
    proof -
      have "same_bits m1 M b1"
        by (rule same_bits_trans [OF IH1 same_bits_less [OF M(1) IH2]])
      then have get: "get_run M lim n b = Items ?ps b1"
        using P(3) IH2 M(2) ps(3) by simp
      have "b + 2 * (BITSY + BITSX) \<le> lim" using P(1) IH2 M(2) by (simp add: sizes)
      then have "xpand_loop c M lim n px out b
          = xpand_loop c M lim (n - ?xn) ?px (write_items c out px ?ps) b1"
        using False get ne by (subst xpand_loop.simps) simp
      also have "\<dots> = Some (MDSplusSUCCESS,
          write_items c (write_items c out px ?ps) ?px (read_items c items ?px (n - ?xn)), e)"
        using IH M by blast
      also have "write_items c (write_items c out px ?ps) ?px (read_items c items ?px (n - ?xn))
          = write_items c out px (read_items c items px n)"
        using read_items_add [of c items px ?xn "n - ?xn"] by (simp add: write_items_append)
      finally show ?thesis .
    qed
    moreover have "b \<le> b1" using P(1) by simp
    moreover from this have "same_bits pack pack' b"
      by (rule same_bits_trans [OF P(2) same_bits_less [OF IH1]])
    ultimately show ?thesis using IH2 by simp
  qed
qed


text \<open>Runs whose differences do not overflow never leave the tables.\<close>

lemma cmprs_loop_total:
  "(\<And>k. k * MAXX < n \<Longrightarrow>
      steady 0 (read_items c items (px + k * MAXX * width c) (min (n - k * MAXX) MAXX))) \<Longrightarrow>
   cmprs_loop c items px n limit pack b \<noteq> None"
proof (induction n arbitrary: px pack b rule: less_induct)
  case (less n)
  show ?case
  proof (cases "n = 0")
    case True
    then show ?thesis by (subst cmprs_loop.simps) simp
  next
    case False
    let ?ps = "read_items c items px (min n MAXX)" and ?px = "px + min n MAXX * width c"
    have "0 < length ?ps" using False by (simp add: MAXX_def)
    then have ne: "?ps \<noteq> []" by blast
    have "steady 0 ?ps" using less.prems [of 0] False by simp
    then obtain r where plan: "plan_run ?ps = Some r"
      using plan_run_steady [OF ne] by auto
    have rest: "cmprs_loop c items ?px (n - min n MAXX) limit m1 b1 \<noteq> None" for m1 b1
    proof (rule less.IH)
      show "n - min n MAXX < n" using False by (simp add: MAXX_def)
      fix k assume k: "k * MAXX < n - min n MAXX"
      then have m: "min n MAXX = MAXX" by (auto simp: min_def split: if_splits)
      have px: "?px + k * MAXX * width c = px + Suc k * MAXX * width c"
        unfolding m by (simp add: algebra_simps)
      have n: "n - min n MAXX - k * MAXX = n - Suc k * MAXX" using m by simp
      have "Suc k * MAXX < n" using k m by simp
      from less.prems [OF this]
      show "steady 0 (read_items c items (?px + k * MAXX * width c) (min (n - min n MAXX - k * MAXX) MAXX))"
        by (simp only: px n)
    qed
    show ?thesis
      using rest by (simp only: cmprs_loop_step [OF False] plan option.case) (simp del: not_None_eq)
  qed
qed

lemma small_items:
  "width c < 4 \<Longrightarrow> w \<in> set (read_items c items p n) \<Longrightarrow> \<bar>sint w\<bar> < 2 ^ 16"
proof (induction n arbitrary: p)
  case (Suc n)
  have K: "signed_take_bit 31 k = k" if "0 \<le> k" "k < 2 ^ 16" for k :: int
    using that by (intro signed_take_bit_int_eq_self) auto
  have U8: "sint (ucast (v :: u8) :: u32) = uint v" for v
    using unsigned_less [of v, where ?'a = int]
      unsigned_greater_eq [of v, where ?'a = int]
    by (simp add: sint_uint unsigned_ucast_eq take_bit_int_eq_self K)
  have U16: "sint (ucast (v :: u16) :: u32) = uint v" for v
    using unsigned_less [of v, where ?'a = int]
      unsigned_greater_eq [of v, where ?'a = int]
    by (simp add: sint_uint unsigned_ucast_eq take_bit_int_eq_self K)
  have S8: "sint (scast (v :: u8) :: u32) = sint v" for v
    by (simp add: signed_scast_eq signed_take_bit_int_eq_self_iff) (use sint_greater_eq [of v] sint_less [of v] in simp)
  have S16: "sint (scast (v :: u16) :: u32) = sint v" for v
    by (simp add: signed_scast_eq signed_take_bit_int_eq_self_iff) (use sint_greater_eq [of v] sint_less [of v] in simp)
  have "\<bar>sint (read_item c items p)\<bar> < 2 ^ 16"
    using Suc.prems(1) unsigned_less [of "items p", where ?'a = int]
      unsigned_less [of "load16 items p", where ?'a = int]
      sint_greater_eq [of "items p"] sint_less [of "items p"]
      sint_greater_eq [of "load16 items p"] sint_less [of "load16 items p"]
    by (cases c) (simp_all add: U8 U16 S8 S16)
  then show ?case using Suc by auto
qed simp

lemma small_steady: "\<bar>sint old\<bar> < 2 ^ 16 \<Longrightarrow> \<forall>w \<in> set ps. \<bar>sint w\<bar> < 2 ^ 16 \<Longrightarrow> steady old ps"
  by (induction old ps rule: steady.induct) (auto simp: overflows_def)

lemma cmprs_loop_bounds:
  "cmprs_loop c items px n limit pack b = Some (st, pack', e) \<Longrightarrow>
   b \<le> e \<and> same_bits pack pack' b \<and> (b < e \<longrightarrow> e \<le> limit + 32)"
proof (induction n arbitrary: px pack b rule: less_induct)
  case (less n)
  show ?case
  proof (cases "n = 0")
    case True
    have "cmprs_loop c items px 0 limit pack b = Some (MDSplusSUCCESS, pack, b)"
      by (subst cmprs_loop.simps) simp
    then show ?thesis using less.prems True by simp
  next
    case False
    let ?ps = "read_items c items px (min n MAXX)"
    note L = less.prems [unfolded cmprs_loop_step [OF False]]
    obtain r where plan: "plan_run ?ps = Some r"
      using L by (cases "plan_run ?ps") (simp_all only: option.case option.distinct)
    have ps: "length ?ps \<le> MAXX" "length ?ps = min n MAXX" by simp_all
    have "0 < length ?ps" using False by (simp add: MAXX_def)
    then have ne: "?ps \<noteq> []" by blast
    obtain m1 b1 where put: "put_run (min n MAXX) r pack b = (m1, b1)" by force
    have "put_run (length ?ps) r pack b = (m1, b1)" using put by (simp only: ps(2))
    note P = put_run_spec [OF plan_run_restores [OF ne ps(1) plan] ne ps(1) this]
    show ?thesis
    proof (cases "b + run_xe r * run_ye r + min n MAXX * run_yn r > limit")
      case True
      then show ?thesis using L unfolding plan option.case by simp
    next
      case room: False
      have lt: "n - min n MAXX < n" using False by (simp add: MAXX_def)
      have "cmprs_loop c items (px + min n MAXX * width c) (n - min n MAXX) limit m1 b1
          = Some (st, pack', e)"
        using L unfolding plan option.case put fst_conv snd_conv by (simp only: room if_False)
      note IH = less.IH [OF lt this]
      have b1: "b < b1" "b1 \<le> limit + 32" using P(1) room by (simp_all add: algebra_simps)
      have "same_bits pack pack' b"
        using same_bits_trans [OF P(2) same_bits_less [OF _ less_imp_le [OF b1(1)]]] IH by blast
      then show ?thesis using IH b1 by (cases "b1 = e") auto
    qed
  qed
qed


section \<open>Properties\<close>

text \<open>The number of items \<open>MdsCmprs\<close> and \<open>MdsXpand\<close> work on, and their bytes.\<close>

definition item_count :: "nat \<Rightarrow> nat \<Rightarrow> nat \<Rightarrow> nat" where
  "item_count nitems dtype len = nitems * (len div step_of dtype len)"

definition item_width :: "nat \<Rightarrow> nat \<Rightarrow> nat" where
  "item_width dtype len = width (case_of dtype (step_of dtype len))"

text \<open>
  C1: What \<open>MdsCmprs\<close> compressed successfully, \<open>MdsXpand\<close> expands to the same bytes, from any
  copy of the packed bytes that is at least as long as the compressed stream, and with
  the same final cursor.
\<close>

theorem MdsXpand_MdsCmprs:
  assumes "MdsCmprs nitems dtype len items arsize pack b = Some (MDSplusSUCCESS, pack', e)"
    and "e \<le> 8 * size'" and "\<forall>a. a < size' \<longrightarrow> packed a = pack' a"
  shows "MdsXpand nitems dtype len packed size' out b =
    Some (MDSplusSUCCESS,
      (\<lambda>a. if a < item_count nitems dtype len * item_width dtype len then items a else out a), e)"
proof -
  have "j div 8 < size'" if "j < e" for j using that assms(2) by linarith
  then have "same_bits pack' (padded packed size') e"
    using assms(3) by (simp add: same_bits_def mbit_def padded_def)
  then show ?thesis
    using cmprs_loop_xpand [OF assms(1) [unfolded MdsCmprs_def Let_def]] assms(2)
    by (simp add: MdsXpand_def Let_def item_count_def item_width_def write_read_items mult.commute)
qed

lemma read_store_words: "read_items Case_LU (store_words m p ws) p (length ws) = ws"
  by (induction m p ws rule: store_words.induct) (auto simp: load32_store_words)

text \<open>Rules that evaluate a run on concrete words.\<close>

lemma empty_tally:
  "replicate 33 (0 :: int) = [0, 0, 0, 0, 0, 0, 0, 0, 0, 0, 0, 0, 0, 0, 0, 0, 0,
     0, 0, 0, 0, 0, 0, 0, 0, 0, 0, 0, 0, 0, 0, 0, 0]"
  by (simp add: numeral_eq_Suc)

lemma take_exceptions_numeral:
  "take_exceptions mark maxim (numeral k) [] = None"
  "take_exceptions mark maxim (numeral k) (d # ds) =
     (if sint d \<le> sint maxim \<and> sint d > sint mark
      then map_option (\<lambda>(exce, ds). (exce, d # ds)) (take_exceptions mark maxim (numeral k) ds)
      else map_option (\<lambda>(exce, ds). (d # exce, mark # ds))
             (take_exceptions mark maxim (pred_numeral k) ds))"
  by (simp_all add: numeral_eq_Suc)

lemmas planning = plan_run_def difference_def Let_def signif_of_def signif_def MAXY_def
  empty_tally take_exceptions_numeral

lemmas packing = put_run_def MdsPk_def Let_def sizes X_AND_Y_def MASK_def masks_def

definition example :: "u32 list" where
  "example = [0, 164, 228, 252, 256, 250, 238, 224, 207, 190]"

lemma length_example: "length example = 10"
  by (simp add: example_def)

definition view :: "nat \<Rightarrow> memory \<Rightarrow> u32 list" where
  "view n m = map (\<lambda>i. load32 m (4 * i)) [0..<n]"

lemma view_4: "view 4 m = [load32 m 0, load32 m 4, load32 m 8, load32 m 12]"
  by (simp add: view_def upt_rec)

text \<open>
  The worked example in the comment of the source: ten sines take 110 bits, in the
  four words the comment gives.
\<close>

theorem MdsCmprs_example:
  "\<exists>pack'. MdsCmprs 10 DTYPE_L 4 (store_words (\<lambda>_. 0) 0 example) 100 (\<lambda>_. 0) 0
             = Some (MDSplusSUCCESS, pack', 110)
         \<and> view 4 pack' = [0x00880246, 0x84620800, 0x4befcb4e, 0x080a]"
proof -
  have "plan_run example = Some \<lparr>run_yn = 6, run_xe = 2, run_ye = 9,
      run_diff = [0, 0xFFFFFFE0, 0xFFFFFFE0, 24, 4, -6, -12, -14, -17, -17], run_exce = [164, 64]\<rparr>"
    by (simp add: planning example_def)
  moreover have "read_items Case_LU (store_words (\<lambda>_. 0) 0 example) 0 10 = example"
    using read_store_words [of "\<lambda>_. 0" 0 example] by (simp add: length_example)
  moreover have "cmprs_loop c items px 0 limit m b = Some (MDSplusSUCCESS, m, b)"
    for c items px limit m b by (subst cmprs_loop.simps) simp
  ultimately show ?thesis
    by (simp add: MdsCmprs_def step_of_def case_of_def dtypes cmprs_limit_def cmprs_loop_step view_4 packing)
qed

theorem MdsXpand_MdsCmprs_witness:
  "\<exists>pack'. MdsXpand 10 DTYPE_L 4 pack' 14 (\<lambda>_. 0) 0 =
     Some (MDSplusSUCCESS, (\<lambda>a. if a < item_count 10 DTYPE_L 4 * item_width DTYPE_L 4
                                then store_words (\<lambda>_. 0) 0 example a else 0), 110)"
proof -
  have "plan_run example = Some \<lparr>run_yn = 6, run_xe = 2, run_ye = 9,
      run_diff = [0, 0xFFFFFFE0, 0xFFFFFFE0, 24, 4, -6, -12, -14, -17, -17], run_exce = [164, 64]\<rparr>"
    by (simp add: planning example_def)
  moreover have "read_items Case_LU (store_words (\<lambda>_. 0) 0 example) 0 10 = example"
    using read_store_words [of "\<lambda>_. 0" 0 example] by (simp add: length_example)
  moreover have "cmprs_loop c items px 0 limit m b = Some (MDSplusSUCCESS, m, b)"
    for c items px limit m b by (subst cmprs_loop.simps) simp
  ultimately obtain pack' where
    "MdsCmprs 10 DTYPE_L 4 (store_words (\<lambda>_. 0) 0 example) 100 (\<lambda>_. 0) 0
      = Some (MDSplusSUCCESS, pack', 110)"
    by (simp add: MdsCmprs_def step_of_def case_of_def dtypes cmprs_limit_def cmprs_loop_step packing)
  from MdsXpand_MdsCmprs [OF this, of 14 pack' "\<lambda>_. 0"] show ?thesis by auto
qed

text \<open>
  C19: \<open>MdsCmprs\<close> always returns, inside its tables, on items of one or two bytes, and on
  32-bit items when the first item of each run and every later difference fits 32 bits
  signed.
\<close>

theorem MdsCmprs_total:
  assumes "item_width dtype len < 4 \<or>
    (\<forall>k. k * MAXX < item_count nitems dtype len \<longrightarrow>
      steady 0 (read_items (case_of dtype (step_of dtype len)) items
        (k * MAXX * item_width dtype len) (min (item_count nitems dtype len - k * MAXX) MAXX)))"
  shows "\<exists>st pack' e. MdsCmprs nitems dtype len items arsize pack b = Some (st, pack', e)"
proof -
  let ?c = "case_of dtype (step_of dtype len)" and ?n = "item_count nitems dtype len"
  have "steady 0 (read_items ?c items (0 + k * MAXX * width ?c) (min (?n - k * MAXX) MAXX))"
    if "k * MAXX < ?n" for k
    using assms
  proof
    assume "item_width dtype len < 4"
    then show ?thesis
      using small_items by (intro small_steady) (auto simp: item_width_def)
  qed (use that in \<open>simp add: item_width_def\<close>)
  from cmprs_loop_total [OF this, of "cmprs_limit arsize" pack b]
  have "MdsCmprs nitems dtype len items arsize pack b \<noteq> None"
    unfolding MdsCmprs_def Let_def item_count_def .
  then show ?thesis by auto
qed

theorem MdsCmprs_total_witness:
  "\<exists>st pack' e. MdsCmprs 5000 DTYPE_W 2 (\<lambda>a. of_nat (a * a)) 20000 (\<lambda>_. 0) 7 = Some (st, pack', e)"
  by (rule MdsCmprs_total, rule disjI1) code_simp

definition overflowing :: "u32 list" where
  "overflowing = [1, 2, 3, 4, 0x80000000, 0x7FFFFFFF, 0x7FFFFFFE, 0x7FFFFFFD]"

lemma length_overflowing: "length overflowing = 8"
  by (simp add: overflowing_def)

text \<open>
  Without the condition it may not: a difference that overflows 32 bits but wraps into
  the normal range is counted as an exception and never found, so the exception scan leaves
  the run. Here one such difference follows a stretch of small ones.
\<close>

theorem MdsCmprs_overrun:
  "MdsCmprs 8 DTYPE_L 4 (store_words (\<lambda>_. 0) 0 overflowing) 100 (\<lambda>_. 0) 0 = None"
proof -
  have "plan_run overflowing = None"
    by (simp add: planning overflowing_def)
  moreover have "read_items Case_LU (store_words (\<lambda>_. 0) 0 overflowing) 0 8 = overflowing"
    using read_store_words [of "\<lambda>_. 0" 0 overflowing] by (simp add: length_overflowing)
  ultimately show ?thesis
    by (simp add: MdsCmprs_def step_of_def case_of_def dtypes cmprs_loop_step MAXX_def)
qed

text \<open>
  C32: The packed stream stays in the buffer: on every return, also \<open>LibSTRTRU\<close>, the cursor
  is within the buffer of more than four bytes it started in, and the bits before the
  start are kept.
\<close>

theorem MdsCmprs_bounds:
  assumes "4 < arsize" "b \<le> 8 * arsize"
    and "MdsCmprs nitems dtype len items arsize pack b = Some (st, pack', e)"
  shows "b \<le> e \<and> e \<le> 8 * arsize \<and> same_bits pack pack' b"
  using cmprs_loop_bounds [OF assms(3) [unfolded MdsCmprs_def Let_def]] assms(1,2)
  by (cases "b = e") (auto simp: cmprs_limit_def sizes)

theorem MdsCmprs_bounds_witness:
  "\<exists>st pack' e. MdsCmprs 50 DTYPE_BU 1 of_nat 5 (\<lambda>_. 0) 3 = Some (st, pack', e)
     \<and> 3 \<le> e \<and> e \<le> 8 * 5"
proof -
  have "item_width DTYPE_BU 1 < 4" by code_simp
  then have "MdsCmprs 50 DTYPE_BU 1 of_nat 5 (\<lambda>_. 0) 3 \<noteq> None"
    using small_items small_steady
    by (simp only: MdsCmprs_def Let_def) (rule cmprs_loop_total, auto simp: item_width_def)
  then obtain st pack' e where m: "MdsCmprs 50 DTYPE_BU 1 of_nat 5 (\<lambda>_. 0) 3 = Some (st, pack', e)"
    by auto
  from MdsCmprs_bounds [OF _ _ m] m show ?thesis by auto
qed

text \<open>
  C31: The width of the normal block is the cheapest one: no other width up to the exception
  width makes the run shorter.
\<close>

theorem plan_run_cheapest:
  assumes "ps \<noteq> []" "length ps \<le> MAXX" "plan_run ps = Some r"
    and "1 \<le> k" "k \<le> run_ye r"
  shows "length ps * run_yn r + run_xe r * run_ye r
         \<le> length ps * k + above (k - 1) (map snd (differences 0 ps)) * run_ye r"
proof (cases "tally_up (replicate (MAXY + 1) 0) (map snd (differences 0 ps)) ! 0 = int (length ps)")
  case True
  then have "run_ye r = 0" using assms(3) by (auto simp: plan_run_def Let_def)
  then show ?thesis using assms(4,5) by simp
next
  case False
  let ?above = "\<lambda>k. above (k - 1) (map snd (differences 0 ps))"
  obtain ye yn where plan: "plan_run ps = map_option
       (\<lambda>(exce, diff). \<lparr>run_yn = yn, run_xe = ?above yn, run_ye = ye, run_diff = diff, run_exce = exce\<rparr>)
       (take_exceptions (mark_of yn) (NOT (mark_of yn)) (?above yn) (map fst (differences 0 ps)))"
    and best: "\<And>k. 1 \<le> k \<Longrightarrow> k \<le> ye \<Longrightarrow> length ps * yn + ?above yn * ye \<le> length ps * k + ?above k * ye"
    using plan_run_widths [OF assms(1,2) False] by metis
  have "run_yn r = yn" "run_xe r = ?above yn" "run_ye r = ye"
    using assms(3) [unfolded plan map_option_eq_Some] by auto
  then show ?thesis using best assms(4,5) by simp
qed

theorem plan_run_cheapest_witness:
  "\<exists>r. plan_run example = Some r \<and> 10 * run_yn r + run_xe r * run_ye r
     \<le> 10 * 7 + above 6 (map snd (differences 0 example)) * run_ye r"
proof -
  have "plan_run example = Some \<lparr>run_yn = 6, run_xe = 2, run_ye = 9,
      run_diff = [0, 0xFFFFFFE0, 0xFFFFFFE0, 24, 4, -6, -12, -14, -17, -17], run_exce = [164, 64]\<rparr>"
    by (simp add: planning example_def)
  then show ?thesis
    using plan_run_cheapest [of example _ 7] by (simp add: example_def MAXX_def)
qed

end
