(* ===== verification/StrRoutines.thy ===== *)
theory StrRoutines
  imports Prelude
begin

text \<open>
  The string routines of \<open>mdsshr/librtl.c\<close> on descriptors, the environment routines and
  \<open>libffs\<close>. A descriptor has the characters its pointer leads to; what \<open>malloc\<close> returns is
  the parameter \<open>malloc\<close>. An access outside a buffer is \<open>None\<close>.
\<close>

section \<open>Descriptors\<close>

datatype dsc_class = CLASS_S | CLASS_D | CLASS_A | CLASS_other

text \<open>
  For \<open>CLASS_A\<close>, \<open>len\<close> is the length of one element and the characters are the \<open>arsize\<close>
  bytes of the array.
\<close>

record dsc =
  dclass :: dsc_class
  len :: nat
  chars :: string

definition arsize :: "dsc \<Rightarrow> nat" where
  "arsize d = length (chars d)"

definition valid_dsc :: "dsc \<Rightarrow> bool" where
  "valid_dsc d \<longleftrightarrow> len d < 2 ^ 16 \<and> (dclass d \<noteq> CLASS_A \<longrightarrow> length (chars d) = len d)"

definition uint16 :: "int \<Rightarrow> nat" where
  "uint16 i = nat (i mod 2 ^ 16)"

definition static_dsc :: "string \<Rightarrow> dsc" where
  "static_dsc s = \<lparr>dclass = CLASS_S, len = length s, chars = s\<rparr>"

text \<open>\<open>MdsDescrToCstring\<close>, and the C string that starts at a pointer.\<close>

definition MdsDescrToCstring :: "dsc \<Rightarrow> string" where
  "MdsDescrToCstring d = take (len d) (chars d) @ [CHR 0x00]"

definition cstring :: "string \<Rightarrow> string" where
  "cstring = takeWhile (\<lambda>c. c \<noteq> CHR 0x00)"

section \<open>Copying\<close>

definition StrGet1Dx :: "(nat \<Rightarrow> string) \<Rightarrow> nat \<Rightarrow> dsc \<Rightarrow> status \<times> dsc" where
  "StrGet1Dx malloc n out =
     (if dclass out \<noteq> CLASS_D then (LibINVSTRDES, out)
      else if len out = n then (MDSplusSUCCESS, out)
      else (MDSplusSUCCESS, out\<lparr>len := n, chars := (if n \<noteq> 0 then malloc n else [])\<rparr>))"

definition StrFree1Dx :: "dsc \<Rightarrow> status \<times> dsc" where
  "StrFree1Dx out =
     (if dclass out = CLASS_D then (MDSplusSUCCESS, out\<lparr>len := 0, chars := []\<rparr>)
      else (MDSplusSUCCESS, out))"

text \<open>The length that \<open>StrCopyDx\<close> works on is a \<open>length_t\<close>, 16 bits also for an array.\<close>

definition copy_length :: "dsc \<Rightarrow> nat" where
  "copy_length d = (if dclass d = CLASS_A then uint16 (int (arsize d)) else len d)"

definition StrCopyDx :: "(nat \<Rightarrow> string) \<Rightarrow> dsc \<Rightarrow> dsc \<Rightarrow> status \<times> dsc" where
  "StrCopyDx malloc out inp =
     (let out = (if dclass out = CLASS_D \<and> len inp \<noteq> len out
                 then snd (StrGet1Dx malloc (len inp) out) else out)
      in if len out \<noteq> 0
         then let outlength = copy_length out; inlength = copy_length inp;
                  n = (if outlength > inlength then inlength else outlength)
              in (MDSplusSUCCESS,
                  out\<lparr>chars := take n (chars inp) @ replicate (outlength - inlength) CHR '' ''
                                 @ drop outlength (chars out)\<rparr>)
         else (MDSplusSUCCESS, out))"

definition StrCopyR :: "(nat \<Rightarrow> string) \<Rightarrow> dsc \<Rightarrow> nat \<Rightarrow> string \<Rightarrow> status \<times> dsc" where
  "StrCopyR malloc out n inp =
     StrCopyDx malloc out \<lparr>dclass = CLASS_S, len = n, chars = take n inp\<rparr>"

definition StrLenExtr ::
  "(nat \<Rightarrow> string) \<Rightarrow> dsc \<Rightarrow> dsc \<Rightarrow> int \<Rightarrow> int \<Rightarrow> status \<times> dsc" where
  "StrLenExtr malloc out inp start_in len_in =
     (let n = (if len_in < 0 then 0 else uint16 len_in);
          start = (if start_in > 1 then uint16 (int (uint16 start_in) - 1) else 0);
          span = (if len inp > start then len inp - start else 0);
          tspan = (if span < n then span else n)
      in StrCopyDx malloc out
           (static_dsc (take tspan (drop start (chars inp))
                          @ (if span < n then replicate (n - span) CHR '' '' else []))))"

definition is_blank :: "char \<Rightarrow> bool" where
  "is_blank c \<longleftrightarrow> c = CHR '' '' \<or> c = CHR 0x09"

text \<open>The loop that finds the last character that is not blank.\<close>

fun trim_loop :: "string \<Rightarrow> nat \<Rightarrow> nat" where
  "trim_loop s 0 = 0"
| "trim_loop s (Suc i) = (if \<not> is_blank (s ! i) then Suc i else trim_loop s i)"

definition StrTrim :: "(nat \<Rightarrow> string) \<Rightarrow> dsc \<Rightarrow> dsc \<Rightarrow> status \<times> dsc \<times> nat" where
  "StrTrim malloc out inp =
     (let i = trim_loop (chars inp) (len inp);
          tmp = snd (StrCopyDx malloc \<lparr>dclass = CLASS_D, len = 0, chars = []\<rparr> inp);
          out = snd (StrCopyDx malloc out \<lparr>dclass = CLASS_S, len = i, chars = take i (chars tmp)\<rparr>)
      in (fst (StrFree1Dx tmp), out, i))"

definition StrRight :: "(nat \<Rightarrow> string) \<Rightarrow> dsc \<Rightarrow> dsc \<Rightarrow> nat \<Rightarrow> (status \<times> dsc) option" where
  "StrRight malloc out inp start =
     (let tmp = snd (StrCopyDx malloc \<lparr>dclass = CLASS_D, len = 0, chars = []\<rparr> inp);
          n = uint16 (int (len inp) - int start + 1)
      in if start = 0 \<or> start - 1 + n > len tmp then None
         else Some (fst (StrFree1Dx tmp),
                    snd (StrCopyDx malloc out
                           \<lparr>dclass = CLASS_S, len = n, chars = drop (start - 1) (chars tmp)\<rparr>)))"

definition toupper :: "char \<Rightarrow> char" where
  "toupper c = (if 97 \<le> (of_char c :: nat) \<and> (of_char c :: nat) \<le> 122
                then char_of (of_char c - 32 :: nat) else c)"

definition tolower :: "char \<Rightarrow> char" where
  "tolower c = (if 65 \<le> (of_char c :: nat) \<and> (of_char c :: nat) \<le> 90
                then char_of (of_char c + 32 :: nat) else c)"

definition StrUpcase :: "(nat \<Rightarrow> string) \<Rightarrow> dsc \<Rightarrow> dsc \<Rightarrow> status \<times> dsc" where
  "StrUpcase malloc out inp =
     (case StrCopyDx malloc out inp of (status, out) \<Rightarrow>
        if \<not> STATUS_OK status then (status, out)
        else let n = (if dclass out = CLASS_A then arsize out else len out)
             in (MDSplusSUCCESS,
                 out\<lparr>chars := map toupper (take n (chars out)) @ drop n (chars out)\<rparr>))"

definition StrAppend :: "dsc \<Rightarrow> dsc \<Rightarrow> status \<times> dsc" where
  "StrAppend out tail =
     (if len tail > 0
      then let n = len out + len tail
           in if n > 0xffff then (StrSTRTOOLON, out)
              else (MDSplusSUCCESS, out\<lparr>len := n, chars := chars out @ take (len tail) (chars tail)\<rparr>)
      else (MDSplusSUCCESS, out))"

section \<open>Concatenation\<close>

text \<open>The two loops of \<open>StrConcat\<close>: the sum of the lengths, and the copy up to the end \<open>e\<close>.\<close>

fun concat_length :: "nat \<Rightarrow> dsc list \<Rightarrow> nat" where
  "concat_length n [] = n"
| "concat_length n (a # args) = (if n < 0xFFFF then concat_length (n + len a) args else n)"

fun concat_copy :: "nat \<Rightarrow> string \<Rightarrow> dsc list \<Rightarrow> string" where
  "concat_copy e p [] = p"
| "concat_copy e p (a # args) =
     (if length p < e
      then concat_copy e (p @ take (e - length p) (take (len a) (chars a))) args
      else p)"

text \<open>
  For \<open>CLASS_S\<close> the blanks go to \<open>p\<close>, which points into the temporary buffer, after it has
  been copied to the descriptor.
\<close>

definition StrConcat :: "(nat \<Rightarrow> string) \<Rightarrow> dsc \<Rightarrow> dsc list \<Rightarrow> status \<times> dsc" where
  "StrConcat malloc out args =
     (case dclass out of
        CLASS_D \<Rightarrow>
          let n = concat_length 0 args
          in if n > 0xFFFF then (StrSTRTOOLON, out)
             else let p = concat_copy n [] args
                  in (MDSplusSUCCESS,
                      out\<lparr>len := n, chars := p @ drop (length p) (malloc n)\<rparr>)
      | CLASS_S \<Rightarrow>
          let p = concat_copy (len out) [] args
          in (MDSplusSUCCESS, out\<lparr>chars := p @ drop (length p) (chars out)\<rparr>)
      | _ \<Rightarrow> (LibINVSTRDES, out))"

section \<open>Searching and comparing\<close>

definition code :: "char \<Rightarrow> int" where
  "code c = int (of_char c)"

text \<open>\<open>strncmp\<close> and \<open>strncasecmp\<close> on two strings of the same length: a null ends both.\<close>

fun strncmp :: "string \<Rightarrow> string \<Rightarrow> int" where
  "strncmp (x # xs) (y # ys) =
     (if x \<noteq> y then code x - code y else if x = CHR 0x00 then 0 else strncmp xs ys)"
| "strncmp _ _ = 0"

fun strncasecmp :: "string \<Rightarrow> string \<Rightarrow> int" where
  "strncasecmp (x # xs) (y # ys) =
     (if tolower x \<noteq> tolower y then code (tolower x) - code (tolower y)
      else if x = CHR 0x00 then 0 else strncasecmp xs ys)"
| "strncasecmp _ _ = 0"

definition StrCompare :: "dsc \<Rightarrow> dsc \<Rightarrow> int" where
  "StrCompare str1 str2 =
     (let n = (if len str1 < len str2 then len str1 else len str2);
          ans = strncmp (take n (chars str1)) (take n (chars str2))
      in if ans \<noteq> 0 then ans
         else if len str1 > len str2 then code (chars str1 ! n)
         else if len str2 > len str1 then - code (chars str2 ! n)
         else 0)"

definition StrCaseBlindCompare :: "dsc \<Rightarrow> dsc \<Rightarrow> int" where
  "StrCaseBlindCompare str1 str2 =
     (let n = (if len str1 < len str2 then len str1 else len str2);
          ans = strncasecmp (take n (chars str1)) (take n (chars str2))
      in if ans \<noteq> 0 then ans
         else if len str1 > len str2 then code (chars str1 ! n)
         else if len str2 > len str1 then - code (chars str2 ! n)
         else 0)"

fun strstr :: "string \<Rightarrow> string \<Rightarrow> nat option" where
  "strstr [] sub = (if sub = [] then Some 0 else None)"
| "strstr (c # s) sub =
     (if take (length sub) (c # s) = sub then Some 0 else map_option Suc (strstr s sub))"

definition StrPosition :: "dsc \<Rightarrow> dsc \<Rightarrow> int option \<Rightarrow> nat option" where
  "StrPosition source substring start =
     (let source_c = MdsDescrToCstring source;
          at = (case start of Some i \<Rightarrow> if i > 0 then nat i - 1 else 0 | None \<Rightarrow> 0)
      in if at \<ge> length source_c then None
         else Some (case strstr (cstring (drop at source_c)) (cstring (MdsDescrToCstring substring)) of
                      Some i \<Rightarrow> at + i + 1
                    | None \<Rightarrow> 0))"

definition strspn :: "string \<Rightarrow> string \<Rightarrow> nat" where
  "strspn src s = length (takeWhile (\<lambda>c. c \<in> set s) src)"

fun strpbrk :: "string \<Rightarrow> string \<Rightarrow> nat option" where
  "strpbrk [] s = None"
| "strpbrk (c # src) s = (if c \<in> set s then Some 0 else map_option Suc (strpbrk src s))"

definition StrFindFirstNotInSet :: "dsc \<Rightarrow> dsc \<Rightarrow> nat" where
  "StrFindFirstNotInSet source st =
     (if len source > 0
      then let src = cstring (MdsDescrToCstring source); s = cstring (MdsDescrToCstring st);
               tmp = strspn src s
           in if tmp = length src then 0 else tmp + 1
      else 0)"

definition StrFindFirstInSet :: "dsc \<Rightarrow> dsc \<Rightarrow> nat" where
  "StrFindFirstInSet source st =
     (if len source > 0
      then case strpbrk (cstring (MdsDescrToCstring source)) (cstring (MdsDescrToCstring st)) of
             Some i \<Rightarrow> i + 1
           | None \<Rightarrow> 0
      else 0)"

section \<open>Elements, translation, replacement\<close>

text \<open>The first loop of \<open>StrElement\<close>: skips \<open>num\<close> delimiters.\<close>

fun skip_delims :: "char \<Rightarrow> nat \<Rightarrow> string \<Rightarrow> nat \<times> string" where
  "skip_delims d n [] = (n, [])"
| "skip_delims d 0 (c # s) = (0, c # s)"
| "skip_delims d (Suc n) (c # s) = (if c = d then skip_delims d n s else skip_delims d (Suc n) s)"

definition StrElement ::
  "(nat \<Rightarrow> string) \<Rightarrow> dsc \<Rightarrow> int \<Rightarrow> dsc \<Rightarrow> dsc \<Rightarrow> status \<times> dsc" where
  "StrElement malloc out num delim inp =
     (if len delim \<noteq> 1 then (StrINVDELIM, out)
      else case skip_delims (chars delim ! 0) (nat num) (take (len inp) (chars inp)) of
        (missing, rest) \<Rightarrow>
          if missing > 0 then (StrNOELEM, out)
          else let e = takeWhile (\<lambda>c. c \<noteq> chars delim ! 0) rest
               in StrCopyR malloc out (uint16 (int (length e))) e)"

text \<open>One character of \<open>StrTranslate\<close>: the scan of \<open>match\<close> gives \<open>next\<close> and \<open>j\<close>.\<close>

fun match_scan :: "char \<Rightarrow> string \<Rightarrow> nat \<Rightarrow> bool \<times> nat" where
  "match_scan c [] j = (True, j)"
| "match_scan c (m # ms) j = (if m = c then (False, j) else match_scan c ms (j + 1))"

definition translate_char :: "dsc \<Rightarrow> dsc \<Rightarrow> char \<Rightarrow> char" where
  "translate_char tran match c =
     (case match_scan c (take (len match) (chars match)) 0 of
        (next, j) \<Rightarrow> if next then c else if j < len tran then chars tran ! j else CHR '' '')"

text \<open>The elements of an array one after the other, each as a static string.\<close>

fun translate_elements ::
  "dsc \<Rightarrow> dsc \<Rightarrow> nat \<Rightarrow> nat \<Rightarrow> nat \<Rightarrow> string \<Rightarrow> string \<Rightarrow> string" where
  "translate_elements tran match olen ilen 0 outs ins = outs"
| "translate_elements tran match olen ilen (Suc n) outs ins =
     chars (snd (StrCopyR (\<lambda>_. []) \<lparr>dclass = CLASS_S, len = olen, chars = take olen outs\<rparr> ilen
                  (map (translate_char tran match) (take ilen ins))))
       @ translate_elements tran match olen ilen n (drop olen outs) (drop ilen ins)"

definition StrTranslate ::
  "(nat \<Rightarrow> string) \<Rightarrow> dsc \<Rightarrow> dsc \<Rightarrow> dsc \<Rightarrow> dsc \<Rightarrow> status \<times> dsc" where
  "StrTranslate malloc out inp tran match =
     (if dclass inp = CLASS_S \<or> dclass inp = CLASS_D
      then StrCopyR malloc out (len inp)
             (map (translate_char tran match) (take (len inp) (chars inp)))
      else if dclass inp = CLASS_A \<and> dclass out = CLASS_A \<and> len inp > 0 \<and> len out > 0
              \<and> arsize inp div len inp = arsize out div len out
      then (let num = arsize inp div len inp
            in (if num = 0 then Status0 else MDSplusSUCCESS,
                out\<lparr>chars := translate_elements tran match (len out) (len inp) num
                               (chars out) (chars inp)\<rparr>))
      else (Status0, out))"

definition minmax :: "int \<Rightarrow> int \<Rightarrow> int \<Rightarrow> int" where
  "minmax l x u = (if x < l then l else if x > u then u else x)"

definition StrReplace ::
  "(nat \<Rightarrow> string) \<Rightarrow> dsc \<Rightarrow> dsc \<Rightarrow> int \<Rightarrow> int \<Rightarrow> dsc \<Rightarrow> (status \<times> dsc) option" where
  "StrReplace malloc out inp start_idx end_idx rep =
     (let start = minmax 1 start_idx (int (len inp));
          fin = minmax 1 end_idx (int (len inp));
          dstlen = uint16 (start - 1 + int (len rep) + int (len inp) - fin + 1);
          dst = take (nat (start - 1)) (chars inp) @ take (len rep) (chars rep)
                  @ drop (nat fin) (take (len inp) (chars inp))
      in if length dst > dstlen then None
         else Some (StrCopyR malloc out dstlen (dst @ drop (length dst) (malloc dstlen))))"

section \<open>The environment\<close>

type_synonym environment = "string \<Rightarrow> string option"

fun contains :: "string \<Rightarrow> string \<Rightarrow> bool" where
  "contains s sub = (strstr s sub \<noteq> None)"

text \<open>\<open>setenv\<close> and \<open>unsetenv\<close> fail on an empty name.\<close>

definition MdsPutEnv :: "environment \<Rightarrow> string option \<Rightarrow> status \<times> environment" where
  "MdsPutEnv env cmd =
     (case cmd of
        None \<Rightarrow> (MDSplusERROR, env)
      | Some s \<Rightarrow>
          if contains s ''MDSPLUS_SPAWN_WRAPPER'' \<or> contains s ''MDSPLUS_LIBCALL_WRAPPER''
          then (MDSplusERROR, env)
          else let name = takeWhile (\<lambda>c. c \<noteq> CHR ''='') s;
                   rest = dropWhile (\<lambda>c. c \<noteq> CHR ''='') s
               in if name = [] then (MDSplusERROR, env)
                  else (MDSplusSUCCESS, env(name := (if rest \<noteq> [] then Some (tl rest) else None))))"

definition TranslateLogical :: "environment \<Rightarrow> string \<Rightarrow> string option" where
  "TranslateLogical env pathname = env pathname"

section \<open>Find first set\<close>

text \<open>
  The loop of \<open>libffs\<close> over the bits of the one \<open>int\<close> at \<open>base + position / 8\<close>. A shift by 32
  or more is undefined.
\<close>

function ffs_loop :: "u32 \<Rightarrow> nat \<Rightarrow> nat \<Rightarrow> nat option option" where
  "ffs_loop bits i lim =
     (if i < lim
      then if i \<ge> 32 then None
           else if bits AND push_bit i 1 \<noteq> 0 then Some (Some i)
           else ffs_loop bits (i + 1) lim
      else Some None)"
  by pat_completeness auto
termination
  by (relation "measure (\<lambda>(bits, i, lim). lim - i)") auto

declare ffs_loop.simps [simp del]

definition libffs :: "nat \<Rightarrow> nat \<Rightarrow> memory \<Rightarrow> (status \<times> nat option) option" where
  "libffs position sz base =
     (let bits = load32 base (position div 8);
          top_bit_to_check = sz + position - position div 8 * 8
      in map_option
           (\<lambda>found. case found of
               Some i \<Rightarrow> (MDSplusSUCCESS, Some (position div 8 * 8 + i))
             | None \<Rightarrow> (MDSplusERROR, None))
           (ffs_loop bits (position mod 8) top_bit_to_check))"


section \<open>Copying and concatenating\<close>

definition allocates :: "(nat \<Rightarrow> string) \<Rightarrow> bool" where
  "allocates malloc \<longleftrightarrow> (\<forall>n. length (malloc n) = n)"

definition simple_dsc :: "dsc \<Rightarrow> bool" where
  "simple_dsc d \<longleftrightarrow> valid_dsc d \<and> (dclass d = CLASS_S \<or> dclass d = CLASS_D)"

text \<open>What a descriptor holds after a text has been copied to it.\<close>

definition filled :: "dsc \<Rightarrow> string \<Rightarrow> dsc" where
  "filled out s =
     (if dclass out = CLASS_D then out\<lparr>len := length s, chars := s\<rparr>
      else out\<lparr>chars := take (len out) (s @ replicate (len out) CHR '' '')\<rparr>)"

lemma simple_dsc_length: "simple_dsc d \<Longrightarrow> length (chars d) = len d"
  by (auto simp: simple_dsc_def valid_dsc_def)

lemma simple_dsc_filled [simp]:
  "simple_dsc out \<Longrightarrow> length s < 2 ^ 16 \<Longrightarrow> simple_dsc (filled out s)"
  by (auto simp: simple_dsc_def valid_dsc_def filled_def)

lemma StrCopyDx_simple:
  assumes "allocates malloc" "simple_dsc out" "length s = n"
    and "inp = \<lparr>dclass = k, len = n, chars = s\<rparr>" "k \<noteq> CLASS_A"
  shows "StrCopyDx malloc out inp = (MDSplusSUCCESS, filled out s)"
proof (cases "dclass out = CLASS_D")
  case True
  then show ?thesis
    using assms simple_dsc_length [OF assms(2)]
    by (auto simp: StrCopyDx_def StrGet1Dx_def filled_def copy_length_def allocates_def Let_def)
next
  case False
  then have "dclass out = CLASS_S" using assms(2) by (simp add: simple_dsc_def)
  then show ?thesis
    using assms simple_dsc_length [OF assms(2)]
    by (auto simp: StrCopyDx_def filled_def copy_length_def Let_def)
qed

lemma StrCopyR_simple:
  "allocates malloc \<Longrightarrow> simple_dsc out \<Longrightarrow> length s = n \<Longrightarrow>
   StrCopyR malloc out n s = (MDSplusSUCCESS, filled out s)"
  unfolding StrCopyR_def by (rule StrCopyDx_simple) auto

lemma dsc_eta: "simple_dsc d \<Longrightarrow> d = \<lparr>dclass = dclass d, len = length (chars d), chars = chars d\<rparr>"
  using simple_dsc_length [of d] by (cases d) auto

text \<open>
  \<open>StrCopyDx\<close> to a dynamic descriptor makes it exactly the source text, whatever was
  allocated; to a static one it fills the fixed length, cut or padded with blanks. The
  result is again a valid descriptor.
\<close>

theorem StrCopyDx_copies:
  assumes "allocates malloc" "simple_dsc out" "simple_dsc inp"
  shows "StrCopyDx malloc out inp = (MDSplusSUCCESS, filled out (chars inp))
    \<and> simple_dsc (filled out (chars inp))"
proof -
  have "dclass inp \<noteq> CLASS_A" "length (chars inp) < 2 ^ 16"
    using assms(3) by (auto simp: simple_dsc_def valid_dsc_def)
  then show ?thesis
    using StrCopyDx_simple [OF assms(1,2) refl dsc_eta [OF assms(3)]] assms(2) by simp
qed

definition zeroed :: "nat \<Rightarrow> string" where
  "zeroed n = replicate n CHR 0x00"

lemma allocates_zeroed [simp]: "allocates zeroed"
  by (simp add: allocates_def zeroed_def)

theorem StrCopyDx_copies_witness:
  "StrCopyDx zeroed \<lparr>dclass = CLASS_S, len = 5, chars = ''-----''\<rparr> (static_dsc ''abc'')
   = (MDSplusSUCCESS, \<lparr>dclass = CLASS_S, len = 5, chars = ''abc  ''\<rparr>)"
  using StrCopyDx_copies [of zeroed "\<lparr>dclass = CLASS_S, len = 5, chars = ''-----''\<rparr>" "static_dsc ''abc''"]
  by (simp add: simple_dsc_def valid_dsc_def static_dsc_def filled_def replicate_numeral)

lemma concat_copy_eq:
  "length p \<le> e \<Longrightarrow> \<forall>a \<in> set args. length (chars a) = len a \<Longrightarrow>
   concat_copy e p args = take e (p @ concat (map chars args))"
proof (induction e p args rule: concat_copy.induct)
  case (2 e p a args)
  show ?case
  proof (cases "length p < e")
    case True
    let ?q = "p @ take (e - length p) (take (len a) (chars a))"
    have "concat_copy e p (a # args) = take e (?q @ concat (map chars args))"
      using 2 True by simp
    also have "\<dots> = take e (p @ concat (map chars (a # args)))"
      using True "2.prems" by (simp add: min_def)
    finally show ?thesis .
  next
    case False
    then show ?thesis using 2 by simp
  qed
qed simp

lemma concat_length_eq:
  "n + sum_list (map len args) \<le> 0xFFFF \<Longrightarrow> concat_length n args = n + sum_list (map len args)"
proof (induction n args rule: concat_length.induct)
  case (2 n a args)
  show ?case
  proof (cases "n < 0xFFFF")
    case False
    have "n + (len a + sum_list (map len args)) \<le> 0xFFFF" using "2.prems" by simp
    then have "len a + sum_list (map len args) = 0" "n = 0xFFFF" using False by linarith+
    then show ?thesis by simp
  qed (use 2 in simp)
qed simp

text \<open>
  \<open>StrConcat\<close> to a dynamic descriptor is the concatenation, when it fits 65535
  characters.
\<close>

theorem StrConcat_dynamic:
  assumes "allocates malloc" "dclass out = CLASS_D" "\<forall>a \<in> set args. simple_dsc a"
    and "sum_list (map len args) \<le> 0xFFFF"
  shows "StrConcat malloc out args = (MDSplusSUCCESS, filled out (concat (map chars args)))"
proof -
  have a: "\<forall>a \<in> set args. length (chars a) = len a" using assms(3) simple_dsc_length by blast
  then have n: "sum_list (map len args) = length (concat (map chars args))"
    by (induction args) auto
  show ?thesis
    using assms concat_length_eq [of 0 args] concat_copy_eq [of "[]" "sum_list (map len args)" args] a n
    by (simp add: StrConcat_def filled_def Let_def allocates_def)
qed

theorem StrConcat_dynamic_witness:
  "StrConcat zeroed \<lparr>dclass = CLASS_D, len = 0, chars = []\<rparr> [static_dsc ''ab'', static_dsc ''c'']
   = (MDSplusSUCCESS, \<lparr>dclass = CLASS_D, len = 3, chars = ''abc''\<rparr>)"
  using StrConcat_dynamic [of zeroed "\<lparr>dclass = CLASS_D, len = 0, chars = []\<rparr>"
      "[static_dsc ''ab'', static_dsc ''c'']"]
  by (simp add: simple_dsc_def valid_dsc_def static_dsc_def filled_def)

text \<open>
  To a static descriptor it does not pad: the characters beyond the concatenation keep
  what the descriptor held, because the blanks are written to the temporary buffer after the
  copy. \<open>StrCopyDx\<close> of the same text pads.
\<close>

theorem StrConcat_static_stale:
  assumes "simple_dsc out" "dclass out = CLASS_S" "\<forall>a \<in> set args. simple_dsc a"
    and "s = concat (map chars args)" "length s \<le> len out"
  shows "StrConcat malloc out args
         = (MDSplusSUCCESS, out\<lparr>chars := s @ drop (length s) (chars out)\<rparr>)"
proof -
  have a: "\<forall>a \<in> set args. length (chars a) = len a" using assms(3) simple_dsc_length by blast
  have "concat_copy (len out) [] args = s"
    using concat_copy_eq [of "[]" "len out" args] a assms(4,5) by simp
  then show ?thesis using assms(2) by (simp add: StrConcat_def Let_def)
qed

theorem StrConcat_static_stale_witness:
  "StrConcat zeroed \<lparr>dclass = CLASS_S, len = 5, chars = ''-----''\<rparr> [static_dsc ''ab'', static_dsc ''c'']
   = (MDSplusSUCCESS, \<lparr>dclass = CLASS_S, len = 5, chars = ''abc--''\<rparr>)"
  using StrConcat_static_stale [of "\<lparr>dclass = CLASS_S, len = 5, chars = ''-----''\<rparr>"
      "[static_dsc ''ab'', static_dsc ''c'']" "''abc''" zeroed]
  by (simp add: simple_dsc_def valid_dsc_def static_dsc_def)

section \<open>Elements and replacement\<close>

text \<open>The elements of a text between the delimiters.\<close>

fun elements :: "char \<Rightarrow> string \<Rightarrow> string list" where
  "elements d [] = [[]]"
| "elements d (c # s) =
     (if c = d then [] # elements d s
      else case elements d s of [] \<Rightarrow> [[c]] | e # es \<Rightarrow> (c # e) # es)"

lemma elements_hd: "elements d s = takeWhile (\<lambda>c. c \<noteq> d) s # tl (elements d s)"
proof (induction d s rule: elements.induct)
  case (2 d c s)
  then show ?case by (cases "elements d s") auto
qed simp

lemma skip_delims_elements:
  "skip_delims d n s = (k, rest) \<Longrightarrow>
   (k = 0 \<longleftrightarrow> n < length (elements d s)) \<and>
   (k = 0 \<longrightarrow> takeWhile (\<lambda>c. c \<noteq> d) rest = elements d s ! n)"
proof (induction d n s arbitrary: k rest rule: skip_delims.induct)
  case (1 d n)
  then show ?case by auto
next
  case (2 d c s)
  then show ?case using elements_hd [of d "c # s"] by (metis length_greater_0_conv list.distinct(1) nth_Cons_0 prod.inject skip_delims.simps(2))
next
  case (3 d n c s)
  show ?case
  proof (cases "c = d")
    case True
    then show ?thesis using 3 by simp
  next
    case False
    obtain e es where es: "elements d s = e # es" by (metis elements_hd)
    then have "elements d (c # s) = (c # e) # es" using False by simp
    then show ?thesis using 3(2) [OF False] 3(3) False es by simp
  qed
qed

lemma length_elements: "e \<in> set (elements d s) \<Longrightarrow> length e \<le> length s"
proof (induction d s arbitrary: e rule: elements.induct)
  case (2 d c s)
  obtain f fs where "elements d s = f # fs" by (metis elements_hd)
  then show ?case using 2 by (fastforce split: if_splits)
qed simp

lemma uint16_id: "n < 2 ^ 16 \<Longrightarrow> uint16 (int n) = n"
  by (simp add: uint16_def)

text \<open>
  C39: \<open>StrElement\<close> gives the element of the given number, counted from 0, of the source split
  at the delimiter, and \<open>StrNOELEM\<close> when there are not that many.
\<close>

theorem StrElement_elements:
  assumes "allocates malloc" "simple_dsc out" "simple_dsc inp" "simple_dsc delim" "chars delim = [d]"
  shows "StrElement malloc out num delim inp =
    (if nat num < length (elements d (chars inp))
     then (MDSplusSUCCESS, filled out (elements d (chars inp) ! nat num))
     else (StrNOELEM, out))"
proof -
  have d: "len delim = 1" "chars delim ! 0 = d"
    using simple_dsc_length [OF assms(4)] assms(5) by simp_all
  have inp: "take (len inp) (chars inp) = chars inp" "length (chars inp) < 2 ^ 16"
    using simple_dsc_length [OF assms(3)] assms(3) by (auto simp: simple_dsc_def valid_dsc_def)
  obtain k rest where skip: "skip_delims d (nat num) (chars inp) = (k, rest)" by force
  note E = skip_delims_elements [OF skip]
  show ?thesis
  proof (cases "k = 0")
    case True
    let ?e = "elements d (chars inp) ! nat num"
    have "length ?e < 2 ^ 16"
      using length_elements [of ?e d "chars inp"] E True inp(2) by (simp add: nth_mem)
    then show ?thesis
      using E True skip d inp StrCopyR_simple [OF assms(1,2), of ?e "length ?e"]
      by (simp add: StrElement_def uint16_id)
  next
    case False
    then show ?thesis using E skip d inp by (simp add: StrElement_def)
  qed
qed

theorem StrElement_elements_witness:
  "StrElement zeroed \<lparr>dclass = CLASS_D, len = 0, chars = []\<rparr> 1 (static_dsc '','') (static_dsc ''ab,,c'')
     = (MDSplusSUCCESS, \<lparr>dclass = CLASS_D, len = 0, chars = []\<rparr>)
   \<and> StrElement zeroed \<lparr>dclass = CLASS_D, len = 0, chars = []\<rparr> 3 (static_dsc '','') (static_dsc ''ab,,c'')
     = (StrNOELEM, \<lparr>dclass = CLASS_D, len = 0, chars = []\<rparr>)"
  using StrElement_elements [of zeroed "\<lparr>dclass = CLASS_D, len = 0, chars = []\<rparr>"
      "static_dsc ''ab,,c''" "static_dsc '',''" "CHR '',''"]
  by (simp add: simple_dsc_def valid_dsc_def static_dsc_def filled_def)

text \<open>
  C40: \<open>StrReplace\<close> on a source that is not empty puts the replacement in the place of the
  characters \<open>start .. end\<close>, both clamped to the source, and then one more character that
  was never written: the computed length is one too large.
\<close>

theorem StrReplace_replaces:
  assumes "allocates malloc" "simple_dsc out" "simple_dsc inp" "simple_dsc rep" "len inp \<noteq> 0"
    and "a = nat (minmax 1 start (int (len inp)))" "z = nat (minmax 1 fin (int (len inp)))"
    and "s = take (a - 1) (chars inp) @ chars rep @ drop z (chars inp)"
    and "length s < 2 ^ 16 - 1"
  shows "StrReplace malloc out inp start fin rep =
    Some (MDSplusSUCCESS, filled out (s @ [malloc (length s + 1) ! length s]))"
proof -
  have r: "1 \<le> a" "a \<le> len inp" "1 \<le> z" "z \<le> len inp"
    and m: "minmax 1 start (int (len inp)) = int a" "minmax 1 fin (int (len inp)) = int z"
    using assms(5-7) by (auto simp: minmax_def)
  note L = simple_dsc_length [OF assms(3)] simple_dsc_length [OF assms(4)]
  have "length s + 1 = a - 1 + len rep + (len inp - z) + 1"
    using r L assms(8) by simp
  then have "int a - 1 + int (len rep) + int (len inp) - int z + 1 = int (length s + 1)"
    using r by linarith
  then have dstlen: "uint16 (int a - 1 + int (len rep) + int (len inp) - int z + 1) = length s + 1"
    using assms(9) by (simp only: uint16_id)
  have dst: "take (nat (int a - 1)) (chars inp) @ take (len rep) (chars rep)
      @ drop (nat (int z)) (take (len inp) (chars inp)) = s"
    using L r assms(8) by (simp add: nat_diff_distrib)
  have junk: "drop (length s) (malloc (length s + 1)) = [malloc (length s + 1) ! length s]"
    using assms(1) by (simp add: allocates_def flip: Cons_nth_drop_Suc)
  show ?thesis
    unfolding StrReplace_def m Let_def dst dstlen junk
    using StrCopyR_simple [OF assms(1,2), of "s @ [malloc (length s + 1) ! length s]" "length s + 1"] by simp
qed

theorem StrReplace_replaces_witness:
  "StrReplace zeroed \<lparr>dclass = CLASS_D, len = 0, chars = []\<rparr> (static_dsc ''abcd'') 2 3 (static_dsc ''xyz'')
   = Some (MDSplusSUCCESS, \<lparr>dclass = CLASS_D, len = 6, chars = ''axyzd'' @ [CHR 0x00]\<rparr>)"
proof -
  let ?out = "\<lparr>dclass = CLASS_D, len = 0, chars = []\<rparr>"
  have simple: "simple_dsc ?out" "simple_dsc (static_dsc ''abcd'')" "simple_dsc (static_dsc ''xyz'')"
    by (simp_all add: simple_dsc_def valid_dsc_def static_dsc_def)
  have len: "len (static_dsc ''abcd'') = 4" by (simp add: static_dsc_def)
  have "(2 :: nat) = nat (minmax 1 2 (int (len (static_dsc ''abcd''))))"
    "(3 :: nat) = nat (minmax 1 3 (int (len (static_dsc ''abcd''))))"
    by (simp_all add: len minmax_def)
  note R = StrReplace_replaces [OF allocates_zeroed simple _ this refl]
  show ?thesis using R by (simp add: static_dsc_def filled_def zeroed_def replicate_numeral)
qed


section \<open>The order of texts\<close>

text \<open>What \<open>StrCompare\<close> computes on texts without null characters.\<close>

fun text_compare :: "string \<Rightarrow> string \<Rightarrow> int" where
  "text_compare [] [] = 0"
| "text_compare [] (y # ys) = - code y"
| "text_compare (x # xs) [] = code x"
| "text_compare (x # xs) (y # ys) = (if x \<noteq> y then code x - code y else text_compare xs ys)"

definition text_dsc :: "dsc \<Rightarrow> bool" where
  "text_dsc d \<longleftrightarrow> simple_dsc d \<and> CHR 0x00 \<notin> set (chars d)"

lemma code_inject [simp]: "code x = code y \<longleftrightarrow> x = y"
  by (simp add: code_def)

lemma code_0 [simp]: "code x = 0 \<longleftrightarrow> x = CHR 0x00"
  using code_inject [of x "CHR 0x00"] by (simp add: code_def)

lemma code_pos: "x \<noteq> CHR 0x00 \<Longrightarrow> 0 < code x"
proof -
  assume "x \<noteq> CHR 0x00"
  then have "code x \<noteq> 0" by simp
  moreover have "0 \<le> code x" by (simp add: code_def)
  ultimately show ?thesis by linarith
qed

lemma compare_take:
  "CHR 0x00 \<notin> set xs \<Longrightarrow>
   (let n = min (length xs) (length ys); ans = strncmp (take n xs) (take n ys)
    in if ans \<noteq> 0 then ans else if length xs > length ys then code (xs ! n)
       else if length ys > length xs then - code (ys ! n) else 0) = text_compare xs ys"
  by (induction xs ys rule: text_compare.induct) (auto simp: Let_def)

lemma StrCompare_text:
  "text_dsc a \<Longrightarrow> text_dsc b \<Longrightarrow> StrCompare a b = text_compare (chars a) (chars b)"
proof -
  assume t: "text_dsc a" "text_dsc b"
  then have "length (chars a) = len a" "length (chars b) = len b"
    by (simp_all add: text_dsc_def simple_dsc_length)
  moreover have nul: "CHR 0x00 \<notin> set (chars a)" using t by (simp add: text_dsc_def)
  moreover have "(if len a < len b then len a else len b) = min (len a) (len b)" by simp
  ultimately show ?thesis
    using compare_take [of "chars a" "chars b"] nul
    unfolding StrCompare_def by (simp only:)
qed

lemma text_compare_0: "CHR 0x00 \<notin> set (xs @ ys) \<Longrightarrow> text_compare xs ys = 0 \<longleftrightarrow> xs = ys"
  by (induction xs ys rule: text_compare.induct) (auto dest: code_pos)

lemma text_compare_swap: "text_compare ys xs = - text_compare xs ys"
  by (induction xs ys rule: text_compare.induct) auto

lemma text_compare_trans:
  "CHR 0x00 \<notin> set (xs @ ys @ zs) \<Longrightarrow> text_compare xs ys < 0 \<Longrightarrow> text_compare ys zs < 0 \<Longrightarrow>
   text_compare xs zs < 0"
proof (induction xs ys arbitrary: zs rule: text_compare.induct)
  case (2 y ys)
  then show ?case using code_pos by (cases zs) (auto split: if_splits)
next
  case (3 x xs)
  then show ?case using code_pos [of x] by auto
next
  case (4 x xs y ys)
  then show ?case by (cases zs) (auto dest: code_pos split: if_splits)
qed auto

text \<open>
  On texts without null characters \<open>StrCompare\<close> is a strict total order: 0 exactly for
  equal texts, antisymmetric and transitive.
\<close>

theorem StrCompare_order:
  assumes "text_dsc a" "text_dsc b" "text_dsc c"
  shows "(StrCompare a b = 0 \<longleftrightarrow> chars a = chars b)
    \<and> StrCompare b a = - StrCompare a b
    \<and> (StrCompare a b < 0 \<and> StrCompare b c < 0 \<longrightarrow> StrCompare a c < 0)"
  using assms text_compare_0 [of "chars a" "chars b"] text_compare_swap [of "chars b" "chars a"]
    text_compare_trans [of "chars a" "chars b" "chars c"]
  by (auto simp: StrCompare_text) (auto simp: text_dsc_def)

theorem StrCompare_order_witness:
  "StrCompare (static_dsc ''ab'') (static_dsc ''b'') < 0
   \<and> StrCompare (static_dsc ''ab'') (static_dsc ''c'') < 0"
proof -
  have t: "text_dsc (static_dsc ''ab'')" "text_dsc (static_dsc ''b'')" "text_dsc (static_dsc ''c'')"
    by (simp_all add: text_dsc_def simple_dsc_def valid_dsc_def static_dsc_def)
  have "StrCompare (static_dsc ''ab'') (static_dsc ''b'') < 0" "StrCompare (static_dsc ''b'') (static_dsc ''c'') < 0"
    by code_simp+
  then show ?thesis using StrCompare_order [OF t] by simp
qed

section \<open>Bits and the environment\<close>

lemma and_bit_nonzero [simp]: "w AND 2 ^ i = 0 \<longleftrightarrow> \<not> bit w i" for w :: u32
  by (simp add: and_exp_eq_0_iff_not_bit)

lemma ffs_loop_least:
  "i \<le> lim \<Longrightarrow> lim \<le> 32 \<Longrightarrow>
   \<exists>r. ffs_loop w i lim = Some r
     \<and> (case r of Some k \<Rightarrow> i \<le> k \<and> k < lim \<and> bit w k \<and> (\<forall>j. i \<le> j \<and> j < k \<longrightarrow> \<not> bit w j)
         | None \<Rightarrow> \<forall>j. i \<le> j \<and> j < lim \<longrightarrow> \<not> bit w j)"
proof (induction w i lim rule: ffs_loop.induct)
  case (1 w i lim)
  show ?case
  proof (cases "i < lim \<and> \<not> bit w i")
    case True
    then have "ffs_loop w i lim = ffs_loop w (i + 1) lim"
      using 1 by (subst ffs_loop.simps) (simp add: and_bit_nonzero)
    then obtain r where r: "ffs_loop w i lim = Some r"
      "case r of Some k \<Rightarrow> i + 1 \<le> k \<and> k < lim \<and> bit w k \<and> (\<forall>j. i + 1 \<le> j \<and> j < k \<longrightarrow> \<not> bit w j)
         | None \<Rightarrow> \<forall>j. i + 1 \<le> j \<and> j < lim \<longrightarrow> \<not> bit w j"
      using 1 True by (auto simp: and_bit_nonzero)
    have "i \<le> j \<longleftrightarrow> j = i \<or> i + 1 \<le> j" for j by auto
    then show ?thesis using r True by (auto split: option.splits)
  next
    case False
    then show ?thesis using 1 by (subst ffs_loop.simps) (auto simp: and_bit_nonzero)
  qed
qed

text \<open>
  \<open>libffs\<close> finds the first set bit of the field of \<open>sz\<close> bits at bit \<open>position\<close>, and fails
  when there is none, as long as the field ends within the 32-bit word at the byte of
  \<open>position\<close>.
\<close>

theorem libffs_first:
  assumes "position mod 8 + sz \<le> 32"
  shows "\<exists>st r. libffs position sz base = Some (st, r) \<and>
    (case r of
       Some k \<Rightarrow> st = MDSplusSUCCESS \<and> position \<le> k \<and> k < position + sz \<and> mbit base k
                 \<and> (\<forall>j. position \<le> j \<and> j < k \<longrightarrow> \<not> mbit base j)
     | None \<Rightarrow> st = MDSplusERROR \<and> (\<forall>j. position \<le> j \<and> j < position + sz \<longrightarrow> \<not> mbit base j))"
proof -
  let ?w = "load32 base (position div 8)" and ?o = "8 * (position div 8)"
  have lim: "sz + position - position div 8 * 8 = position mod 8 + sz"
    by (simp add: minus_div_mult_eq_mod [symmetric])
  have bits: "bit ?w k = mbit base (?o + k)" if "k < 32" for k
    using that by (simp add: bit_load32 del: mbit_add)
  have pos: "position = ?o + position mod 8" by simp
  obtain r where r: "ffs_loop ?w (position mod 8) (position mod 8 + sz) = Some r"
    "case r of Some k \<Rightarrow> position mod 8 \<le> k \<and> k < position mod 8 + sz \<and> bit ?w k
         \<and> (\<forall>j. position mod 8 \<le> j \<and> j < k \<longrightarrow> \<not> bit ?w j)
       | None \<Rightarrow> \<forall>j. position mod 8 \<le> j \<and> j < position mod 8 + sz \<longrightarrow> \<not> bit ?w j"
    using ffs_loop_least [of "position mod 8" "position mod 8 + sz" ?w] assms by auto
  have shift: "\<not> mbit base j" if "position \<le> j" "j < ?o + m" "m \<le> 32"
    "\<forall>j. position mod 8 \<le> j \<and> j < m \<longrightarrow> \<not> bit ?w j" for j m
  proof -
    have "position mod 8 \<le> j - ?o" "j - ?o < m" "?o + (j - ?o) = j" using that pos by linarith+
    then show ?thesis using that(3,4) bits [of "j - ?o"] by (simp del: mbit_add)
  qed
  show ?thesis
  proof (cases r)
    case None
    then have "\<forall>j. position \<le> j \<and> j < position + sz \<longrightarrow> \<not> mbit base j"
      using r(2) shift [of _ "position mod 8 + sz"] assms pos by auto
    then show ?thesis using None r(1) lim by (simp add: libffs_def Let_def)
  next
    case (Some k)
    then have k: "position mod 8 \<le> k" "k < position mod 8 + sz" "bit ?w k"
      and least: "\<forall>j. position mod 8 \<le> j \<and> j < k \<longrightarrow> \<not> bit ?w j"
      using r(2) by auto
    have "position \<le> ?o + k" "?o + k < position + sz" using k pos by linarith+
    moreover have "mbit base (?o + k)" using bits [of k] k assms by (simp del: mbit_add)
    moreover have "\<forall>j. position \<le> j \<and> j < ?o + k \<longrightarrow> \<not> mbit base j"
      using shift [of _ k] least k assms by auto
    ultimately show ?thesis
      using Some r(1) lim by (simp add: libffs_def Let_def mult.commute [of 8] del: mbit_add)
  qed
qed

theorem libffs_first_witness:
  "\<exists>st r. libffs 13 12 (\<lambda>a. if a = 2 then 0x18 else 0) = Some (st, r)
     \<and> (case r of Some k \<Rightarrow> st = MDSplusSUCCESS \<and> 13 \<le> k \<and> k < 25 | None \<Rightarrow> st = MDSplusERROR)"
  using libffs_first [of 13 12 "\<lambda>a. if a = 2 then 0x18 else 0"]
  by (fastforce split: option.splits)

lemma cut_at:
  "d \<notin> set name \<Longrightarrow> takeWhile (\<lambda>c. c \<noteq> d) name = name \<and> dropWhile (\<lambda>c. c \<noteq> d) name = []
     \<and> takeWhile (\<lambda>c. c \<noteq> d) (name @ d # v) = name \<and> dropWhile (\<lambda>c. c \<noteq> d) (name @ d # v) = d # v"
  by (induction name) auto

text \<open>
  \<open>MdsPutEnv\<close> with \<open>name=value\<close> makes \<open>TranslateLogical\<close> find the value, with \<open>name\<close> alone
  makes it find none, changes no other name, and refuses the two wrapper variables.
\<close>

theorem MdsPutEnv_TranslateLogical:
  assumes "name \<noteq> []" "CHR ''='' \<notin> set name"
    and "\<not> contains s ''MDSPLUS_SPAWN_WRAPPER''" "\<not> contains s ''MDSPLUS_LIBCALL_WRAPPER''"
    and "s = name \<and> v = None \<or> s = name @ ''='' @ value \<and> v = Some value"
    and "MdsPutEnv env (Some s) = (st, env')"
  shows "st = MDSplusSUCCESS \<and> TranslateLogical env' name = v
    \<and> (\<forall>other. other \<noteq> name \<longrightarrow> TranslateLogical env' other = TranslateLogical env other)"
proof -
  have "takeWhile (\<lambda>c. c \<noteq> CHR ''='') s = name
      \<and> dropWhile (\<lambda>c. c \<noteq> CHR ''='') s = (case v of None \<Rightarrow> [] | Some x \<Rightarrow> CHR ''='' # x)"
    using assms(5) by (elim disjE conjE) (simp_all add: cut_at [OF assms(2)])
  moreover have "(case v of None \<Rightarrow> [] | Some x \<Rightarrow> CHR ''='' # x) = []
      \<longleftrightarrow> v = None" by (cases v) simp_all
  moreover have "tl (case v of None \<Rightarrow> [] | Some x \<Rightarrow> CHR ''='' # x) = the v" if "v \<noteq> None"
    using that by (cases v) simp_all
  ultimately have "MdsPutEnv env (Some s) = (MDSplusSUCCESS, env(name := v))"
    using assms(1,3,4) by (cases v) (simp_all add: MdsPutEnv_def Let_def del: contains.simps)
  then show ?thesis using assms(6) by (simp add: TranslateLogical_def)
qed

theorem MdsPutEnv_TranslateLogical_witness:
  "TranslateLogical (snd (MdsPutEnv (\<lambda>_. None) (Some ''tree_path=/data''))) ''tree_path'' = Some ''/data''"
proof -
  obtain st env' where e: "MdsPutEnv (\<lambda>_. None) (Some ''tree_path=/data'') = (st, env')" by force
  have 1: "\<not> contains ''tree_path=/data'' ''MDSPLUS_SPAWN_WRAPPER''" by simp
  have 2: "\<not> contains ''tree_path=/data'' ''MDSPLUS_LIBCALL_WRAPPER''" by simp
  have 3: "''tree_path'' \<noteq> []" by simp
  have 4: "CHR ''='' \<notin> set ''tree_path''" by simp
  have 5: "''tree_path=/data'' = ''tree_path'' \<and> Some ''/data'' = None
     \<or> ''tree_path=/data'' = ''tree_path'' @ ''='' @ ''/data'' \<and> Some ''/data'' = Some ''/data''" by simp
  show ?thesis
    unfolding e snd_conv by (rule MdsPutEnv_TranslateLogical [OF 3 4 1 2 5 e, THEN conjunct2, THEN conjunct1])
qed
end
