(* ===== verification/BBTree.thy ===== *)
theory BBTree
  imports StrRoutines
begin

text \<open>
  The binary trees of \<open>mdsshr/librtl.c\<close>: \<open>LibInsertTree\<close>, \<open>LibLookupTree\<close> and
  \<open>LibTraverseTree\<close>. The tree is a value: a node that the caller allocates has a left and a
  right link and a balance. The code decides whether a subtree has grown by the status its
  recursive call returns, \<open>MDSplusERROR\<close> for grown, and tests it against 0.
\<close>

section \<open>The code\<close>

datatype 'n bbtree = Null | Node (left: "'n bbtree") (data: 'n) (bal: int) (right: "'n bbtree")

text \<open>The codes of the two statuses, built from \<open>mdsshr_messages.xml\<close>.\<close>

definition MDSplusSUCCESS_code :: int where
  "MDSplusSUCCESS_code = 1 * 2 ^ 16 + 1 * 2 ^ 3 + 1"

definition MDSplusERROR_code :: int where
  "MDSplusERROR_code = 1 * 2 ^ 16 + 2 * 2 ^ 3 + 2"

text \<open>The part of \<open>struct bbtree_info\<close> that a call changes.\<close>

record 'n bbtree_info =
  currentnode :: "'n bbtree"
  new_node :: "'n option"
  foundintree :: nat

text \<open>The rotations, \<open>None\<close> when they would follow a null link.\<close>

definition rotate_left_side :: "'n bbtree \<Rightarrow> 'n bbtree option" where
  "rotate_left_side t =
     (case t of
        Node (Node ll dl bl rl) d b r \<Rightarrow>
          if bl < 0 then Some (Node ll dl 0 (Node rl d 0 r))
          else (case rl of
                  Node rll drl brl rlr \<Rightarrow>
                    Some (Node (Node ll dl (if brl > 0 then -1 else 0) rll) drl 0
                               (Node rlr d (if brl < 0 then 1 else 0) r))
                | Null \<Rightarrow> None)
      | _ \<Rightarrow> None)"

definition rotate_right_side :: "'n bbtree \<Rightarrow> 'n bbtree option" where
  "rotate_right_side t =
     (case t of
        Node l d b (Node lr dr br rr) \<Rightarrow>
          if br > 0 then Some (Node (Node l d 0 lr) dr 0 rr)
          else (case lr of
                  Node lrl dlr blr lrr \<Rightarrow>
                    Some (Node (Node l d (if blr > 0 then -1 else 0) lrl) dlr 0
                               (Node lrr dr (if blr < 0 then 1 else 0) rr))
                | Null \<Rightarrow> None)
      | _ \<Rightarrow> None)"

text \<open>
  What a level does with the tree and the status of the level below: \<open>err\<close> is the value of
  \<open>MDSplusERROR\<close>.
\<close>

definition after_left ::
  "int \<Rightarrow> int \<Rightarrow> 'n \<Rightarrow> int \<Rightarrow> 'n bbtree \<Rightarrow> 'n bbtree_info \<Rightarrow> (int \<times> 'n bbtree_info) option" where
  "after_left err in_balance d b r info =
     (let l = currentnode info
      in if in_balance \<noteq> 0 then Some (MDSplusSUCCESS_code, info\<lparr>currentnode := Node l d b r\<rparr>)
         else let b = b - 1
              in if b = 0 then Some (MDSplusSUCCESS_code, info\<lparr>currentnode := Node l d b r\<rparr>)
                 else if odd b then Some (err, info\<lparr>currentnode := Node l d b r\<rparr>)
                 else map_option (\<lambda>t. (MDSplusSUCCESS_code, info\<lparr>currentnode := t\<rparr>))
                        (rotate_left_side (Node l d b r)))"

definition after_right ::
  "int \<Rightarrow> int \<Rightarrow> 'n bbtree \<Rightarrow> 'n \<Rightarrow> int \<Rightarrow> 'n bbtree_info \<Rightarrow> (int \<times> 'n bbtree_info) option" where
  "after_right err in_balance l d b info =
     (let r = currentnode info
      in if in_balance \<noteq> 0 then Some (MDSplusSUCCESS_code, info\<lparr>currentnode := Node l d b r\<rparr>)
         else let b = b + 1
              in if b = 0 then Some (MDSplusSUCCESS_code, info\<lparr>currentnode := Node l d b r\<rparr>)
                 else if odd b then Some (err, info\<lparr>currentnode := Node l d b r\<rparr>)
                 else map_option (\<lambda>t. (MDSplusSUCCESS_code, info\<lparr>currentnode := t\<rparr>))
                        (rotate_right_side (Node l d b r)))"

fun insert_tree ::
  "int \<Rightarrow> ('k \<Rightarrow> 'n \<Rightarrow> int) \<Rightarrow> ('k \<Rightarrow> 'n option) \<Rightarrow> nat \<Rightarrow> 'k \<Rightarrow> 'n bbtree
   \<Rightarrow> (int \<times> 'n bbtree_info) option"
where
  "insert_tree err compare_routine alloc_routine controlflags key Null =
     (case alloc_routine key of
        None \<Rightarrow> Some (err, \<lparr>currentnode = Null, new_node = None, foundintree = 0\<rparr>)
      | Some n \<Rightarrow> Some (err, \<lparr>currentnode = Node Null n 0 Null, new_node = Some n, foundintree = 1\<rparr>))"
| "insert_tree err compare_routine alloc_routine controlflags key (Node l d b r) =
     (let in_balance = compare_routine key d
      in if in_balance \<le> 0
         then if in_balance = 0 \<and> even controlflags
              then Some (MDSplusSUCCESS_code,
                         \<lparr>currentnode = Node l d b r, new_node = Some d, foundintree = 3\<rparr>)
              else (case insert_tree err compare_routine alloc_routine controlflags key l of
                      None \<Rightarrow> None
                    | Some (in_balance, info) \<Rightarrow>
                        if foundintree info = 3 \<or> foundintree info = 0
                        then Some (MDSplusSUCCESS_code, info)
                        else after_left err in_balance d b r info)
         else (case insert_tree err compare_routine alloc_routine controlflags key r of
                 None \<Rightarrow> None
               | Some (in_balance, info) \<Rightarrow>
                   if foundintree info = 3 \<or> foundintree info = 0
                   then Some (MDSplusSUCCESS_code, info)
                   else after_right err in_balance l d b info))"

definition MdsInsertTree ::
  "('k \<Rightarrow> 'n \<Rightarrow> int) \<Rightarrow> ('k \<Rightarrow> 'n option) \<Rightarrow> nat \<Rightarrow> 'k \<Rightarrow> 'n bbtree
   \<Rightarrow> (int \<times> 'n bbtree_info) option"
where
  "MdsInsertTree = insert_tree MDSplusERROR_code"

text \<open>The new tree head, the node of the key and \<open>foundintree\<close>.\<close>

definition LibInsertTree ::
  "'n bbtree \<Rightarrow> 'k \<Rightarrow> nat \<Rightarrow> ('k \<Rightarrow> 'n \<Rightarrow> int) \<Rightarrow> ('k \<Rightarrow> 'n option)
   \<Rightarrow> ('n bbtree \<times> 'n option \<times> nat) option"
where
  "LibInsertTree treehead key controlflags compare_rtn alloc_rtn =
     map_option
       (\<lambda>(st, info). (if foundintree info = 1 then currentnode info else treehead,
                      new_node info, foundintree info))
       (MdsInsertTree compare_rtn alloc_rtn controlflags key treehead)"

fun LibLookupTree :: "('k \<Rightarrow> 'n \<Rightarrow> int) \<Rightarrow> 'k \<Rightarrow> 'n bbtree \<Rightarrow> status \<times> 'n option" where
  "LibLookupTree compare_rtn key Null = (LibKEYNOTFOU, None)"
| "LibLookupTree compare_rtn key (Node l d b r) =
     (let ch_result = compare_rtn key d
      in if ch_result = 0 then (MDSplusSUCCESS, Some d)
         else if ch_result < 0 then LibLookupTree compare_rtn key l
         else LibLookupTree compare_rtn key r)"

fun MdsTraverseTree ::
  "('n \<Rightarrow> 's \<Rightarrow> status \<times> 's) \<Rightarrow> 's \<Rightarrow> 'n bbtree \<Rightarrow> status \<times> 's"
where
  "MdsTraverseTree user_rtn s Null = (MDSplusSUCCESS, s)"
| "MdsTraverseTree user_rtn s (Node l d b r) =
     (case (if l \<noteq> Null then MdsTraverseTree user_rtn s l else (MDSplusSUCCESS, s)) of
        (status, s) \<Rightarrow>
          if \<not> STATUS_OK status then (status, s)
          else (case user_rtn d s of
            (status, s) \<Rightarrow>
              if \<not> STATUS_OK status then (status, s)
              else (case (if r \<noteq> Null then MdsTraverseTree user_rtn s r else (MDSplusSUCCESS, s)) of
                (status, s) \<Rightarrow> if \<not> STATUS_OK status then (status, s) else (MDSplusSUCCESS, s))))"

definition LibTraverseTree ::
  "'n bbtree \<Rightarrow> ('n \<Rightarrow> 's \<Rightarrow> status \<times> 's) \<Rightarrow> 's \<Rightarrow> status \<times> 's" where
  "LibTraverseTree treehead user_rtn s = MdsTraverseTree user_rtn s treehead"

section \<open>The insertion is a plain one\<close>

text \<open>Insertion below a leaf without any rebalancing.\<close>

fun plain_insert :: "('k \<Rightarrow> 'n \<Rightarrow> int) \<Rightarrow> 'k \<Rightarrow> 'n \<Rightarrow> 'n bbtree \<Rightarrow> 'n bbtree" where
  "plain_insert cmp key n Null = Node Null n 0 Null"
| "plain_insert cmp key n (Node l d b r) =
     (if cmp key d \<le> 0 then Node (plain_insert cmp key n l) d b r
      else Node l d b (plain_insert cmp key n r))"

text \<open>The node an insertion without duplicates stops at.\<close>

definition present :: "('k \<Rightarrow> 'n \<Rightarrow> int) \<Rightarrow> nat \<Rightarrow> 'k \<Rightarrow> 'n bbtree \<Rightarrow> 'n option" where
  "present cmp flags key t = (if even flags then snd (LibLookupTree cmp key t) else None)"

lemma present_Node:
  "present cmp flags key (Node l d b r) =
     (if cmp key d = 0 \<and> even flags then Some d
      else if cmp key d \<le> 0 then present cmp flags key l else present cmp flags key r)"
  by (auto simp: present_def Let_def)

lemma insert_tree_plain:
  assumes "err \<noteq> 0"
  shows "\<exists>st info. st \<noteq> 0 \<and> insert_tree err cmp alloc flags key t = Some (st, info) \<and>
    (case present cmp flags key t of
       Some n \<Rightarrow> foundintree info = 3 \<and> new_node info = Some n
     | None \<Rightarrow> new_node info = alloc key \<and>
         (case alloc key of
            None \<Rightarrow> foundintree info = 0
          | Some n \<Rightarrow> foundintree info = 1 \<and> currentnode info = plain_insert cmp key n t))"
proof (induction t)
  case Null
  then show ?case using assms by (auto simp: present_def split: option.splits)
next
  case (Node l d b r)
  have code: "MDSplusSUCCESS_code \<noteq> 0" by (simp add: MDSplusSUCCESS_code_def)
  show ?case
  proof (cases "cmp key d \<le> 0")
    case True
    then show ?thesis
      using Node.IH(1) code
      by (cases "present cmp flags key l"; cases "alloc key")
         (auto simp: Let_def present_Node after_left_def)
  next
    case False
    then show ?thesis
      using Node.IH(2) code
      by (cases "present cmp flags key r"; cases "alloc key")
         (auto simp: Let_def present_Node after_right_def)
  qed
qed

lemma MDSplusERROR_code_nonzero: "MDSplusERROR_code \<noteq> 0"
  by (simp add: MDSplusERROR_code_def)

text \<open>
  C29: \<open>LibInsertTree\<close> never rebalances: \<open>MDSplusERROR\<close> is not 0, so the test for a grown
  subtree always fails, and the tree it returns is that of an insertion below a leaf. With
  an equal key in the tree and no duplicates asked for it returns that node and 3, when no
  node can be allocated nothing changes and it returns 0.
\<close>

theorem LibInsertTree_plain:
  "LibInsertTree t key flags cmp alloc = Some
    (case present cmp flags key t of
       Some n \<Rightarrow> (t, Some n, 3)
     | None \<Rightarrow> (case alloc key of
                  None \<Rightarrow> (t, None, 0)
                | Some n \<Rightarrow> (plain_insert cmp key n t, Some n, 1)))"
proof -
  obtain st info where "insert_tree MDSplusERROR_code cmp alloc flags key t = Some (st, info)"
    "case present cmp flags key t of
       Some n \<Rightarrow> foundintree info = 3 \<and> new_node info = Some n
     | None \<Rightarrow> new_node info = alloc key \<and>
         (case alloc key of
            None \<Rightarrow> foundintree info = 0
          | Some n \<Rightarrow> foundintree info = 1 \<and> currentnode info = plain_insert cmp key n t)"
    using insert_tree_plain [OF MDSplusERROR_code_nonzero, of cmp alloc flags key t] by blast
  then show ?thesis
    by (cases "present cmp flags key t"; cases "alloc key")
       (simp_all add: LibInsertTree_def MdsInsertTree_def)
qed

section \<open>How high the trees become\<close>

fun height :: "'n bbtree \<Rightarrow> nat" where
  "height Null = 0"
| "height (Node l d b r) = Suc (max (height l) (height r))"

fun nodes :: "'n bbtree \<Rightarrow> 'n list" where
  "nodes Null = []"
| "nodes (Node l d b r) = nodes l @ d # nodes r"

text \<open>Insertion of a list of numbers, each its own node.\<close>

definition number_tree :: "int list \<Rightarrow> int bbtree" where
  "number_tree ns = fold (\<lambda>n t. fst (the (LibInsertTree t n 0 (-) Some))) ns Null"

lemma insert_max:
  "\<forall>m \<in> set (nodes t). m < n \<Longrightarrow>
   present (-) 0 n t = None \<and> nodes (plain_insert (-) n n t) = nodes t @ [n]"
proof (induction t)
  case Null
  then show ?case by (simp add: present_def)
next
  case (Node l d b r)
  then have "d < n" by simp
  then have "\<not> n - d \<le> 0" by simp
  then show ?case using Node by (auto simp: present_Node max_def split: if_splits)
qed

text \<open>A chain of right links.\<close>

fun chain :: "'n bbtree \<Rightarrow> bool" where
  "chain Null = True"
| "chain (Node l d b r) = (l = Null \<and> chain r)"

lemma chain_insert:
  "chain t \<Longrightarrow> \<forall>m \<in> set (nodes t). m < n \<Longrightarrow> chain (plain_insert (-) n (n :: int) t)"
  by (induction t) auto

lemma chain_height: "chain t \<Longrightarrow> height t = length (nodes t)"
  by (induction t) auto

text \<open>
  Keys inserted in increasing order make a tree as high as it has nodes.
\<close>

theorem number_tree_height:
  assumes "sorted_wrt (<) ns"
  shows "height (number_tree ns) = length ns \<and> nodes (number_tree ns) = ns"
proof -
  have "chain (number_tree ns) \<and> nodes (number_tree ns) = ns"
    using assms
  proof (induction ns rule: rev_induct)
    case Nil
    then show ?case by (simp add: number_tree_def)
  next
    case (snoc n ns)
    let ?t = "number_tree ns"
    have IH: "chain ?t" "nodes ?t = ns" and less: "\<forall>m \<in> set (nodes ?t). m < n"
      using snoc by (auto simp: sorted_wrt_append)
    have "number_tree (ns @ [n]) = plain_insert (-) n n ?t"
      using insert_max [OF less] by (simp add: number_tree_def LibInsertTree_plain)
    then show ?case using IH insert_max [OF less] chain_insert [OF IH(1) less] by simp
  qed
  then show ?thesis using chain_height by metis
qed

theorem number_tree_height_witness: "height (number_tree [1, 2, 3, 5, 8, 13]) = 6"
  using number_tree_height [of "[1, 2, 3, 5, 8, 13]"] by simp

section \<open>The rotations are right\<close>

text \<open>The balance of every node is the difference of the heights, and at most 1.\<close>

fun avl :: "'n bbtree \<Rightarrow> bool" where
  "avl Null = True"
| "avl (Node l d b r) =
     (b = int (height r) - int (height l) \<and> \<bar>b\<bar> \<le> 1 \<and> avl l \<and> avl r)"

text \<open>How a subtree relates to the one before the insertion: \<open>g\<close> tells that it has grown.\<close>

definition grown :: "bool \<Rightarrow> 'n bbtree \<Rightarrow> 'n bbtree \<Rightarrow> bool" where
  "grown g t t' \<longleftrightarrow> avl t' \<and> height t' = height t + (if g then 1 else 0)
     \<and> (g \<and> t \<noteq> Null \<longrightarrow> bal t' \<noteq> 0)"

lemma rotate_left_side_grown:
  assumes "avl (Node l d (-1) r)" "grown True l l'"
  shows "\<exists>t'. rotate_left_side (Node l' d (-2) r) = Some t' \<and> grown False (Node l d (-1) r) t'
           \<and> nodes t' = nodes l' @ d # nodes r"
proof -
  have h: "height l = Suc (height r)" "avl l'" "height l' = Suc (Suc (height r))" "bal l' \<noteq> 0" "avl r"
    using assms by (auto simp: grown_def)
  then obtain ll dl bl rl where l': "l' = Node ll dl bl rl" by (cases l') auto
  show ?thesis
  proof (cases "bl < 0")
    case True
    then show ?thesis
      using h l' by (auto simp: rotate_left_side_def grown_def max_def split: if_splits)
  next
    case False
    then have "height rl = Suc (height ll)" "bl = 1" using h l' by auto
    then obtain rll drl brl rlr where rl: "rl = Node rll drl brl rlr" by (cases rl) auto
    then have "brl = -1 \<or> brl = 0 \<or> brl = 1" using h l' by auto
    then show ?thesis
      using h l' rl \<open>bl = 1\<close>
      by (elim disjE) (auto simp: rotate_left_side_def grown_def max_def split: if_splits)
  qed
qed

lemma rotate_right_side_grown:
  assumes "avl (Node l d 1 r)" "grown True r r'"
  shows "\<exists>t'. rotate_right_side (Node l d 2 r') = Some t' \<and> grown False (Node l d 1 r) t'
           \<and> nodes t' = nodes l @ d # nodes r'"
proof -
  have h: "height r = Suc (height l)" "avl r'" "height r' = Suc (Suc (height l))" "bal r' \<noteq> 0" "avl l"
    using assms by (auto simp: grown_def)
  then obtain lr dr br rr where r': "r' = Node lr dr br rr" by (cases r') auto
  show ?thesis
  proof (cases "br > 0")
    case True
    then show ?thesis
      using h r' by (auto simp: rotate_right_side_def grown_def max_def split: if_splits)
  next
    case False
    then have "height lr = Suc (height rr)" "br = -1" using h r' by auto
    then obtain lrl dlr blr lrr where lr: "lr = Node lrl dlr blr lrr" by (cases lr) auto
    then have "blr = -1 \<or> blr = 0 \<or> blr = 1" using h r' by auto
    then show ?thesis
      using h r' lr \<open>br = -1\<close>
      by (elim disjE) (auto simp: rotate_right_side_def grown_def max_def split: if_splits)
  qed
qed

lemma after_left_grown:
  assumes "avl (Node l d b r)" "grown (st = 0) l (currentnode info)"
  shows "\<exists>st' t'. after_left 0 st d b r info = Some (st', info\<lparr>currentnode := t'\<rparr>)
    \<and> grown (st' = 0) (Node l d b r) t' \<and> nodes t' = nodes (currentnode info) @ d # nodes r"
proof (cases "st = 0")
  case False
  then show ?thesis
    using assms by (auto simp: after_left_def grown_def MDSplusSUCCESS_code_def)
next
  case True
  have "b = -1 \<or> b = 0 \<or> b = 1" using assms(1) by auto
  then show ?thesis
  proof (elim disjE)
    assume b: "b = -1"
    then obtain t' where "rotate_left_side (Node (currentnode info) d (-2) r) = Some t'"
      "grown False (Node l d b r) t'" "nodes t' = nodes (currentnode info) @ d # nodes r"
      using rotate_left_side_grown assms True by fastforce
    then show ?thesis using True b by (auto simp: after_left_def MDSplusSUCCESS_code_def)
  qed (use assms True in \<open>auto simp: after_left_def grown_def MDSplusSUCCESS_code_def\<close>)
qed

lemma after_right_grown:
  assumes "avl (Node l d b r)" "grown (st = 0) r (currentnode info)"
  shows "\<exists>st' t'. after_right 0 st l d b info = Some (st', info\<lparr>currentnode := t'\<rparr>)
    \<and> grown (st' = 0) (Node l d b r) t' \<and> nodes t' = nodes l @ d # nodes (currentnode info)"
proof (cases "st = 0")
  case False
  then show ?thesis
    using assms by (auto simp: after_right_def grown_def MDSplusSUCCESS_code_def)
next
  case True
  have "b = -1 \<or> b = 0 \<or> b = 1" using assms(1) by auto
  then show ?thesis
  proof (elim disjE)
    assume b: "b = 1"
    then obtain t' where "rotate_right_side (Node l d 2 (currentnode info)) = Some t'"
      "grown False (Node l d b r) t'" "nodes t' = nodes l @ d # nodes (currentnode info)"
      using rotate_right_side_grown assms True by fastforce
    then show ?thesis using True b by (auto simp: after_right_def MDSplusSUCCESS_code_def)
  qed (use assms True in \<open>auto simp: after_right_def grown_def MDSplusSUCCESS_code_def\<close>)
qed



section \<open>Traversal\<close>

text \<open>The nodes one after the other, until a call fails.\<close>

fun visit :: "('n \<Rightarrow> 's \<Rightarrow> status \<times> 's) \<Rightarrow> 's \<Rightarrow> 'n list \<Rightarrow> status \<times> 's" where
  "visit f s [] = (MDSplusSUCCESS, s)"
| "visit f s (n # ns) = (case f n s of (status, s) \<Rightarrow> if STATUS_OK status then visit f s ns else (status, s))"

lemma visit_append:
  "visit f s (xs @ ys) =
     (case visit f s xs of (status, s) \<Rightarrow> if STATUS_OK status then visit f s ys else (status, s))"
  by (induction f s xs rule: visit.induct) (auto split: prod.splits)

lemma visit_success: "visit f s xs = (st, s') \<Longrightarrow> STATUS_OK st \<Longrightarrow> st = MDSplusSUCCESS"
  by (induction f s xs rule: visit.induct) (auto split: prod.splits if_splits)

text \<open>
  \<open>LibTraverseTree\<close> calls the routine on the nodes from left to right and stops at the first
  call that fails, with its status.
\<close>

theorem LibTraverseTree_visit: "LibTraverseTree t f s = visit f s (nodes t)"
proof -
  have "MdsTraverseTree f s t = visit f s (nodes t)"
  proof (induction t arbitrary: s)
    case (Node l d b r)
    have skip: "(if q \<noteq> Null then visit f s (nodes q) else (MDSplusSUCCESS, s)) = visit f s (nodes q)"
      for q s by simp
    show ?case
      by (simp only: MdsTraverseTree.simps Node skip nodes.simps)
         (auto simp: visit_append split: prod.splits dest: visit_success)
  qed simp
  then show ?thesis by (simp add: LibTraverseTree_def)
qed

section \<open>The trees as finite maps\<close>

text \<open>
  What a client of the trees promises of its comparison: it is the comparison of a normal form
  of the key with that of the key of the node, in a linear order.
\<close>

locale tree_keys =
  fixes cmp :: "'k \<Rightarrow> 'n \<Rightarrow> int"
    and norm :: "'k \<Rightarrow> 'c::linorder"
    and key_of :: "'n \<Rightarrow> 'k"
    and valid :: "'k \<Rightarrow> bool"
  assumes cmp_less: "valid k \<Longrightarrow> valid (key_of n) \<Longrightarrow> cmp k n < 0 \<longleftrightarrow> norm k < norm (key_of n)"
    and cmp_eq: "valid k \<Longrightarrow> valid (key_of n) \<Longrightarrow> cmp k n = 0 \<longleftrightarrow> norm k = norm (key_of n)"
begin

definition search_tree :: "'n bbtree \<Rightarrow> bool" where
  "search_tree t \<longleftrightarrow> (\<forall>n \<in> set (nodes t). valid (key_of n))
     \<and> sorted_wrt (<) (map (\<lambda>n. norm (key_of n)) (nodes t))"

definition tree_map :: "'n bbtree \<Rightarrow> 'c \<Rightarrow> 'n option" where
  "tree_map t = map_of (map (\<lambda>n. (norm (key_of n), n)) (nodes t))"

lemma search_tree_Null [simp]: "search_tree Null" "tree_map Null = (\<lambda>_. None)"
  by (auto simp: search_tree_def tree_map_def)

lemma search_tree_Node:
  "search_tree (Node l d b r) \<longleftrightarrow> search_tree l \<and> search_tree r \<and> valid (key_of d)
     \<and> (\<forall>n \<in> set (nodes l). norm (key_of n) < norm (key_of d))
     \<and> (\<forall>n \<in> set (nodes r). norm (key_of d) < norm (key_of n))"
  by (fastforce simp: search_tree_def sorted_wrt_append dest: order.strict_trans)

lemma tree_map_Some: "tree_map t c = Some n \<Longrightarrow> n \<in> set (nodes t) \<and> norm (key_of n) = c"
  by (auto simp: tree_map_def dest!: map_of_SomeD)

lemma tree_map_Node:
  assumes "search_tree (Node l d b r)"
  shows "tree_map (Node l d b r) c =
    (if c = norm (key_of d) then Some d else if c < norm (key_of d) then tree_map l c else tree_map r c)"
proof -
  have t: "tree_map (Node l d b r) = ((tree_map r)(norm (key_of d) \<mapsto> d)) ++ tree_map l"
    by (simp add: tree_map_def)
  have l: "tree_map l c = None" if "norm (key_of d) \<le> c"
    using that assms tree_map_Some [of l c] by (cases "tree_map l c") (auto simp: search_tree_Node)
  have r: "tree_map r c = None" if "c < norm (key_of d)"
    using that assms tree_map_Some [of r c] by (cases "tree_map r c") (auto simp: search_tree_Node)
  show ?thesis
    unfolding t using l r by (cases "tree_map l c") (auto simp: map_add_def not_less)
qed

lemma lookup_tree_map:
  "search_tree t \<Longrightarrow> valid k \<Longrightarrow>
   LibLookupTree cmp k t =
     (case tree_map t (norm k) of None \<Rightarrow> (LibKEYNOTFOU, None) | Some n \<Rightarrow> (MDSplusSUCCESS, Some n))"
proof (induction t)
  case (Node l d b r)
  then have "valid (key_of d)" "search_tree l" "search_tree r" by (auto simp: search_tree_Node)
  then show ?case
    using Node cmp_less [of k d] cmp_eq [of k d] by (auto simp: Let_def tree_map_Node)
qed simp

lemma plain_insert_search:
  assumes "valid k" "valid (key_of n)" "norm (key_of n) = norm k"
  shows "search_tree t \<Longrightarrow> tree_map t (norm k) = None \<Longrightarrow>
    search_tree (plain_insert cmp k n t) \<and> set (nodes (plain_insert cmp k n t)) = insert n (set (nodes t))
    \<and> tree_map (plain_insert cmp k n t) = (tree_map t)(norm k \<mapsto> n)"
proof (induction t)
  case Null
  then show ?case using assms by (auto simp: search_tree_def tree_map_def)
next
  case (Node l d b r)
  have v: "valid (key_of d)" "search_tree l" "search_tree r" using Node.prems by (auto simp: search_tree_Node)
  have ne: "norm k \<noteq> norm (key_of d)" using Node.prems by (auto simp: tree_map_Node)
  show ?case
  proof (cases "cmp k d \<le> 0")
    case True
    then have less: "norm k < norm (key_of d)"
      using cmp_less cmp_eq assms(1) v(1) ne by (metis le_less)
    then have "tree_map l (norm k) = None" using Node.prems ne by (simp add: tree_map_Node)
    note IH = Node.IH(1) [OF v(2) this]
    have s: "search_tree (Node (plain_insert cmp k n l) d b r)"
      using IH Node.prems(1) assms less by (auto simp: search_tree_Node)
    show ?thesis
      using True IH s less by (auto simp: tree_map_Node [OF s] tree_map_Node [OF Node.prems(1)] fun_eq_iff)
  next
    case False
    then have less: "norm (key_of d) < norm k"
      using cmp_less cmp_eq assms(1) v(1) ne by (metis linorder_neqE not_less order.order_iff_strict)
    then have "\<not> norm k < norm (key_of d)" by (simp add: not_less less_imp_le)
    then have "tree_map r (norm k) = None" using Node.prems ne by (simp add: tree_map_Node)
    note IH = Node.IH(2) [OF v(3) this]
    have s: "search_tree (Node l d b (plain_insert cmp k n r))"
      using IH Node.prems(1) assms less by (auto simp: search_tree_Node)
    show ?thesis
      using False IH s less by (auto simp: tree_map_Node [OF s] tree_map_Node [OF Node.prems(1)] fun_eq_iff)
  qed
qed

lemma insert_tree_map:
  assumes "search_tree t" "valid k" "even flags"
    and alloc: "\<And>n. alloc k = Some n \<Longrightarrow> valid (key_of n) \<and> norm (key_of n) = norm k"
    and "LibInsertTree t k flags cmp alloc = Some (t', node, found)"
  shows "search_tree t' \<and>
    (case tree_map t (norm k) of
       Some n \<Rightarrow> t' = t \<and> node = Some n \<and> found = 3
     | None \<Rightarrow> (case alloc k of
                  None \<Rightarrow> t' = t \<and> node = None \<and> found = 0
                | Some n \<Rightarrow> node = Some n \<and> found = 1 \<and> set (nodes t') = insert n (set (nodes t))
                            \<and> tree_map t' = (tree_map t)(norm k \<mapsto> n)))"
proof -
  have p: "present cmp flags k t = tree_map t (norm k)"
    using lookup_tree_map [OF assms(1,2)] assms(3) by (simp add: present_def split: option.splits)
  have e: "(t', node, found) =
      (case tree_map t (norm k) of
         Some n \<Rightarrow> (t, Some n, 3)
       | None \<Rightarrow> (case alloc k of None \<Rightarrow> (t, None, 0) | Some n \<Rightarrow> (plain_insert cmp k n t, Some n, 1)))"
    using assms(5) unfolding LibInsertTree_plain p by simp
  show ?thesis
  proof (cases "tree_map t (norm k)")
    case None
    then show ?thesis
      using e assms(1) plain_insert_search [OF assms(2) _ _ assms(1) None] alloc
      by (cases "alloc k") simp_all
  next
    case (Some n)
    then show ?thesis using e assms(1) by simp
  qed
qed

end

end
