(* ===== verification/WildMatch.thy ===== *)
theory WildMatch
  imports StrRoutines
begin

text \<open>
  The wild-card match of \<open>mdsshr/librtl.c\<close>: \<open>match_wild\<close> keeps one restart point, the place
  after the last \<open>*\<close> and the candidate from there on, and is shown equal to the declarative
  meaning of a pattern.
\<close>

section \<open>The code\<close>

text \<open>
  The state of the loop: the rest of the candidate, the restart candidate \<open>scand\<close>, the rest of
  the pattern and the restart pattern \<open>spat\<close>. Before the first \<open>*\<close> the restart candidate has
  length 0.
\<close>

function match_loop :: "string \<Rightarrow> string \<Rightarrow> string \<Rightarrow> string \<Rightarrow> bool" where
  "match_loop cand scand pat spat =
     (case pat of
        [] \<Rightarrow>
          if cand = [] then True
          else (case scand of [] \<Rightarrow> False | _ # scand \<Rightarrow> match_loop scand scand spat spat)
      | pc # pat \<Rightarrow>
          if pc = CHR ''*''
          then if pat = [] then True else match_loop cand cand pat pat
          else (case cand of
                  [] \<Rightarrow> False
                | c # cand \<Rightarrow>
                    if c \<noteq> pc \<and> pc \<noteq> CHR ''%''
                    then (case scand of [] \<Rightarrow> False | _ # scand \<Rightarrow> match_loop scand scand spat spat)
                    else match_loop cand scand pat spat))"
  by pat_completeness auto
termination
  by (relation "measures [\<lambda>(cand, scand, pat, spat). max (length pat) (length spat),
                          \<lambda>(cand, scand, pat, spat). length scand,
                          \<lambda>(cand, scand, pat, spat). length pat]") auto

declare match_loop.simps [simp del]

definition match_wild :: "string \<Rightarrow> string \<Rightarrow> bool" where
  "match_wild cand pat = match_loop cand [] pat pat"

definition StrMatchWild :: "dsc \<Rightarrow> dsc \<Rightarrow> status" where
  "StrMatchWild candidate pattern =
     (if match_wild (take (len candidate) (chars candidate)) (take (len pattern) (chars pattern))
      then StrMATCH else StrNOMATCH)"

section \<open>The meaning of a pattern\<close>

text \<open>\<open>*\<close> stands for any text, \<open>%\<close> for any one character.\<close>

fun glob :: "string \<Rightarrow> string \<Rightarrow> bool" where
  "glob [] s = (s = [])"
| "glob (p # ps) [] = (p = CHR ''*'' \<and> glob ps [])"
| "glob (p # ps) (c # s) =
     (if p = CHR ''*'' then glob ps (c # s) \<or> glob (p # ps) s
      else (c = p \<or> p = CHR ''%'') \<and> glob ps s)"

lemma glob_star: "glob (CHR ''*'' # ps) s \<longleftrightarrow> (\<exists>k \<le> length s. glob ps (drop k s))"
proof (induction s)
  case (Cons c s)
  have "(\<exists>k \<le> length (c # s). glob ps (drop k (c # s)))
      \<longleftrightarrow> glob ps (c # s) \<or> (\<exists>k \<le> length s. glob ps (drop k s))"
    by (metis Suc_le_mono drop0 drop_Suc_Cons length_Cons not0_implies_Suc zero_le)
  then show ?case using Cons by simp
qed simp

lemma glob_star_all: "glob ''*'' s"
  unfolding glob_star by (rule exI [of _ "length s"]) simp

lemma glob_length:
  "CHR ''*'' \<notin> set seg \<Longrightarrow> glob (seg @ ps) s \<Longrightarrow> length seg \<le> length s \<and> glob ps (drop (length seg) s)"
proof (induction seg arbitrary: s)
  case (Cons p seg)
  then show ?case by (cases s) auto
qed simp

lemma glob_needs: "glob (p # ps) s \<Longrightarrow> p \<noteq> CHR ''*'' \<Longrightarrow> s \<noteq> []"
  by (cases s) auto

section \<open>The loop decides the meaning\<close>

text \<open>
  The restart invariant: either there is no restart, or the pattern between the restart point
  and here has no \<open>*\<close> and took as many characters as it is long.
\<close>

definition restart :: "string \<Rightarrow> string \<Rightarrow> string \<Rightarrow> string \<Rightarrow> bool" where
  "restart cand scand pat spat \<longleftrightarrow>
     scand = [] \<or> (\<exists>seg. spat = seg @ pat \<and> CHR ''*'' \<notin> set seg
                     \<and> length seg \<le> length scand \<and> cand = drop (length seg) scand)"

text \<open>A later start of the last starred part.\<close>

definition later :: "string \<Rightarrow> string \<Rightarrow> bool" where
  "later scand spat \<longleftrightarrow> (\<exists>k. 0 < k \<and> k \<le> length scand \<and> glob spat (drop k scand))"

lemma later_Nil [simp]: "\<not> later [] spat"
  by (simp add: later_def)

lemma later_Cons: "later (c # s) spat \<longleftrightarrow> glob spat s \<or> later s spat"
proof
  assume "later (c # s) spat"
  then obtain k where k: "0 < k" "k \<le> Suc (length s)" "glob spat (drop k (c # s))"
    by (auto simp: later_def)
  then obtain j where "k = Suc j" by (cases k) auto
  then show "glob spat s \<or> later s spat" using k by (cases j) (auto simp: later_def)
next
  assume "glob spat s \<or> later s spat"
  then show "later (c # s) spat"
  proof
    assume "glob spat s"
    then show ?thesis unfolding later_def by (intro exI [of _ 1]) simp
  next
    assume "later s spat"
    then obtain k where "0 < k" "k \<le> length s" "glob spat (drop k s)" by (auto simp: later_def)
    then show ?thesis unfolding later_def by (intro exI [of _ "Suc k"]) simp
  qed
qed

lemma restart_same [simp]: "restart s s p p"
  unfolding restart_def by (intro disjI2 exI [of _ "[]"]) simp

lemma restart_step:
  assumes "restart (c # cand) scand (p # pat) spat" "p \<noteq> CHR ''*''"
  shows "restart cand scand pat spat"
  using assms(1) unfolding restart_def
proof (elim disjE exE conjE)
  fix seg
  assume s: "spat = seg @ p # pat" "CHR ''*'' \<notin> set seg" "length seg \<le> length scand"
    "c # cand = drop (length seg) scand"
  then have "length (c # cand) = length scand - length seg" by simp
  then have "Suc (length seg) \<le> length scand" by simp
  moreover have "cand = drop (Suc (length seg)) scand"
    using s(4) by (metis drop_Suc list.sel(3) tl_drop)
  ultimately show "scand = [] \<or> (\<exists>seg. spat = seg @ pat \<and> CHR ''*'' \<notin> set seg
      \<and> length seg \<le> length scand \<and> cand = drop (length seg) scand)"
    using s(1,2) assms(2) by (intro disjI2 exI [of _ "seg @ [p]"]) simp
qed simp

text \<open>At a \<open>*\<close> every later start is also a match from here.\<close>

lemma star_absorbs:
  assumes "restart cand scand (CHR ''*'' # pat) spat" "later scand spat"
  shows "glob (CHR ''*'' # pat) cand"
proof -
  obtain k where k: "0 < k" "k \<le> length scand" "glob spat (drop k scand)"
    using assms(2) by (auto simp: later_def)
  then have "scand \<noteq> []" by auto
  then obtain seg where seg: "spat = seg @ CHR ''*'' # pat" "CHR ''*'' \<notin> set seg"
      "cand = drop (length seg) scand"
    using assms(1) by (auto simp: restart_def)
  then have "length seg \<le> length (drop k scand) \<and> glob (CHR ''*'' # pat) (drop (length seg) (drop k scand))"
    using k(3) glob_length by blast
  then obtain j where j: "j \<le> length (drop (length seg) (drop k scand))"
      "glob pat (drop j (drop (length seg) (drop k scand)))"
    unfolding glob_star by blast
  have "drop j (drop (length seg) (drop k scand)) = drop (j + k) cand"
    using seg(3) by (simp add: ac_simps)
  moreover have "j + k \<le> length cand" 
    using j(1) k(2) seg(3) \<open>length seg \<le> length (drop k scand) \<and> _\<close> by simp linarith
  ultimately show ?thesis using j(2) unfolding glob_star by metis
qed

text \<open>When the candidate is used up, no later start can match.\<close>

lemma exhausted:
  assumes "restart [] scand (p # pat) spat" "p \<noteq> CHR ''*''"
  shows "\<not> later scand spat"
proof
  assume "later scand spat"
  then obtain k where k: "0 < k" "k \<le> length scand" "glob spat (drop k scand)" by (auto simp: later_def)
  then have "scand \<noteq> []" by auto
  then obtain seg where seg: "spat = seg @ p # pat" "CHR ''*'' \<notin> set seg"
      "length seg \<le> length scand" "[] = drop (length seg) scand"
    using assms(1) by (auto simp: restart_def)
  then have "length seg \<le> length (drop k scand)" using glob_length k(3) by blast
  moreover have "length scand = length seg" using seg(3,4) by simp
  ultimately show False using k by simp
qed

lemma match_loop_glob:
  "restart cand scand pat spat \<Longrightarrow> match_loop cand scand pat spat \<longleftrightarrow> glob pat cand \<or> later scand spat"
proof (induction cand scand pat spat rule: match_loop.induct)
  case (1 cand scand pat spat)
  show ?case
  proof (cases pat)
    case Nil
    then show ?thesis
      using "1.IH"(1) by (subst match_loop.simps) (auto simp: later_Cons split: list.splits)
  next
    case pat: (Cons pc rest)
    show ?thesis
    proof (cases "pc = CHR ''*''")
      case True
      have "match_loop cand cand rest rest \<longleftrightarrow> glob (CHR ''*'' # rest) cand" if "rest \<noteq> []"
      proof -
        have "later cand rest \<or> glob rest cand \<longleftrightarrow> (\<exists>k \<le> length cand. glob rest (drop k cand))"
          unfolding later_def by (metis drop0 gr0I zero_le)
        then show ?thesis using "1.IH"(2) [OF pat True that] unfolding glob_star by auto
      qed
      then show ?thesis
        using pat True star_absorbs "1.prems" glob_star_all
        by (subst match_loop.simps) (cases "rest = []"; auto simp del: glob.simps)
    next
      case False
      show ?thesis
      proof (cases cand)
        case Nil
        then show ?thesis
          using pat False exhausted "1.prems" by (subst match_loop.simps) (auto dest: glob_needs)
      next
        case cand: (Cons c cs)
        show ?thesis
        proof (cases "c \<noteq> pc \<and> pc \<noteq> CHR ''%''")
          case True
          then show ?thesis
            using pat False cand "1.IH"(3) [OF pat False cand True]
            by (subst match_loop.simps) (auto simp: later_Cons split: list.splits)
        next
          case ok: False
          have "restart cs scand rest spat"
            using restart_step [of c cs scand pc rest spat] "1.prems" pat cand False by simp
          then show ?thesis
            using pat False cand ok "1.IH"(4) [OF pat False cand ok]
            by (subst match_loop.simps) auto
        qed
      qed
    qed
  qed
qed

text \<open>
  C11: \<open>StrMatchWild\<close> decides the meaning of the pattern: \<open>*\<close> matches any text, \<open>%\<close> any one
  character, every other character itself.
\<close>

theorem StrMatchWild_glob:
  "StrMatchWild candidate pattern =
     (if glob (take (len pattern) (chars pattern)) (take (len candidate) (chars candidate))
      then StrMATCH else StrNOMATCH)"
  by (simp add: StrMatchWild_def match_wild_def match_loop_glob restart_def)

end
