(* ===== verification/Variables.thy ===== *)
theory Variables
  imports BBTree WildMatch "HOL-Library.List_Lexorder" "HOL-Library.Char_ord"
begin

text \<open>
  The TDI variables of \<open>tdishr/TdiVar.c\<close>: two trees of names, one private and one public,
  searched without regard to case. A node is known by its name; its data descriptor is in the
  store \<open>xds\<close>, \<open>None\<close> for the null descriptor of a variable that was deallocated. Identifier
  expressions that have to be evaluated first are not modelled.
\<close>

section \<open>The code\<close>

record 'd block_type =
  head :: "string bbtree"
  xds :: "string \<Rightarrow> 'd option"

record 'd tdi_vars =
  private_block :: "'d block_type"
  public_block :: "'d block_type"

datatype which = Private | Public

text \<open>An identifier: a text, or the operators \<open>PUBLIC\<close> and \<open>PRIVATE\<close> on an identifier.\<close>

datatype ident = Ident string | OPC_PUBLIC ident | OPC_PRIVATE ident

definition compare :: "string \<Rightarrow> string \<Rightarrow> int" where
  "compare key node = StrCaseBlindCompare (static_dsc key) (static_dsc node)"

text \<open>Whether \<open>LibGetVm\<close> finds memory is the parameter \<open>vm\<close>.\<close>

definition allocate :: "bool \<Rightarrow> string \<Rightarrow> string option" where
  "allocate vm key = (if vm then Some key else None)"

definition block :: "which \<Rightarrow> 'd tdi_vars \<Rightarrow> 'd block_type" where
  "block w vars = (case w of Private \<Rightarrow> private_block vars | Public \<Rightarrow> public_block vars)"

definition set_block :: "which \<Rightarrow> 'd block_type \<Rightarrow> 'd tdi_vars \<Rightarrow> 'd tdi_vars" where
  "set_block w b vars =
     (case w of Private \<Rightarrow> vars\<lparr>private_block := b\<rparr> | Public \<Rightarrow> vars\<lparr>public_block := b\<rparr>)"

text \<open>Looks the key up and insists that the variable has data.\<close>

definition lookup_live :: "'d block_type \<Rightarrow> string \<Rightarrow> status \<times> string option" where
  "lookup_live b key =
     (case LibLookupTree compare key (head b) of
        (status, node) \<Rightarrow>
          if STATUS_OK status
          then if xds b (the node) \<noteq> None then (status, node) else (TdiUNKNOWN_VAR, node)
          else (status, node))"

text \<open>
  \<open>find_ident\<close>: the three search bits are private, public and must-exist. The result is the
  status, the key, the chosen block and, when it must exist, the node.
\<close>

fun find_ident ::
  "'d tdi_vars \<Rightarrow> bool \<Rightarrow> bool \<Rightarrow> bool \<Rightarrow> ident
   \<Rightarrow> status \<times> string \<times> which option \<times> string option"
where
  "find_ident vars priv pub exist (Ident key) =
     (let private_found = lookup_live (private_block vars) key;
          public_found = lookup_live (public_block vars) key;
          unknown = (\<lambda>status. if status = LibKEYNOTFOU then TdiUNKNOWN_VAR else status)
      in if priv \<and> \<not> exist then (MDSplusSUCCESS, key, Some Private, None)
         else if priv \<and> STATUS_OK (fst private_found)
         then (MDSplusSUCCESS, key, Some Private, snd private_found)
         else if pub
         then if exist
              then (unknown (fst public_found), key,
                    if STATUS_OK (fst public_found) then Some Public else None, snd public_found)
              else (MDSplusSUCCESS, key, Some Public, None)
         else if priv then (unknown (fst private_found), key, None, snd private_found)
         else (MDSplusSUCCESS, key, None, None))"
| "find_ident vars priv pub exist (OPC_PUBLIC ident) = find_ident vars False pub exist ident"
| "find_ident vars priv pub exist (OPC_PRIVATE ident) = find_ident vars priv False exist ident"

definition get_ident :: "'d tdi_vars \<Rightarrow> ident \<Rightarrow> (status \<times> 'd option) option" where
  "get_ident vars ident =
     (case find_ident vars True True True ident of
        (status, key, w, node) \<Rightarrow>
          if STATUS_OK status
          then (case (w, node) of
                  (Some w, Some n) \<Rightarrow> Some (MDSplusSUCCESS, xds (block w vars) n)
                | _ \<Rightarrow> None)
          else Some (status, None))"

text \<open>
  \<open>put_ident_inner\<close>: a null block, when neither list is left to search, is dereferenced. No
  data deallocates.
\<close>

definition put_ident_inner ::
  "bool \<Rightarrow> 'd tdi_vars \<Rightarrow> ident \<Rightarrow> 'd option \<Rightarrow> (status \<times> 'd tdi_vars) option" where
  "put_ident_inner vm vars ident xd =
     (case find_ident vars True True False ident of
        (status, key, w, _) \<Rightarrow>
          if \<not> STATUS_OK status then Some (status, vars)
          else (case w of
            None \<Rightarrow> None
          | Some w \<Rightarrow>
              let b = block w vars; upstr = map toupper key
              in case LibInsertTree (head b) upstr 0 compare (allocate vm) of
                   None \<Rightarrow> None
                 | Some (h, node, found) \<Rightarrow>
                     if odd found
                     then (case node of
                             None \<Rightarrow> None
                           | Some n \<Rightarrow>
                               Some (MDSplusSUCCESS,
                                     set_block w (b\<lparr>head := h, xds := (xds b)(n := xd)\<rparr>) vars))
                     else Some (Status0, set_block w (b\<lparr>head := h\<rparr>) vars)))"

text \<open>The two questions: is there data, and is there a node.\<close>

definition Tdi1Allocated :: "'d tdi_vars \<Rightarrow> ident \<Rightarrow> (status \<times> bool) option" where
  "Tdi1Allocated vars ident =
     (case find_ident vars True True False ident of
        (status, key, w, _) \<Rightarrow>
          (case w of
             None \<Rightarrow> None
           | Some w \<Rightarrow>
               (case LibLookupTree compare key (head (block w vars)) of
                  (status, node) \<Rightarrow>
                    let found = STATUS_OK status \<and> xds (block w vars) (the node) \<noteq> None;
                        status = (if status = LibKEYNOTFOU \<or> status = TdiUNKNOWN_VAR
                                  then MDSplusSUCCESS else status)
                    in Some (status, found))))"

definition Tdi1Present :: "'d tdi_vars \<Rightarrow> ident \<Rightarrow> (status \<times> bool) option" where
  "Tdi1Present vars ident =
     (case find_ident vars True True False ident of
        (status, key, w, _) \<Rightarrow>
          (case w of
             None \<Rightarrow> None
           | Some w \<Rightarrow>
               (case LibLookupTree compare key (head (block w vars)) of
                  (status, node) \<Rightarrow>
                    let found = STATUS_OK status;
                        status = (if found then status
                                  else if status = LibKEYNOTFOU \<or> status = TdiUNKNOWN_VAR
                                  then MDSplusSUCCESS else status)
                    in Some (status, found))))"

text \<open>\<open>Tdi1Private\<close> and \<open>Tdi1Public\<close>: one list only, and no check for data.\<close>

definition Tdi1Private :: "'d tdi_vars \<Rightarrow> string \<Rightarrow> status \<times> 'd option" where
  "Tdi1Private vars key =
     (case LibLookupTree compare key (head (private_block vars)) of
        (status, node) \<Rightarrow>
          if STATUS_OK status then (MDSplusSUCCESS, xds (private_block vars) (the node))
          else if status = LibKEYNOTFOU then (TdiUNKNOWN_VAR, None) else (status, None))"

definition Tdi1Public :: "'d tdi_vars \<Rightarrow> string \<Rightarrow> status \<times> 'd option" where
  "Tdi1Public vars key =
     (case LibLookupTree compare key (head (public_block vars)) of
        (status, node) \<Rightarrow>
          if STATUS_OK status then (MDSplusSUCCESS, xds (public_block vars) (the node))
          else if status = LibKEYNOTFOU then (TdiUNKNOWN_VAR, None) else (status, None))"

text \<open>Releasing: the state of the callback is the store and the count.\<close>

definition free_one ::
  "string \<Rightarrow> string \<Rightarrow> (string \<Rightarrow> 'd option) \<times> nat \<Rightarrow> status \<times> (string \<Rightarrow> 'd option) \<times> nat" where
  "free_one match node s =
     (case s of (xd, count) \<Rightarrow>
        if xd node = None then (MDSplusSUCCESS, (xd, count))
        else let status = (if length match = 0 then MDSplusSUCCESS
                           else StrMatchWild (static_dsc node) (static_dsc match))
             in if STATUS_OK status then (status, (xd(node := None), count + 1))
                else (MDSplusSUCCESS, (xd, count)))"

definition occurs :: "dsc \<Rightarrow> dsc \<Rightarrow> bool" where
  "occurs s c \<longleftrightarrow> the (StrPosition s c None) \<noteq> 0"

definition wild_loop ::
  "'d tdi_vars \<Rightarrow> nat \<Rightarrow> ident \<Rightarrow> (status \<times> 'd tdi_vars \<times> nat) option" where
  "wild_loop vars count ident =
     (case find_ident vars True True False ident of
        (status, key, w, _) \<Rightarrow>
          if \<not> STATUS_OK status then Some (status, vars, count)
          else (case w of
            None \<Rightarrow> None
          | Some w \<Rightarrow>
              let match = map toupper key; b = block w vars;
                  doit = (\<lambda>node. free_one match node (xds b, count));
                  put = (\<lambda>(status, xd, count). Some (status, set_block w (b\<lparr>xds := xd\<rparr>) vars, count))
              in if occurs (static_dsc match) (static_dsc ''*'') \<or> occurs (static_dsc match) (static_dsc ''%'')
                 then put (LibTraverseTree (head b) (free_one match) (xds b, count))
                 else (case LibLookupTree compare match (head b) of
                         (status, node) \<Rightarrow>
                           if STATUS_OK status then put (doit (the node))
                           else if status = LibKEYNOTFOU then put (MDSplusSUCCESS, xds b, count)
                           else put (status, xds b, count))))"

text \<open>
  The arguments one after the other while the status is a success; no argument means all of
  the given list.
\<close>

fun wild_args ::
  "'d tdi_vars \<Rightarrow> nat \<Rightarrow> status \<Rightarrow> ident list \<Rightarrow> (status \<times> 'd tdi_vars \<times> nat) option" where
  "wild_args vars count status [] = Some (status, vars, count)"
| "wild_args vars count status (arg # args) =
     (if STATUS_OK status
      then (case wild_loop vars count arg of
              None \<Rightarrow> None
            | Some (status, vars, count) \<Rightarrow> wild_args vars count status args)
      else Some (status, vars, count))"

definition wild ::
  "which \<Rightarrow> 'd tdi_vars \<Rightarrow> ident list \<Rightarrow> (status \<times> 'd tdi_vars \<times> nat) option" where
  "wild w vars args =
     (if args = []
      then (case LibTraverseTree (head (block w vars)) (free_one []) (xds (block w vars), 0) of
              (status, xd, count) \<Rightarrow> Some (status, set_block w ((block w vars)\<lparr>xds := xd\<rparr>) vars, count))
      else wild_args vars 0 MDSplusSUCCESS args)"

text \<open>\<open>free_all\<close> frees data and nodes below a node: the empty tree and an empty store remain.\<close>

definition free_all :: "'d block_type \<Rightarrow> 'd block_type" where
  "free_all b = b\<lparr>head := Null, xds := \<lambda>n. if n \<in> set (nodes (head b)) then None else xds b n\<rparr>"

definition Tdi1Deallocate ::
  "'d tdi_vars \<Rightarrow> ident list \<Rightarrow> (status \<times> 'd tdi_vars \<times> nat) option" where
  "Tdi1Deallocate vars args =
     (if args = [] \<and> head (private_block vars) \<noteq> Null
      then Some (MDSplusSUCCESS, vars\<lparr>private_block := free_all (private_block vars)\<rparr>, 0)
      else wild Private vars args)"

section \<open>The trees of variables\<close>

lemma tolower_0 [simp]: "tolower c = CHR 0x00 \<longleftrightarrow> c = CHR 0x00"
proof
  assume a: "tolower c = CHR 0x00"
  show "c = CHR 0x00"
  proof (cases "65 \<le> (of_char c :: nat) \<and> (of_char c :: nat) \<le> 90")
    case True
    then have "(of_char (tolower c) :: nat) = of_char c + 32"
      by (simp add: tolower_def)
    then show ?thesis using a by simp
  qed (use a in \<open>auto simp: tolower_def\<close>)
qed (simp add: tolower_def)

lemma tolower_0' [simp]: "CHR 0x00 = tolower c \<longleftrightarrow> c = CHR 0x00"
  using tolower_0 [of c] by metis

lemma tolower_null [simp]: "tolower CHR 0x00 = CHR 0x00"
  by simp

lemma caseblind_take:
  "CHR 0x00 \<notin> set xs \<Longrightarrow> CHR 0x00 \<notin> set ys \<Longrightarrow>
   sgn (let n = min (length xs) (length ys); ans = strncasecmp (take n xs) (take n ys)
    in if ans \<noteq> 0 then ans else if length xs > length ys then code (xs ! n)
       else if length ys > length xs then - code (ys ! n) else 0)
   = sgn (text_compare (map tolower xs) (map tolower ys))"
proof (induction xs ys rule: list_induct2')
  case (2 x xs)
  then show ?case using code_pos [of x] code_pos [of "tolower x"] by (auto simp: sgn_if)
next
  case (3 y ys)
  then show ?case using code_pos [of y] code_pos [of "tolower y"] by (auto simp: sgn_if)
next
  case (4 x xs y ys)
  then show ?case by (auto simp: Let_def)
qed simp

lemma code_less: "code x < code y \<longleftrightarrow> x < y"
  by (simp add: code_def less_char_def)

lemma text_compare_less:
  "CHR 0x00 \<notin> set xs \<Longrightarrow> CHR 0x00 \<notin> set ys \<Longrightarrow> text_compare xs ys < 0 \<longleftrightarrow> xs < ys"
proof (induction xs ys rule: text_compare.induct)
  case (2 y ys)
  then show ?case using code_pos [of y] by auto
next
  case (3 x xs)
  then show ?case using code_pos [of x] by auto
next
  case (4 x xs y ys)
  then show ?case using code_less [of x y] by (auto simp: diff_less_0_iff_less)
qed auto

definition lower :: "string \<Rightarrow> string" where
  "lower s = map tolower s"

definition plain_text :: "string \<Rightarrow> bool" where
  "plain_text s \<longleftrightarrow> CHR 0x00 \<notin> set s"

lemma compare_sgn:
  assumes "plain_text k" "plain_text n"
  shows "sgn (compare k n) = sgn (text_compare (lower k) (lower n))"
proof -
  have m: "(if length k < length n then length k else length n) = min (length k) (length n)" by simp
  show ?thesis
    using caseblind_take [OF assms [unfolded plain_text_def]]
    unfolding compare_def StrCaseBlindCompare_def static_dsc_def lower_def dsc.simps m
    by (simp only:)
qed

lemma plain_text_lower: "plain_text k \<Longrightarrow> CHR 0x00 \<notin> set (lower k)"
  by (auto simp: plain_text_def lower_def)

interpretation vars: tree_keys compare lower "\<lambda>s. s" plain_text
proof
  fix k n
  assume p: "plain_text k" "plain_text n"
  note S = compare_sgn [OF p]
  show "compare k n < 0 \<longleftrightarrow> lower k < lower n"
    using S text_compare_less [OF p [THEN plain_text_lower]] by (metis sgn_less)
  have "compare k n = 0 \<longleftrightarrow> text_compare (lower k) (lower n) = 0"
    using S by (metis sgn_0_0)
  then show "compare k n = 0 \<longleftrightarrow> lower k = lower n"
    using text_compare_0 [of "lower k" "lower n"] p [THEN plain_text_lower] by simp
qed

section \<open>Putting and getting\<close>

text \<open>
  The invariant of a block: its tree is a search tree of names that are in upper case.
\<close>

definition valid_block :: "'d block_type \<Rightarrow> bool" where
  "valid_block b \<longleftrightarrow> vars.search_tree (head b)"

definition valid_vars :: "'d tdi_vars \<Rightarrow> bool" where
  "valid_vars vars \<longleftrightarrow> valid_block (private_block vars) \<and> valid_block (public_block vars)"

text \<open>What the variables of a block are: values by lower-case name.\<close>

definition value_of :: "'d block_type \<Rightarrow> string \<Rightarrow> 'd option" where
  "value_of b name =
     (case vars.tree_map (head b) (lower name) of None \<Rightarrow> None | Some n \<Rightarrow> xds b n)"

lemma tolower_toupper [simp]: "tolower (toupper c) = tolower c"
proof (cases "97 \<le> (of_char c :: nat) \<and> (of_char c :: nat) \<le> 122")
  case True
  let ?n = "of_char c :: nat"
  have "(?n - 32) mod 256 = ?n - 32" using True by (intro mod_less) linarith
  then have u: "(of_char (toupper c) :: nat) = ?n - 32"
    using True by (simp add: toupper_def)
  have "65 \<le> ?n - 32 \<and> ?n - 32 \<le> 90" using True by linarith
  then have "tolower (toupper c) = char_of (?n - 32 + 32)"
    unfolding tolower_def u by simp
  also have "\<dots> = c" using True by simp
  also have "c = tolower c" using True by (simp add: tolower_def)
  finally show ?thesis .
next
  case False
  then have "toupper c = c" unfolding toupper_def by (rule if_not_P)
  then show ?thesis by simp
qed

lemma toupper_0 [simp]: "toupper c = CHR 0x00 \<longleftrightarrow> c = CHR 0x00"
  by (metis tolower_0 tolower_toupper)

lemma lower_upcase [simp]: "lower (map toupper s) = lower s"
  by (simp add: lower_def)

lemma plain_text_upcase [simp]: "plain_text (map toupper s) \<longleftrightarrow> plain_text s"
  by (auto simp: plain_text_def image_iff) (metis toupper_0)+

lemma lookup_value:
  assumes "valid_block b" "plain_text name"
  shows "value_of b name =
    (case LibLookupTree compare name (head b) of (st, n) \<Rightarrow> if STATUS_OK st then xds b (the n) else None)"
  using vars.lookup_tree_map [of "head b" name] assms
  by (auto simp: valid_block_def value_of_def split: option.splits)

lemma lookup_status:
  "valid_block b \<Longrightarrow> plain_text name \<Longrightarrow>
   LibLookupTree compare name (head b) = (st, n) \<Longrightarrow>
   st = LibKEYNOTFOU \<and> n = None \<or> st = MDSplusSUCCESS \<and> (\<exists>m. n = Some m)"
  using vars.lookup_tree_map [of "head b" name]
  by (cases "vars.tree_map (head b) (lower name)") (simp_all add: valid_block_def, metis)

text \<open>The text of an identifier, and which lists its operators leave to search.\<close>

fun ident_text :: "ident \<Rightarrow> string" where
  "ident_text (Ident s) = s"
| "ident_text (OPC_PUBLIC i) = ident_text i"
| "ident_text (OPC_PRIVATE i) = ident_text i"

fun searches :: "which \<Rightarrow> ident \<Rightarrow> bool" where
  "searches w (Ident s) = True"
| "searches w (OPC_PUBLIC i) = (w = Public \<and> searches w i)"
| "searches w (OPC_PRIVATE i) = (w = Private \<and> searches w i)"

lemma find_ident_text:
  "find_ident vars p q e i =
     find_ident vars (p \<and> searches Private i) (q \<and> searches Public i) e (Ident (ident_text i))"
  by (induction vars p q e i rule: find_ident.induct) (simp_all del: find_ident.simps(1))

text \<open>The list an assignment goes to.\<close>

definition target :: "ident \<Rightarrow> which option" where
  "target i = (if searches Private i then Some Private
               else if searches Public i then Some Public else None)"

lemma put_ident_cases:
  "put_ident_inner vm vars i xd =
     (case target i of
        None \<Rightarrow> None
      | Some w \<Rightarrow>
          let b = block w vars; upstr = map toupper (ident_text i)
          in case LibInsertTree (head b) upstr 0 compare (allocate vm) of
               None \<Rightarrow> None
             | Some (h, node, found) \<Rightarrow>
                 if odd found
                 then (case node of
                         None \<Rightarrow> None
                       | Some n \<Rightarrow>
                           Some (MDSplusSUCCESS, set_block w (b\<lparr>head := h, xds := (xds b)(n := xd)\<rparr>) vars))
                 else Some (Status0, set_block w (b\<lparr>head := h\<rparr>) vars))"
  unfolding put_ident_inner_def
  by (subst find_ident_text) (simp add: target_def Let_def)

lemma block_set_block [simp]:
  "block w (set_block w b vars) = b" "w \<noteq> v \<Longrightarrow> block v (set_block w b vars) = block v vars"
  by (auto simp: block_def set_block_def split: which.splits)

lemma valid_vars_block: "valid_vars vars \<longleftrightarrow> (\<forall>w. valid_block (block w vars))"
  unfolding valid_vars_def by (auto simp: block_def split: which.splits)

lemma insert_block:
  assumes "valid_block b" "plain_text name"
    and "LibInsertTree (head b) (map toupper name) 0 compare (allocate True) = Some (h, node, found)"
    and "b' = b\<lparr>head := h, xds := (xds b)(the node := xd)\<rparr>"
  shows "valid_block b' \<and> odd found \<and> node \<noteq> None
    \<and> (\<forall>m. value_of b' m = (if lower m = lower name then xd else value_of b m))"
proof -
  let ?up = "map toupper name" and ?t = "vars.tree_map (head b)"
  have alloc: "plain_text n \<and> lower n = lower ?up" if "allocate True ?up = Some n" for n
    using that assms(2) by (auto simp: allocate_def)
  have s: "vars.search_tree (head b)" "plain_text ?up" "even (0 :: nat)"
    using assms(1,2) by (simp_all add: valid_block_def)
  note I = vars.insert_tree_map [OF s alloc assms(3)]
  have unique: "lower k = lower m" if "?t (lower m) = Some k" for k m
    using vars.tree_map_Some [OF that] by simp
  show ?thesis
  proof (cases "?t (lower name)")
    case None
    then have h: "vars.search_tree h" "node = Some ?up" "found = 1"
        "vars.tree_map h = ?t(lower name \<mapsto> ?up)"
      using I by (simp_all add: allocate_def)
    have "value_of b' m = (if lower m = lower name then xd else value_of b m)" for m
    proof (cases "lower m = lower name")
      case False
      then have "k \<noteq> ?up" if "?t (lower m) = Some k" for k using unique [OF that] by auto
      then show ?thesis using False h(2,4) assms(4) by (auto simp: value_of_def split: option.splits)
    qed (use h(2,4) assms(4) in \<open>simp add: value_of_def\<close>)
    then show ?thesis using h assms(4) by (simp add: valid_block_def)
  next
    case (Some n)
    then have h: "h = head b" "node = Some n" "found = 3" using I by simp_all
    have "value_of b' m = (if lower m = lower name then xd else value_of b m)" for m
    proof (cases "lower m = lower name")
      case False
      then have "k \<noteq> n" if "?t (lower m) = Some k" for k using unique [OF that] unique [OF Some] by auto
      then show ?thesis using False h(1,2) assms(4) by (auto simp: value_of_def split: option.splits)
    qed (use h(1,2) Some assms(4) in \<open>simp add: value_of_def\<close>)
    then show ?thesis using h assms(1,4) by (simp add: valid_block_def)
  qed
qed

text \<open>The value an identifier has: the private variable, else the public one.\<close>

definition ident_value :: "'d tdi_vars \<Rightarrow> ident \<Rightarrow> 'd option" where
  "ident_value vars i =
     (case (if searches Private i then value_of (private_block vars) (ident_text i) else None) of
        Some d \<Rightarrow> Some d
      | None \<Rightarrow> if searches Public i then value_of (public_block vars) (ident_text i) else None)"

lemma lookup_live_value:
  assumes "valid_block b" "plain_text name"
  shows "\<exists>st n. lookup_live b name = (st, n) \<and> st \<in> {MDSplusSUCCESS, LibKEYNOTFOU, TdiUNKNOWN_VAR}
    \<and> (STATUS_OK st \<longleftrightarrow> value_of b name \<noteq> None)
    \<and> (STATUS_OK st \<longrightarrow> (\<exists>k. n = Some k \<and> xds b k = value_of b name))"
proof -
  obtain st n where l: "LibLookupTree compare name (head b) = (st, n)" by force
  show ?thesis
    using lookup_status [OF assms l] lookup_value [OF assms] l
    by (elim disjE) (auto simp: lookup_live_def)
qed

text \<open>
  C27: \<open>get_ident\<close> gives the value of the identifier: private before public, without regard to
  case, only the lists its operators leave; \<open>TdiUNKNOWN_VAR\<close> when there is none.
\<close>

theorem get_ident_value:
  assumes "valid_vars vars" "plain_text (ident_text i)" "target i \<noteq> None"
  shows "get_ident vars i = Some
    (case ident_value vars i of Some d \<Rightarrow> (MDSplusSUCCESS, Some d) | None \<Rightarrow> (TdiUNKNOWN_VAR, None))"
proof -
  have v: "valid_block (private_block vars)" "valid_block (public_block vars)"
    using assms(1) by (auto simp: valid_vars_def)
  obtain s1 n1 where 1: "lookup_live (private_block vars) (ident_text i) = (s1, n1)"
    "s1 \<in> {MDSplusSUCCESS, LibKEYNOTFOU, TdiUNKNOWN_VAR}"
    "STATUS_OK s1 \<longleftrightarrow> value_of (private_block vars) (ident_text i) \<noteq> None"
    "STATUS_OK s1 \<longrightarrow> (\<exists>k. n1 = Some k \<and> xds (private_block vars) k = value_of (private_block vars) (ident_text i))"
    using lookup_live_value [OF v(1) assms(2)] by blast
  obtain s2 n2 where 2: "lookup_live (public_block vars) (ident_text i) = (s2, n2)"
    "s2 \<in> {MDSplusSUCCESS, LibKEYNOTFOU, TdiUNKNOWN_VAR}"
    "STATUS_OK s2 \<longleftrightarrow> value_of (public_block vars) (ident_text i) \<noteq> None"
    "STATUS_OK s2 \<longrightarrow> (\<exists>k. n2 = Some k \<and> xds (public_block vars) k = value_of (public_block vars) (ident_text i))"
    using lookup_live_value [OF v(2) assms(2)] by blast
  show ?thesis
    using 1 2 assms(3) unfolding get_ident_def
    by (subst find_ident_text)
       (auto simp: ident_value_def target_def Let_def block_def split: option.splits if_splits)
qed


text \<open>
  C15: \<open>put_ident_inner\<close> with memory succeeds, keeps the invariant, gives the identifier the new
  value in the list it goes to and changes no other variable, in either list.
\<close>

theorem put_ident_value:
  assumes "valid_vars vars" "plain_text (ident_text i)" "target i = Some w"
  shows "\<exists>vars'. put_ident_inner True vars i xd = Some (MDSplusSUCCESS, vars') \<and> valid_vars vars'
    \<and> (\<forall>v m. value_of (block v vars') m =
          (if v = w \<and> lower m = lower (ident_text i) then xd else value_of (block v vars) m))"
proof -
  let ?b = "block w vars" and ?up = "map toupper (ident_text i)"
  have v: "valid_block ?b" using assms(1) by (simp add: valid_vars_block)
  obtain r where "LibInsertTree (head ?b) ?up 0 compare (allocate True) = Some r"
    unfolding LibInsertTree_plain by blast
  then obtain h node found where
    I: "LibInsertTree (head ?b) ?up 0 compare (allocate True) = Some (h, node, found)"
    by (cases r) auto
  define b' where "b' = ?b\<lparr>head := h, xds := (xds ?b)(the node := xd)\<rparr>"
  note B = insert_block [OF v assms(2) I b'_def]
  obtain n where "node = Some n" using B by auto
  then have "put_ident_inner True vars i xd = Some (MDSplusSUCCESS, set_block w b' vars)"
    using B I assms(3) by (simp add: put_ident_cases Let_def b'_def)
  moreover have "valid_vars (set_block w b' vars)"
    using B assms(1) unfolding valid_vars_block by (metis block_set_block)
  moreover have "value_of (block v (set_block w b' vars)) m =
      (if v = w \<and> lower m = lower (ident_text i) then xd else value_of (block v vars) m)" for v m
    using B by (cases "v = w") auto
  ultimately show ?thesis by blast
qed

definition no_vars :: "nat tdi_vars" where
  "no_vars = \<lparr>private_block = \<lparr>head = Null, xds = \<lambda>_. None\<rparr>, public_block = \<lparr>head = Null, xds = \<lambda>_. None\<rparr>\<rparr>"

lemma valid_no_vars: "valid_vars no_vars"
  by (simp add: valid_vars_def valid_block_def no_vars_def)

theorem put_ident_value_witness:
  "\<exists>vars'. put_ident_inner True no_vars (OPC_PUBLIC (Ident ''_shot'')) (Some 42) = Some (MDSplusSUCCESS, vars')
     \<and> value_of (public_block vars') ''_SHOT'' = Some 42"
proof -
  have "plain_text (ident_text (OPC_PUBLIC (Ident ''_shot'')))" "target (OPC_PUBLIC (Ident ''_shot'')) = Some Public"
    by (simp_all add: plain_text_def target_def)
  then obtain vars' where
    v: "put_ident_inner True no_vars (OPC_PUBLIC (Ident ''_shot'')) (Some 42) = Some (MDSplusSUCCESS, vars')"
      "\<forall>v m. value_of (block v vars') m = (if v = Public \<and> lower m = lower ''_shot'' then Some 42
                                          else value_of (block v no_vars) m)"
    using put_ident_value [OF valid_no_vars, of "OPC_PUBLIC (Ident ''_shot'')" Public "Some 42"] by auto
  have "lower ''_SHOT'' = lower ''_shot''" by code_simp
  then have "value_of (block Public vars') ''_SHOT'' = Some 42" using v(2) by simp
  then show ?thesis using v(1) by (auto simp: block_def)
qed

theorem get_ident_value_witness:
  "get_ident no_vars (Ident ''_x'') = Some (TdiUNKNOWN_VAR, None)"
  using get_ident_value [OF valid_no_vars, of "Ident ''_x''"]
  by (simp add: plain_text_def target_def ident_value_def value_of_def no_vars_def)

text \<open>
  C38: An assignment to \<open>PRIVATE(PUBLIC(_x))\<close> or the reverse has no list left to search and
  follows a null block.
\<close>

theorem put_ident_null_block:
  "put_ident_inner vm vars (OPC_PRIVATE (OPC_PUBLIC i)) xd = None
   \<and> put_ident_inner vm vars (OPC_PUBLIC (OPC_PRIVATE i)) xd = None"
  by (simp add: put_ident_cases target_def)

section \<open>Releasing by pattern\<close>

lemma StrMatchWild_static:
  "STATUS_OK (StrMatchWild (static_dsc c) (static_dsc p)) \<longleftrightarrow> glob p c"
  by (simp add: StrMatchWild_glob static_dsc_def)

lemma visit_free_one:
  assumes "pat \<noteq> []"
  shows "distinct ns \<Longrightarrow> visit (free_one pat) (xd, count) ns =
    (MDSplusSUCCESS, (\<lambda>n. if n \<in> set ns \<and> glob pat n then None else xd n),
     count + length (filter (\<lambda>n. glob pat n \<and> xd n \<noteq> None) ns))"
proof (induction ns arbitrary: xd count)
  case (Cons n ns)
  have e: "filter (\<lambda>m. glob pat m \<and> (xd(n := None)) m \<noteq> None) ns = filter (\<lambda>m. glob pat m \<and> xd m \<noteq> None) ns"
    using Cons.prems by (intro filter_cong) auto
  show ?case
    using Cons assms e StrMatchWild_static [of n pat]
    by (auto simp: free_one_def Let_def fun_eq_iff)
qed simp

lemma distinct_names: "valid_block b \<Longrightarrow> distinct (nodes (head b))"
proof -
  assume "valid_block b"
  then have "sorted_wrt (<) (map lower (nodes (head b)))"
    by (simp add: valid_block_def vars.search_tree_def)
  then have "distinct (map lower (nodes (head b)))" using strict_sorted_iff by blast
  then show ?thesis by (simp add: distinct_map)
qed

lemma strstr_char: "strstr s [c] = None \<longleftrightarrow> c \<notin> set s"
  by (induction s) auto

lemma cstring_plain: "plain_text s \<Longrightarrow> cstring (s @ [CHR 0x00]) = s"
  by (induction s) (auto simp: cstring_def plain_text_def)

lemma occurs_char:
  "plain_text s \<Longrightarrow> c \<noteq> CHR 0x00 \<Longrightarrow> occurs (static_dsc s) (static_dsc [c]) \<longleftrightarrow> c \<in> set s"
  using strstr_char [of s c] cstring_plain [of s] cstring_plain [of "[c]"]
  by (auto simp: occurs_def StrPosition_def static_dsc_def MdsDescrToCstring_def plain_text_def
        split: option.splits)

text \<open>
  C28: \<open>wild_loop\<close> with a pattern releases exactly the variables of the chosen list whose names
  the pattern, in upper case, describes, counts those that had data, and leaves the names and
  the other list alone.
\<close>

theorem wild_loop_releases:
  assumes "valid_vars vars" "target i = Some w" "plain_text (ident_text i)"
    and "pat = map toupper (ident_text i)" "CHR ''*'' \<in> set pat \<or> CHR ''%'' \<in> set pat"
  shows "wild_loop vars count i = Some (MDSplusSUCCESS,
    set_block w ((block w vars)
      \<lparr>xds := \<lambda>n. if n \<in> set (nodes (head (block w vars))) \<and> glob pat n then None else xds (block w vars) n\<rparr>) vars,
    count + length (filter (\<lambda>n. glob pat n \<and> xds (block w vars) n \<noteq> None) (nodes (head (block w vars)))))"
proof -
  have "valid_block (block w vars)" using assms(1) by (simp add: valid_vars_block)
  note V = visit_free_one [of pat, OF _ distinct_names [OF this]]
  have ne: "pat \<noteq> []" using assms(5) by auto
  have "plain_text pat" using assms(3,4) by simp
  then have wild: "occurs (static_dsc pat) (static_dsc ''*'') \<or> occurs (static_dsc pat) (static_dsc ''%'')"
    using occurs_char [of pat] assms(5) by auto
  have find: "find_ident vars True True False i = (MDSplusSUCCESS, ident_text i, Some w, None)"
    using assms(2) by (subst find_ident_text) (auto simp: target_def split: if_splits)
  show ?thesis
    using find wild
    by (auto simp: wild_loop_def Let_def LibTraverseTree_visit V [OF ne] simp flip: assms(4))
qed

definition two_vars :: "nat tdi_vars" where
  "two_vars = no_vars\<lparr>private_block :=
     \<lparr>head = Node Null ''_A1'' 0 (Node Null ''_B1'' 0 Null), xds = \<lambda>_. Some 7\<rparr>\<rparr>"

theorem wild_loop_releases_witness:
  "\<exists>vars'. wild_loop two_vars 0 (Ident ''_a*'') = Some (MDSplusSUCCESS, vars', 1)
     \<and> xds (private_block vars') ''_A1'' = None \<and> xds (private_block vars') ''_B1'' = Some 7"
proof -
  have l: "lower ''_A1'' < lower ''_B1''"
    by code_simp
  then have v: "valid_vars two_vars"
    by (simp add: valid_vars_def valid_block_def two_vars_def no_vars_def vars.search_tree_def plain_text_def)
  have up: "toupper CHR ''_'' = CHR ''_''" "toupper CHR ''a'' = CHR ''A''" "toupper CHR ''*'' = CHR ''*''"
    by code_simp+
  have p: "plain_text ''_a*''" by (simp add: plain_text_def)
  let ?new = "\<lambda>n. if n \<in> set (nodes (head (block Private two_vars))) \<and> glob ''_A*'' n then None
                  else xds (block Private two_vars) n"
  have "wild_loop two_vars 0 (Ident ''_a*'') = Some (MDSplusSUCCESS,
      set_block Private ((block Private two_vars)\<lparr>xds := ?new\<rparr>) two_vars,
      0 + length (filter (\<lambda>n. glob ''_A*'' n \<and> xds (block Private two_vars) n \<noteq> None)
                    (nodes (head (block Private two_vars)))))"
    using p up by (intro wild_loop_releases [OF v]) (simp_all add: target_def)
  then show ?thesis by (simp add: two_vars_def block_def set_block_def)
qed

end
