(* ===== verification/TreeNci.thy ===== *)
theory TreeNci
  imports Prelude
begin

text \<open>
  The node characteristics of a tree (\<open>NCI\<close> in \<open>treeshrp.h\<close>) and their two external forms: the
  42-byte record of the characteristics file (\<open>TreeSerializeNci.c\<close>) and the six-byte file
  address \<open>RFA\<close> of a data record (\<open>RfaToSeek\<close> and \<open>SeekToRfa\<close> in \<open>TreeGetNci.c\<close>).
  A buffer is the list of its bytes; the pointer that the \<open>get...\<close> and \<open>put...\<close> helpers advance
  is the rest of the list.
\<close>

section \<open>Bytes of an integer, little endian\<close>

definition le_bytes :: "nat \<Rightarrow> 'a::len word \<Rightarrow> u8 list" where
  "le_bytes n w = map (\<lambda>i. ucast (drop_bit (8 * i) w)) [0..<n]"

fun le_word :: "u8 list \<Rightarrow> 'a::len word" where
  "le_word [] = 0"
| "le_word (b # bs) = ucast b OR push_bit 8 (le_word bs)"

lemma length_le_bytes [simp]: "length (le_bytes n w) = n"
  by (simp add: le_bytes_def)

lemma bit_le_word:
  "bit (le_word bs :: 'a::len word) k \<longleftrightarrow>
     k < LENGTH('a) \<and> k div 8 < length bs \<and> bit (bs ! (k div 8)) (k mod 8)"
proof (induction bs arbitrary: k)
  case (Cons b bs)
  show ?case
  proof (cases "k < 8")
    case True
    then show ?thesis by (auto simp: bit_simps)
  next
    case False
    then obtain j where j: "k = 8 + j" by (metis le_iff_add not_less)
    then have "k div 8 = Suc (j div 8)" "k mod 8 = j mod 8" by simp_all
    with j show ?thesis
      using Cons.IH [of j] bit_imp_le_length [of b k] by (auto simp: bit_simps)
  qed
qed simp

lemma le_word_bytes [simp]:
  assumes "LENGTH('a) = 8 * n"
  shows "le_word (le_bytes n w) = (w :: 'a::len word)"
proof (rule bit_word_eqI)
  fix k assume "k < LENGTH('a)"
  then show "bit (le_word (le_bytes n w) :: 'a word) k = bit w k"
    using assms less_mult_imp_div_less [of k n 8] mod_less_divisor [of 8 k]
    by (simp add: bit_le_word le_bytes_def bit_simps ac_simps del: mod_less_divisor)
qed

lemma le_bytes_word [simp]:
  assumes "length bs = n" "LENGTH('a) = 8 * n"
  shows "le_bytes n (le_word bs :: 'a::len word) = bs"
proof (rule nth_equalityI)
  fix i assume "i < length (le_bytes n (le_word bs :: 'a word))"
  then have i: "i < n" by simp
  show "le_bytes n (le_word bs :: 'a word) ! i = bs ! i"
  proof (rule bit_word_eqI)
    fix k assume k: "k < LENGTH(8)"
    then have "(8 * i + k) div 8 = i" "(8 * i + k) mod 8 = k" by simp_all
    moreover have "8 * i + k < LENGTH('a)" using i k assms by simp
    ultimately show "bit (le_bytes n (le_word bs :: 'a word) ! i) k = bit (bs ! i) k"
      using i k assms by (simp add: le_bytes_def bit_simps bit_le_word add.commute)
  qed
qed (simp add: assms)

section \<open>The characteristics of a node\<close>

text \<open>
  \<open>DATA_INFO\<close> is a union of three structures, kept as its twelve bytes: the accessors below
  are its members. \<open>nci_fill\<close> is the padding byte of the structure, which no file holds.
\<close>

record NCI =
  flags :: u32
  flags2 :: u8
  spare :: u8
  time_inserted :: "64 word"
  owner_identifier :: u32
  nci_class :: u8
  nci_dtype :: u8
  nci_length :: u32
  compression_method :: u8
  nci_status :: u32
  DATA_INFO :: "u8 list"
  nci_fill :: u8

text \<open>The structure after \<open>memset\<close> with zeros.\<close>

definition empty_nci :: NCI where
  "empty_nci =
     \<lparr>flags = 0, flags2 = 0, spare = 0, time_inserted = 0, owner_identifier = 0, nci_class = 0,
      nci_dtype = 0, nci_length = 0, compression_method = 0, nci_status = 0,
      DATA_INFO = replicate 12 0, nci_fill = 0\<rparr>"

definition NciM_DATA_IN_ATT_BLOCK :: u8 where "NciM_DATA_IN_ATT_BLOCK = 1"
definition NciM_ERROR_ON_PUT :: u8 where "NciM_ERROR_ON_PUT = 2"

definition file_level :: "u8 list \<Rightarrow> u8" where "file_level u = u ! 0"
definition file_version :: "u8 list \<Rightarrow> u8" where "file_version u = u ! 1"
definition rfa :: "u8 list \<Rightarrow> u8 list" where "rfa u = take 6 (drop 2 u)"
definition record_length :: "u8 list \<Rightarrow> u32" where "record_length u = le_word (take 4 (drop 8 u))"
definition element_length :: "u8 list \<Rightarrow> u8" where "element_length u = u ! 0"
definition record_data :: "u8 list \<Rightarrow> u8 list" where "record_data u = take 11 (drop 1 u)"
definition error_status :: "u8 list \<Rightarrow> u32" where "error_status u = le_word (take 4 u)"
definition stv :: "u8 list \<Rightarrow> u32" where "stv u = le_word (take 4 (drop 4 u))"

section \<open>The record of the characteristics file\<close>

definition putint8 :: "u8 \<Rightarrow> u8 list" where "putint8 x = [x]"
definition putint32 :: "u32 \<Rightarrow> u8 list" where "putint32 x = le_bytes 4 x"
definition putint64 :: "64 word \<Rightarrow> u8 list" where "putint64 x = le_bytes 8 x"
definition putchars :: "u8 list \<Rightarrow> nat \<Rightarrow> u8 list" where "putchars x n = take n x"

definition getint8 :: "u8 list \<Rightarrow> u8 \<times> u8 list" where
  "getint8 buf = (buf ! 0, drop 1 buf)"
definition getint32 :: "u8 list \<Rightarrow> u32 \<times> u8 list" where
  "getint32 buf = (le_word (take 4 buf), drop 4 buf)"
definition getint64 :: "u8 list \<Rightarrow> 64 word \<times> u8 list" where
  "getint64 buf = (le_word (take 8 buf), drop 8 buf)"
definition getchars :: "nat \<Rightarrow> u8 list \<Rightarrow> u8 list \<times> u8 list" where
  "getchars n buf = (take n buf, drop n buf)"

definition TreeSerializeNciOut :: "NCI \<Rightarrow> u8 list" where
  "TreeSerializeNciOut inp =
     (let u = DATA_INFO inp;
          bytes = putint32 (flags inp) @ putint8 (flags2 inp) @ putint8 (spare inp)
            @ putint64 (time_inserted inp) @ putint32 (owner_identifier inp)
            @ putint8 (nci_class inp) @ putint8 (nci_dtype inp) @ putint32 (nci_length inp)
            @ putint8 (compression_method inp) @ putint32 (nci_status inp)
            @ (if flags2 inp AND NciM_DATA_IN_ATT_BLOCK \<noteq> 0
               then putint8 (element_length u) @ putchars (record_data u) 11
               else if flags2 inp AND NciM_ERROR_ON_PUT \<noteq> 0
               then putint32 (error_status u) @ putint32 (stv u)
               else putint8 (file_level u) @ putint8 (file_version u) @ putchars (rfa u) 6
                    @ putint32 (record_length u))
      in bytes @ drop (length bytes) (replicate 42 0))"

definition TreeSerializeNciIn :: "u8 list \<Rightarrow> NCI \<Rightarrow> NCI" where
  "TreeSerializeNciIn inp out =
     (let (f, p) = getint32 inp; (f2, p) = getint8 p; (sp, p) = getint8 p;
          (ti, p) = getint64 p; (ow, p) = getint32 p; (cl, p) = getint8 p;
          (dt, p) = getint8 p; (ln, p) = getint32 p; (cm, p) = getint8 p;
          (st, p) = getint32 p;
          u = (if f2 AND NciM_DATA_IN_ATT_BLOCK \<noteq> 0
               then let (el, p) = getint8 p; (da, p) = getchars 11 p in el # da
               else if f2 AND NciM_ERROR_ON_PUT \<noteq> 0
               then let (es, p) = getint32 p; (sv, p) = getint32 p
                    in le_bytes 4 es @ le_bytes 4 sv @ drop 8 (DATA_INFO out)
               else let (fl, p) = getint8 p; (fv, p) = getint8 p; (ra, p) = getchars 6 p;
                        (rl, p) = getint32 p
                    in [fl, fv] @ ra @ le_bytes 4 rl)
      in \<lparr>flags = f, flags2 = f2, spare = sp, time_inserted = ti, owner_identifier = ow,
          nci_class = cl, nci_dtype = dt, nci_length = ln, compression_method = cm,
          nci_status = st, DATA_INFO = u, nci_fill = nci_fill out\<rparr>)"

section \<open>File addresses\<close>

text \<open>
  \<open>RfaToSeek\<close> reads a byte offset off a record file address: a block number from 1 in the first
  four bytes, the nine bits of the offset inside the block of 512 bytes in the last two.
\<close>

definition RfaToSeek :: "u8 list \<Rightarrow> 64 word" where
  "RfaToSeek r =
     (push_bit 9 (ucast (r ! 0)) OR push_bit 17 (ucast (r ! 1)) OR push_bit 25 (ucast (r ! 2))
      OR push_bit 33 (ucast (r ! 3)) OR ucast (r ! 4) OR push_bit 8 (ucast (r ! 5 AND 1))) - 512"

definition SeekToRfa :: "64 word \<Rightarrow> u8 list" where
  "SeekToRfa seek =
     (let tmp = seek + 512
      in [ucast (drop_bit 9 tmp), ucast (drop_bit 17 tmp), ucast (drop_bit 25 tmp),
          ucast (drop_bit 33 tmp), ucast tmp, ucast (drop_bit 8 tmp) AND 1])"


section \<open>Round trips\<close>

lemmas nci_io = putint8_def putint32_def putint64_def putchars_def
  getint8_def getint32_def getint64_def getchars_def

lemmas nci_union = file_level_def file_version_def rfa_def record_length_def element_length_def
  record_data_def error_status_def stv_def

lemma union_bytes:
  assumes "length u = 12"
  obtains a b c d e f g h i j k l where "u = [a, b, c, d, e, f, g, h, i, j, k, l]"
  using assms by (auto simp: length_Suc_conv numeral_eq_Suc)

text \<open>
  C37: A record read back is the record written: whatever its flags, \<open>TreeSerializeNciIn\<close>
  recovers every field of the characteristics that \<open>TreeSerializeNciOut\<close> wrote to its 42
  bytes, except that an error record holds only the first eight bytes of the union, and the
  padding of the structure read into stays.
\<close>

theorem TreeSerializeNci_roundtrip:
  assumes "length (DATA_INFO n) = 12"
  shows "length (TreeSerializeNciOut n) = 42 \<and>
    TreeSerializeNciIn (TreeSerializeNciOut n) out =
      n\<lparr>nci_fill := nci_fill out,
        DATA_INFO := (if flags2 n AND NciM_DATA_IN_ATT_BLOCK = 0 \<and> flags2 n AND NciM_ERROR_ON_PUT \<noteq> 0
                      then take 8 (DATA_INFO n) @ drop 8 (DATA_INFO out) else DATA_INFO n)\<rparr>"
proof -
  obtain a b c d e f g h i j k l where u: "DATA_INFO n = [a, b, c, d, e, f, g, h, i, j, k, l]"
    using assms by (rule union_bytes)
  show ?thesis
    by (cases n) (use u in \<open>simp add: TreeSerializeNciOut_def TreeSerializeNciIn_def nci_io nci_union Let_def del: le_word.simps\<close>)
qed


text \<open>No characteristics lose their record: a record that is read and written again is the
  same record, up to the bytes after its last field, which are written as zeros (from byte 41,
  or 37 in an error record).\<close>

theorem TreeSerializeNci_rewrite:
  assumes "length b = 42"
  shows "TreeSerializeNciOut (TreeSerializeNciIn b out) =
    (let used = (if b ! 4 AND NciM_DATA_IN_ATT_BLOCK = 0 \<and> b ! 4 AND NciM_ERROR_ON_PUT \<noteq> 0
                 then 37 else 41)
     in take used b @ replicate (42 - used) 0)"
proof -
  have split: "\<exists>p q. xs = p @ q \<and> length p = k \<and> length q = length xs - k"
    if "k \<le> length xs" for k and xs :: "u8 list"
    using that by (intro exI [of _ "take k xs"] exI [of _ "drop k xs"]) simp
  have cons: "\<exists>x q. xs = x # q \<and> length q = length xs - 1" if "1 \<le> length xs" for xs :: "u8 list"
    using that by (cases xs) auto
  obtain p1 r1 where 1: "b = p1 @ r1" "length p1 = 4" "length r1 = 38"
    using split [of 4 b] assms by auto
  obtain x2 r2 where 2: "r1 = x2 # r2" "length r2 = 37" using cons [of r1] 1 by auto
  obtain x3 r3 where 3: "r2 = x3 # r3" "length r3 = 36" using cons [of r2] 2 by auto
  obtain p4 r4 where 4: "r3 = p4 @ r4" "length p4 = 8" "length r4 = 28"
    using split [of 8 r3] 3 by auto
  obtain p5 r5 where 5: "r4 = p5 @ r5" "length p5 = 4" "length r5 = 24"
    using split [of 4 r4] 4 by auto
  obtain x6 r6 where 6: "r5 = x6 # r6" "length r6 = 23" using cons [of r5] 5 by auto
  obtain x7 r7 where 7: "r6 = x7 # r7" "length r7 = 22" using cons [of r6] 6 by auto
  obtain p8 r8 where 8: "r7 = p8 @ r8" "length p8 = 4" "length r8 = 18"
    using split [of 4 r7] 7 by auto
  obtain x9 r9 where 9: "r8 = x9 # r9" "length r9 = 17" using cons [of r8] 8 by auto
  obtain p10 r10 where 10: "r9 = p10 @ r10" "length p10 = 4" "length r10 = 13"
    using split [of 4 r9] 9 by auto
  obtain u z where u: "r10 = u @ [z]" "length u = 12"
    using split [of 12 r10] 10 by (auto simp: length_Suc_conv)
  obtain a b c d e f g h i j k l where "u = [a, b, c, d, e, f, g, h, i, j, k, l]"
    using u(2) by (rule union_bytes)
  with 1 2 3 4 5 6 7 8 9 10 u show ?thesis
    by (simp add: TreeSerializeNciOut_def TreeSerializeNciIn_def nci_io nci_union Let_def nth_append
          del: le_word.simps)
qed

lemma byte_at:
  "bit (push_bit n (ucast (ucast (drop_bit n w) :: u8)) :: 64 word) k \<longleftrightarrow>
     n \<le> k \<and> k < n + 8 \<and> k < 64 \<and> bit (w :: 64 word) k"
  by (auto simp: bit_simps)

lemma lowest_byte: "bit (ucast (ucast w :: u8) :: 64 word) k \<longleftrightarrow> k < 8 \<and> bit (w :: 64 word) k"
  by (auto simp: bit_simps)

lemma ninth_bit:
  "bit (push_bit 8 (ucast (ucast (drop_bit 8 w) AND (1 :: u8))) :: 64 word) k \<longleftrightarrow>
     k = 8 \<and> bit (w :: 64 word) k"
  by (auto simp: bit_simps)

text \<open>
  A file offset survives its address: for every offset below \<open>2 ^ 41 - 512\<close> (two tebibytes)
  the six bytes \<open>SeekToRfa\<close> makes of it are the address \<open>RfaToSeek\<close> reads back as that offset.
\<close>

theorem RfaToSeek_SeekToRfa:
  assumes "seek < 2 ^ 41 - 512"
  shows "length (SeekToRfa seek) = 6 \<and> RfaToSeek (SeekToRfa seek) = seek"
proof -
  define tmp where "tmp = seek + 512"
  have "unat seek < 2 ^ 41 - 512" using assms by (simp add: word_less_nat_alt)
  then have "unat tmp < 2 ^ 41" unfolding tmp_def by (subst unat_add_lem [THEN iffD1]) simp_all
  then have "take_bit 41 (unat tmp) = unat tmp" by (rule take_bit_nat_eq_self)
  then have high: "k < 41" if "bit tmp k" for k
  proof -
    have "bit (take_bit 41 (unat tmp)) k"
      using \<open>take_bit 41 (unat tmp) = unat tmp\<close> that bit_imp_le_length [OF that]
      by (simp add: bit_unsigned_iff)
    then show ?thesis by (simp add: bit_take_bit_iff)
  qed
  have "(push_bit 9 (ucast (ucast (drop_bit 9 tmp) :: u8)) OR push_bit 17 (ucast (ucast (drop_bit 17 tmp) :: u8))
     OR push_bit 25 (ucast (ucast (drop_bit 25 tmp) :: u8)) OR push_bit 33 (ucast (ucast (drop_bit 33 tmp) :: u8))
     OR ucast (ucast tmp :: u8) OR push_bit 8 (ucast (ucast (drop_bit 8 tmp) AND (1 :: u8)))) = tmp"
  proof (rule bit_word_eqI)
    fix k assume "k < LENGTH(64)"
    show "bit (push_bit 9 (ucast (ucast (drop_bit 9 tmp) :: u8)) OR push_bit 17 (ucast (ucast (drop_bit 17 tmp) :: u8))
       OR push_bit 25 (ucast (ucast (drop_bit 25 tmp) :: u8)) OR push_bit 33 (ucast (ucast (drop_bit 33 tmp) :: u8))
       OR ucast (ucast tmp :: u8) OR push_bit 8 (ucast (ucast (drop_bit 8 tmp) AND (1 :: u8))) :: 64 word) k
       = bit tmp k"
      using high [of k] \<open>k < LENGTH(64)\<close>
      by (simp only: bit_or_iff byte_at lowest_byte ninth_bit) linarith
  qed
  then show ?thesis by (simp add: RfaToSeek_def SeekToRfa_def Let_def flip: tmp_def) (simp add: tmp_def)
qed


lemma TreeSerializeNci_rewrite_witness:
  "TreeSerializeNciOut (TreeSerializeNciIn (replicate 42 7) empty_nci) = replicate 41 7 @ [0]"
  using TreeSerializeNci_rewrite [of "replicate 42 7" empty_nci]
  by (simp add: replicate_numeral NciM_DATA_IN_ATT_BLOCK_def)

lemma TreeSerializeNci_roundtrip_witness:
  "\<exists>n out. TreeSerializeNciIn (TreeSerializeNciOut n) out = n\<lparr>nci_fill := nci_fill out\<rparr> \<and> flags2 n = 1"
proof (intro exI conjI)
  let ?n = "\<lparr>flags = 5, flags2 = 1, spare = 0, time_inserted = 9, owner_identifier = 3,
    nci_class = 1, nci_dtype = 14, nci_length = 11, compression_method = 0, nci_status = 1,
    DATA_INFO = replicate 12 65, nci_fill = 0\<rparr>"
  show "TreeSerializeNciIn (TreeSerializeNciOut ?n) ?n = ?n\<lparr>nci_fill := nci_fill ?n\<rparr>"
    using TreeSerializeNci_roundtrip [of ?n ?n]
    by (simp add: NciM_DATA_IN_ATT_BLOCK_def del: replicate.simps)
qed simp

lemma RfaToSeek_SeekToRfa_witness: "RfaToSeek (SeekToRfa 1000000) = 1000000"
  using RfaToSeek_SeekToRfa [of 1000000] by simp

end
