(* ===== verification/TreeNodes.thy ===== *)
theory TreeNodes
  imports TreeNci StrRoutines
begin

text \<open>
  The nodes of a tree (\<open>treeshrp.h\<close>): a pool of \<open>NODE\<close> structures that are linked by byte offsets
  from the linking node to the linked one, and the node identifiers (\<open>NID\<close>) that name a node of
  the main tree or of a subtree. A tree block is a \<open>TREE_INFO\<close>; the database is a chain of them,
  the main tree first. A node pointer is the position of a tree in the chain with an index in the
  pool of the tree; the null pointer is \<open>None\<close>. The edit operations work on the main tree only
  and call the navigation functions without a database: for them a pointer is an index.
\<close>

section \<open>The data of a tree\<close>

record NODE =
  name :: string
  parent :: int
  member :: int
  brother :: int
  child :: int
  usage :: nat
  conglomerate_elt :: u16
  tag_link :: int

record TAG_INFO =
  tag_name :: string
  node_idx :: nat
  next_tag :: int

record TREE_HEADER =
  sort_children :: bool
  sort_members :: bool
  readonly :: bool
  free :: int
  tags :: nat
  externals :: nat
  nodes :: nat

record TREE_EDIT =
  node_vm_size :: nat
  tags_pages :: nat
  tag_info_pages :: nat
  external_pages :: nat
  nci :: "nat \<Rightarrow> NCI"
  first_in_mem :: nat
  conglomerate_size :: u16
  conglomerate_index :: u16
  conglomerate_setup :: bool
  deleted_nid_list :: "u32 list"

text \<open>
  The pool of nodes is a function of the index, the arrays of the tags and of the subtree references
  are the lists of their elements in use. \<open>tag_index\<close> is the array the code calls \<open>tags\<close> there, and
  \<open>nci_file\<close> is the content of the characteristics file, record by record.
\<close>

record TREE_INFO =
  treenam :: string
  header :: TREE_HEADER
  node :: "nat \<Rightarrow> NODE"
  tag_index :: "nat list"
  tag_info :: "TAG_INFO list"
  external :: "nat list"
  root :: nat
  edit :: "TREE_EDIT option"
  nci_file :: "nat \<Rightarrow> u8 list"

type_synonym node_ptr = "nat \<times> nat"

text \<open>\<open>delete_list\<close> is \<open>None\<close> when the pointer is null.\<close>

record PINO_DATABASE =
  tree_info :: TREE_INFO
  next_info :: "TREE_INFO list"
  default_node :: node_ptr
  open_tree :: bool
  open_for_edit :: bool
  modified :: bool
  setup_info :: bool
  delete_list_vm :: nat
  delete_list :: "u8 list option"

text \<open>The structures as \<open>calloc\<close> and \<open>memset\<close> leave them.\<close>

definition zero_node :: NODE where
  "zero_node =
     \<lparr>name = replicate 12 (CHR 0x00), parent = 0, member = 0, brother = 0, child = 0, usage = 0,
      conglomerate_elt = 0, tag_link = 0\<rparr>"

definition zero_header :: TREE_HEADER where
  "zero_header =
     \<lparr>sort_children = False, sort_members = False, readonly = False, free = 0, tags = 0,
      externals = 0, nodes = 0\<rparr>"

definition zero_edit :: TREE_EDIT where
  "zero_edit =
     \<lparr>node_vm_size = 0, tags_pages = 0, tag_info_pages = 0, external_pages = 0, nci = (\<lambda>_. empty_nci),
      first_in_mem = 0, conglomerate_size = 0, conglomerate_index = 0, conglomerate_setup = False,
      deleted_nid_list = []\<rparr>"

definition zero_info :: "string \<Rightarrow> TREE_INFO" where
  "zero_info tree =
     \<lparr>treenam = tree, header = zero_header, node = (\<lambda>_. zero_node), tag_index = [], tag_info = [],
      external = [], root = 0, edit = None, nci_file = (\<lambda>_. [])\<rparr>"

definition edit_slot :: "TREE_INFO \<Rightarrow> PINO_DATABASE" where
  "edit_slot info =
     \<lparr>tree_info = info, next_info = [], default_node = (0, root info), open_tree = True,
      open_for_edit = True, modified = False, setup_info = False, delete_list_vm = 0,
      delete_list = None\<rparr>"

definition infos :: "PINO_DATABASE \<Rightarrow> TREE_INFO list" where
  "infos db = tree_info db # next_info db"

definition IS_OPEN_FOR_EDIT :: "PINO_DATABASE \<Rightarrow> bool" where
  "IS_OPEN_FOR_EDIT db \<longleftrightarrow> open_tree db \<and> open_for_edit db"

definition TreeUSAGE_ANY :: nat where "TreeUSAGE_ANY = 0"
definition TreeUSAGE_STRUCTURE :: nat where "TreeUSAGE_STRUCTURE = 1"
definition TreeUSAGE_SUBTREE :: nat where "TreeUSAGE_SUBTREE = 11"
definition TreeUSAGE_MAXIMUM :: nat where "TreeUSAGE_MAXIMUM = 13"
definition TreeUSAGE_SUBTREE_REF :: nat where "TreeUSAGE_SUBTREE_REF = 14"
definition TreeUSAGE_SUBTREE_TOP :: nat where "TreeUSAGE_SUBTREE_TOP = 15"

section \<open>Links: byte offsets between nodes\<close>

text \<open>\<open>sizeof(NODE)\<close>, the structure being packed.\<close>

definition NODE_SIZE :: int where
  "NODE_SIZE = 12 + 4 * 4 + 1 + 2 + 1 + 4"

definition node_offset :: "nat option \<Rightarrow> nat option \<Rightarrow> int" where
  "node_offset a b =
     (case (a, b) of (Some i, Some j) \<Rightarrow> (int i - int j) * NODE_SIZE | _ \<Rightarrow> 0)"

text \<open>The node \<open>off\<close> bytes from node \<open>i\<close> of a pool.\<close>

definition at_offset :: "nat \<Rightarrow> int \<Rightarrow> nat" where
  "at_offset i off = nat (int i + off div NODE_SIZE)"

section \<open>Node identifiers\<close>

definition nid_node :: "u32 \<Rightarrow> nat" where
  "nid_node nid = unat (take_bit 24 nid)"

definition nid_tree :: "u32 \<Rightarrow> nat" where
  "nid_tree nid = unat (drop_bit 24 nid)"

definition make_nid :: "nat \<Rightarrow> nat \<Rightarrow> u32" where
  "make_nid tree n = push_bit 24 (of_nat tree) OR take_bit 24 (of_nat n)"

definition nid_to_node :: "PINO_DATABASE \<Rightarrow> u32 \<Rightarrow> node_ptr option" where
  "nid_to_node db nid =
     (if nid_tree nid < length (infos db)
        \<and> nid_node nid \<le> nodes (header (infos db ! nid_tree nid))
      then Some (nid_tree nid, nid_node nid) else None)"

text \<open>
  The trees are distinct memory blocks, so a node lies in the pool of the tree of its pointer,
  and in no other. The pool test of the code lets the node after the last one pass.
\<close>

fun find_tree :: "TREE_INFO list \<Rightarrow> nat \<Rightarrow> node_ptr \<Rightarrow> nat option" where
  "find_tree [] t p = None"
| "find_tree (info # rest) t p =
     (if fst p = t \<and> snd p \<le> nodes (header info) then Some t else find_tree rest (Suc t) p)"

definition node_to_nid :: "PINO_DATABASE \<Rightarrow> node_ptr \<Rightarrow> u32" where
  "node_to_nid db p =
     (case find_tree (infos db) 0 p of
        Some t \<Rightarrow> make_nid t (snd p)
      | None \<Rightarrow> 0)"

definition nid_to_tree_idx :: "PINO_DATABASE \<Rightarrow> u32 \<Rightarrow> nat option \<times> nat" where
  "nid_to_tree_idx db nid =
     (if nid_tree nid < length (infos db)
        \<and> nid_node nid \<le> nodes (header (infos db ! nid_tree nid))
      then (Some (nid_tree nid), nid_node nid) else (None, 0))"

section \<open>Navigation\<close>

definition node_at :: "PINO_DATABASE \<Rightarrow> node_ptr \<Rightarrow> NODE" where
  "node_at db p = node (infos db ! fst p) (snd p)"

definition linked_node :: "node_ptr \<Rightarrow> int \<Rightarrow> node_ptr" where
  "linked_node p off = (fst p, at_offset (snd p) off)"

definition parent_of :: "PINO_DATABASE \<Rightarrow> node_ptr option \<Rightarrow> node_ptr option" where
  "parent_of db a =
     (case a of
        None \<Rightarrow> None
      | Some p \<Rightarrow>
          if usage (node_at db p) = TreeUSAGE_SUBTREE_TOP
          then nid_to_node db (word_of_int (parent (node_at db p)))
          else if parent (node_at db p) \<noteq> 0
          then Some (linked_node p (parent (node_at db p)))
          else None)"

definition member_of :: "PINO_DATABASE \<Rightarrow> node_ptr option \<Rightarrow> node_ptr option" where
  "member_of db a =
     (case a of
        None \<Rightarrow> None
      | Some p \<Rightarrow> if member (node_at db p) \<noteq> 0
                   then Some (linked_node p (member (node_at db p))) else None)"

text \<open>A link to a subtree reference leads to the top node of the subtree.\<close>

definition through_ref :: "PINO_DATABASE \<Rightarrow> node_ptr option \<Rightarrow> node_ptr option" where
  "through_ref db ans =
     (case ans of
        Some p \<Rightarrow> if usage (node_at db p) = TreeUSAGE_SUBTREE_REF
                   then nid_to_node db (word_of_int (child (node_at db p))) else Some p
      | None \<Rightarrow> None)"

definition child_of :: "PINO_DATABASE \<Rightarrow> node_ptr option \<Rightarrow> node_ptr option" where
  "child_of db a =
     through_ref db
       (case a of
          None \<Rightarrow> None
        | Some p \<Rightarrow>
            if child (node_at db p) \<noteq> 0
            then if usage (node_at db p) = TreeUSAGE_SUBTREE_REF
                 then nid_to_node db (word_of_int (child (node_at db p)))
                 else Some (linked_node p (child (node_at db p)))
            else None)"

definition brother_of :: "PINO_DATABASE \<Rightarrow> node_ptr option \<Rightarrow> node_ptr option" where
  "brother_of db a =
     through_ref db
       (case a of
          None \<Rightarrow> None
        | Some p \<Rightarrow>
            if brother (node_at db p) \<noteq> 0
            then if usage (node_at db p) = TreeUSAGE_SUBTREE_TOP
                 then nid_to_node db (word_of_int (brother (node_at db p)))
                 else through_ref db (Some (linked_node p (brother (node_at db p))))
            else None)"

definition descendant_of :: "PINO_DATABASE \<Rightarrow> node_ptr option \<Rightarrow> node_ptr option" where
  "descendant_of db a =
     (case member_of db a of Some answer \<Rightarrow> Some answer | None \<Rightarrow> child_of db a)"

text \<open>The search along the brothers of a first node; it may run for ever on a cyclic list.\<close>

partial_function (option) find_brother ::
    "PINO_DATABASE \<Rightarrow> node_ptr option \<Rightarrow> node_ptr \<Rightarrow> node_ptr option option" where
  "find_brother db n a =
     (if n = None \<or> n = Some a then Some n else find_brother db (brother_of db n) a)"

definition is_member :: "PINO_DATABASE \<Rightarrow> node_ptr \<Rightarrow> bool option" where
  "is_member db a =
     (case parent_of db (Some a) of
        None \<Rightarrow> Some False
      | Some p \<Rightarrow> map_option (\<lambda>n. n = Some a) (find_brother db (member_of db (Some p)) a))"

definition TreeIsChild :: "PINO_DATABASE \<Rightarrow> node_ptr \<Rightarrow> bool option" where
  "TreeIsChild db a =
     (case parent_of db (Some a) of
        None \<Rightarrow> Some False
      | Some p \<Rightarrow> map_option (\<lambda>n. n = Some a) (find_brother db (child_of db (Some p)) a))"

definition sibling_of :: "PINO_DATABASE \<Rightarrow> node_ptr \<Rightarrow> node_ptr option option" where
  "sibling_of db a =
     (case brother_of db (Some a) of
        Some answer \<Rightarrow> Some (Some answer)
      | None \<Rightarrow>
          map_option (\<lambda>m. if m then child_of db (parent_of db (Some a)) else None) (is_member db a))"

text \<open>
  The links inside a pool: what \<open>parent_of\<close>, \<open>member_of\<close>, \<open>child_of\<close> and \<open>brother_of\<close> return when
  they are called with the null database, as the edit operations do.
\<close>

definition follow :: "nat \<Rightarrow> int \<Rightarrow> nat option" where
  "follow i off = (if off \<noteq> 0 then Some (at_offset i off) else None)"

abbreviation parent0 :: "(nat \<Rightarrow> NODE) \<Rightarrow> nat \<Rightarrow> nat option" where
  "parent0 ns i \<equiv> follow i (parent (ns i))"

abbreviation member0 :: "(nat \<Rightarrow> NODE) \<Rightarrow> nat \<Rightarrow> nat option" where
  "member0 ns i \<equiv> follow i (member (ns i))"

abbreviation child0 :: "(nat \<Rightarrow> NODE) \<Rightarrow> nat \<Rightarrow> nat option" where
  "child0 ns i \<equiv> follow i (child (ns i))"

abbreviation brother0 :: "(nat \<Rightarrow> NODE) \<Rightarrow> nat \<Rightarrow> nat option" where
  "brother0 ns i \<equiv> follow i (brother (ns i))"


section \<open>Offsets and identifiers\<close>

lemma NODE_SIZE_pos [simp]: "0 < NODE_SIZE" "NODE_SIZE \<noteq> 0"
  by (simp_all add: NODE_SIZE_def)

lemma node_offset_None [simp]: "node_offset None b = 0" "node_offset a None = 0"
  by (simp_all add: node_offset_def split: option.splits)

lemma node_offset_eq_0 [simp]: "node_offset (Some j) (Some i) = 0 \<longleftrightarrow> i = j"
  by (auto simp: node_offset_def)

lemma minus_node_offset: "- node_offset (Some j) (Some i) = node_offset (Some i) (Some j)"
  by (simp add: node_offset_def algebra_simps)

lemma at_node_offset [simp]: "at_offset i (node_offset (Some j) (Some i)) = j"
  by (simp add: at_offset_def node_offset_def)

lemma follow_node_offset [simp]: "i \<noteq> j \<Longrightarrow> follow i (node_offset (Some j) (Some i)) = Some j"
  by (simp add: follow_def)

lemma follow_0 [simp]: "follow i 0 = None"
  by (simp add: follow_def)

lemma follow_eq_None [simp]: "follow i off = None \<longleftrightarrow> off = 0"
  by (simp add: follow_def)

lemma follow_offset_opt:
  "b \<noteq> Some i \<Longrightarrow> follow i (node_offset b (Some i)) = b"
  by (cases b) auto

lemma unat_tree_part:
  assumes "t < 256" "n < 2 ^ 24"
  shows "nid_tree (make_nid t n) = t" and "nid_node (make_nid t n) = n"
proof -
  have n: "take_bit 24 (of_nat n :: u32) = of_nat n"
    using assms by (subst take_bit_of_nat) (simp add: take_bit_nat_eq_self)
  have t: "take_bit 8 (of_nat t :: u32) = of_nat t"
    using assms by (subst take_bit_of_nat) (simp add: take_bit_nat_eq_self)
  have "take_bit 24 (make_nid t n) = of_nat n"
    by (rule bit_word_eqI) (use n in \<open>auto simp: make_nid_def bit_simps\<close>)
  then show "nid_node (make_nid t n) = n"
    using assms by (simp add: nid_node_def unat_of_nat)
  have "drop_bit 24 (make_nid t n) = take_bit 8 (of_nat t :: u32)"
    by (rule bit_word_eqI) (auto simp: make_nid_def bit_simps)
  then show "nid_tree (make_nid t n) = t"
    using assms by (simp add: nid_tree_def t unat_of_nat)
qed

lemma make_nid_parts: "make_nid (nid_tree nid) (nid_node nid) = nid"
proof (rule bit_word_eqI)
  fix k assume "k < LENGTH(32)"
  then show "bit (make_nid (nid_tree nid) (nid_node nid)) k = bit nid k"
    by (auto simp: make_nid_def nid_tree_def nid_node_def bit_simps)
qed

lemma nid_node_less: "nid_node nid < 2 ^ 24" and nid_tree_less: "nid_tree nid < 256"
proof -
  show "nid_node nid < 2 ^ 24"
    unfolding nid_node_def unsigned_take_bit_eq by (rule take_bit_nat_less_exp)
  have "unat nid < 2 ^ 32" using unsigned_less [of nid] by simp
  then show "nid_tree nid < 256"
    unfolding nid_tree_def unat_drop_bit_eq unfolding drop_bit_eq_div by (intro less_mult_imp_div_less) simp
qed

lemma find_tree_Some:
  "fst p = t + k \<Longrightarrow> k < length is \<Longrightarrow> snd p \<le> nodes (header (is ! k)) \<Longrightarrow>
   find_tree is t p = Some (t + k)"
proof (induction "is" arbitrary: t k)
  case (Cons info rest)
  then show ?case by (cases k) (auto)
qed simp

lemma node_to_nid_in:
  assumes "fst p < length (infos db)" "snd p \<le> nodes (header (infos db ! fst p))"
  shows "node_to_nid db p = make_nid (fst p) (snd p)"
  using find_tree_Some [of p 0 "fst p" "infos db"] assms by (simp add: node_to_nid_def)

text \<open>
  C35: node identifiers name nodes: a node of one of the first 256 trees, with an index of 24 bits,
  is found again from its identifier, and an identifier that leads to a node is the identifier
  of that node.
\<close>

theorem nid_roundtrip:
  "(fst p < length (infos db) \<and> fst p < 256 \<and> snd p \<le> nodes (header (infos db ! fst p))
      \<and> snd p < 2 ^ 24 \<longrightarrow> nid_to_node db (node_to_nid db p) = Some p)
   \<and> (nid_to_node db nid = Some p \<longrightarrow> node_to_nid db p = nid \<and> nid_to_tree_idx db nid = (Some (fst p), snd p))"
proof (intro conjI impI)
  assume p: "fst p < length (infos db) \<and> fst p < 256 \<and> snd p \<le> nodes (header (infos db ! fst p))
      \<and> snd p < 2 ^ 24"
  then show "nid_to_node db (node_to_nid db p) = Some p"
    using unat_tree_part [of "fst p" "snd p"] by (simp add: node_to_nid_in nid_to_node_def)
next
  assume n: "nid_to_node db nid = Some p"
  then have "p = (nid_tree nid, nid_node nid)" "nid_tree nid < length (infos db)"
    "nid_node nid \<le> nodes (header (infos db ! nid_tree nid))"
    by (auto simp: nid_to_node_def split: if_splits)
  then show "node_to_nid db p = nid" "nid_to_tree_idx db nid = (Some (fst p), snd p)"
    by (simp_all add: node_to_nid_in make_nid_parts nid_to_tree_idx_def)
qed


lemma nid_roundtrip_witness:
  "\<exists>db. nid_to_node db (node_to_nid db (1, 7)) = Some (1, 7) \<and> node_to_nid db (1, 7) = 0x1000007"
proof -
  define info where "info = (zero_info ''MAIN'')\<lparr>header := zero_header\<lparr>nodes := 9\<rparr>\<rparr>"
  define db where "db = (edit_slot info)\<lparr>next_info := [info]\<rparr>"
  have "nid_to_node db (node_to_nid db (1, 7)) = Some (1, 7)"
    using nid_roundtrip [of "(1, 7)" db 0] by (simp add: db_def info_def infos_def zero_info_def edit_slot_def)
  moreover have "node_to_nid db (1, 7) = 0x1000007"
    by (simp add: node_to_nid_def db_def info_def infos_def make_nid_def zero_info_def edit_slot_def)
  ultimately show ?thesis by blast
qed


section \<open>Links with and without a database\<close>

text \<open>
  A node that is neither the top of a subtree nor a reference to one has the links of its pool.
\<close>

definition plain_usage :: "NODE \<Rightarrow> bool" where
  "plain_usage n \<longleftrightarrow> usage n \<noteq> TreeUSAGE_SUBTREE_REF \<and> usage n \<noteq> TreeUSAGE_SUBTREE_TOP"

definition plain_tree :: "PINO_DATABASE \<Rightarrow> nat \<Rightarrow> bool" where
  "plain_tree db t \<longleftrightarrow> (\<forall>i. plain_usage (node (infos db ! t) i))"

lemma member_of_pool [simp]:
  "member_of db (Some (t, i)) = map_option (Pair t) (member0 (node (infos db ! t)) i)"
  by (simp add: member_of_def node_at_def follow_def linked_node_def)

lemma plain_links [simp]:
  assumes "plain_tree db t"
  shows "parent_of db (Some (t, i)) = map_option (Pair t) (parent0 (node (infos db ! t)) i)"
    and "child_of db (Some (t, i)) = map_option (Pair t) (child0 (node (infos db ! t)) i)"
    and "brother_of db (Some (t, i)) = map_option (Pair t) (brother0 (node (infos db ! t)) i)"
proof -
  have "usage (node (infos db ! t) j) \<noteq> TreeUSAGE_SUBTREE_REF"
    "usage (node (infos db ! t) j) \<noteq> TreeUSAGE_SUBTREE_TOP" for j
    using assms by (auto simp: plain_tree_def plain_usage_def)
  then show "parent_of db (Some (t, i)) = map_option (Pair t) (parent0 (node (infos db ! t)) i)"
    "child_of db (Some (t, i)) = map_option (Pair t) (child0 (node (infos db ! t)) i)"
    "brother_of db (Some (t, i)) = map_option (Pair t) (brother0 (node (infos db ! t)) i)"
    by (simp_all add: parent_of_def child_of_def brother_of_def through_ref_def node_at_def
        follow_def linked_node_def)
qed

lemma brother_of_None [simp]: "brother_of db None = None"
  by (simp add: brother_of_def through_ref_def)

section \<open>Linked lists in a pool\<close>

text \<open>The list \<open>xs\<close> of the indices reached from \<open>x\<close> by following \<open>f\<close> to its end.\<close>

fun linked :: "('a \<Rightarrow> 'a option) \<Rightarrow> 'a option \<Rightarrow> 'a list \<Rightarrow> bool" where
  "linked f x [] \<longleftrightarrow> x = None"
| "linked f x (y # ys) \<longleftrightarrow> x = Some y \<and> linked f (f y) ys"

lemma linked_None [simp]: "linked f None xs \<longleftrightarrow> xs = []"
  by (cases xs) auto

lemma linked_unique: "linked f x xs \<Longrightarrow> linked f x ys \<Longrightarrow> xs = ys"
proof (induction xs arbitrary: x ys)
  case (Cons y xs)
  then show ?case by (cases ys) auto
qed simp

lemma linked_cong: "(\<And>y. y \<in> set xs \<Longrightarrow> f y = g y) \<Longrightarrow> linked f x xs = linked g x xs"
  by (induction f x xs rule: linked.induct) auto

lemma linked_distinct: "linked f x xs \<Longrightarrow> distinct xs"
proof (induction f x xs rule: linked.induct)
  case (2 f x y ys)
  have "y \<notin> set ys"
  proof
    assume "y \<in> set ys"
    then obtain as bs where ys: "ys = as @ y # bs" by (auto simp: in_set_conv_decomp)
    have "linked f z (as @ y # bs) \<Longrightarrow> linked f (f y) bs" for z
      by (induction as arbitrary: z) auto
    moreover have fy: "linked f (f y) ys" using 2(2) by simp
    ultimately have "linked f (f y) bs" using ys by blast
    then have "bs = as @ y # bs" using linked_unique [OF _ fy] ys by blast
    then have "length bs = length as + Suc (length bs)" by (metis length_append length_Cons)
    then show False by simp
  qed
  with 2 show ?case by auto
qed simp

lemma find_brother_linked:
  assumes "linked (\<lambda>p. brother_of db (Some p)) n ps"
  shows "find_brother db n a = Some (if a \<in> set ps then Some a else None)"
  using assms
proof (induction "\<lambda>p. brother_of db (Some p)" n ps rule: linked.induct)
  case (2 x y ys)
  then show ?case by (subst find_brother.simps) auto
qed (subst find_brother.simps, simp)

lemma linked_in_tree:
  assumes "plain_tree db t" "linked (brother0 (node (infos db ! t))) x xs"
  shows "linked (\<lambda>p. brother_of db (Some p)) (map_option (Pair t) x) (map (Pair t) xs)"
  using assms by (induction xs arbitrary: x) auto

text \<open>
  the searches for a node among its brothers end and tell children from members: in a tree
  whose brother lists are finite, \<open>TreeIsChild\<close> and \<open>is_member\<close> say whether the node is in the list
  of its parent's children or members, and \<open>sibling_of\<close> continues from the last member with
  the first child.
\<close>

theorem child_or_member:
  assumes "plain_tree db t" and "ns = node (infos db ! t)" and "parent0 ns i = Some p"
    and "linked (brother0 ns) (child0 ns p) cs" and "linked (brother0 ns) (member0 ns p) ms"
  shows "TreeIsChild db (t, i) = Some (i \<in> set cs) \<and> is_member db (t, i) = Some (i \<in> set ms)
    \<and> sibling_of db (t, i) =
        Some (map_option (Pair t)
               (case brother0 ns i of Some b \<Rightarrow> Some b
                | None \<Rightarrow> if i \<in> set ms then child0 ns p else None))"
proof -
  have c: "linked (\<lambda>p. brother_of db (Some p)) (child_of db (Some (t, p))) (map (Pair t) cs)"
    and m: "linked (\<lambda>p. brother_of db (Some p)) (member_of db (Some (t, p))) (map (Pair t) ms)"
    using linked_in_tree [of db t "child0 ns p" cs] linked_in_tree [of db t "member0 ns p" ms] assms
    by simp_all
  have par: "parent_of db (Some (t, i)) = Some (t, p)" using assms by simp
  have "TreeIsChild db (t, i) = Some (i \<in> set cs)" "is_member db (t, i) = Some (i \<in> set ms)"
    using find_brother_linked [OF c, of "(t, i)"] find_brother_linked [OF m, of "(t, i)"]
    by (auto simp: TreeIsChild_def is_member_def par)
  then show ?thesis
    using assms by (auto simp: sibling_of_def par split: option.splits)
qed

text \<open>A parent with one member and one child, the nodes 1 and 2 of the pool.\<close>

lemma child_or_member_witness:
  "\<exists>db. TreeIsChild db (0, 2) = Some True \<and> is_member db (0, 2) = Some False
        \<and> sibling_of db (0, 1) = Some (Some (0, 2))"
proof -
  define ns where "ns = (\<lambda>_ :: nat. zero_node)
    (0 := zero_node\<lparr>member := node_offset (Some 1) (Some 0), child := node_offset (Some 2) (Some 0)\<rparr>,
     1 := zero_node\<lparr>parent := node_offset (Some 0) (Some 1)\<rparr>,
     2 := zero_node\<lparr>parent := node_offset (Some 0) (Some 2)\<rparr>)"
  define db where "db = edit_slot ((zero_info ''MAIN'')\<lparr>node := ns\<rparr>)"
  have plain: "plain_tree db 0"
    by (simp add: plain_tree_def plain_usage_def db_def edit_slot_def infos_def zero_info_def ns_def
        zero_node_def TreeUSAGE_SUBTREE_REF_def TreeUSAGE_SUBTREE_TOP_def)
  have ns: "ns = node (infos db ! 0)"
    by (simp add: db_def edit_slot_def infos_def)
  have links: "linked (brother0 ns) (child0 ns 0) [2]" "linked (brother0 ns) (member0 ns 0) [1]"
    "parent0 ns 1 = Some 0" "parent0 ns 2 = Some 0" "brother0 ns 1 = None"  "child0 ns 0 = Some 2"
    by (simp_all add: ns_def zero_node_def)
  show ?thesis
    using child_or_member [OF plain ns links(4,1,2)] child_or_member [OF plain ns links(3,1,2)] links(5,6)
    by auto
qed

end
