(* ===== verification/TreePool.thy ===== *)
theory TreePool
  imports TreeNodes "HOL-Library.Multiset"
begin

text \<open>
  The pool of free nodes of a tree that is edited (\<open>TreeNewNode\<close>, \<open>TreeExpandNodes\<close>,
  \<open>_TreeStartConglomerate\<close>, \<open>_TreeEndConglomerate\<close> and \<open>trim_excess_nodes\<close> in \<open>TreeAddNode.c\<close>).
  The free nodes are a doubly linked list: \<open>free\<close> in the header is the byte offset of its first
  node, or -1, the field \<open>parent\<close> of a free node links to the next one and \<open>child\<close> to the previous
  one. The abstract view is the list of the free indices (\<open>free_list\<close>).

  A pointer into the pool is an index, so the fix-up of pointers after the pool has been moved to
  new memory is the identity. The results are \<open>None\<close> where the code does not end or uses a node
  outside of the pool. \<open>statics\<close> and \<open>grows\<close> say whether \<open>malloc\<close> succeeds for the arrays of empty nodes
  and for the larger pool.
\<close>

section \<open>The operations\<close>

definition EXTEND_NODES :: nat where "EXTEND_NODES = 512"

definition empty_name :: string where "empty_name = ''empty node  ''"

definition empty_node :: NODE where
  "empty_node = zero_node\<lparr>name := empty_name, parent := NODE_SIZE, child := - NODE_SIZE\<rparr>"

text \<open>Element \<open>i\<close> of \<open>empty_node_array\<close>: the last one has no next node.\<close>

definition empty_node_array :: "nat \<Rightarrow> NODE" where
  "empty_node_array i = (if i = EXTEND_NODES - 1 then empty_node\<lparr>parent := 0\<rparr> else empty_node)"

definition NCI_SIZE :: nat where "NCI_SIZE = 56"

definition vm_bytes :: "nat \<Rightarrow> nat \<Rightarrow> nat" where
  "vm_bytes n first_mem =
     (let ns = EXTEND_NODES * 10 + n;
          ncis = (ns - first_mem) + EXTEND_NODES * 10
      in ns * nat NODE_SIZE + ncis * NCI_SIZE)"

text \<open>The last node of the free list that starts at a node.\<close>

partial_function (option) last_free :: "(nat \<Rightarrow> NODE) \<Rightarrow> nat \<Rightarrow> nat option" where
  "last_free ns i =
     (if parent (ns i) \<noteq> 0 then last_free ns (at_offset i (parent (ns i))) else Some i)"

definition free_node :: "TREE_INFO \<Rightarrow> nat" where
  "free_node info = nat (free (header info) div NODE_SIZE)"

text \<open>The new nodes behind the others, linked into the free list.\<close>

definition append_empty :: "TREE_INFO \<Rightarrow> TREE_INFO option" where
  "append_empty info =
     (let n = nodes (header info);
          ns = (\<lambda>i. if n \<le> i \<and> i < n + EXTEND_NODES then empty_node_array (i - n) else node info i);
          info = info\<lparr>header := (header info)\<lparr>nodes := n + EXTEND_NODES\<rparr>\<rparr>
      in if free (header info) = -1
         then Some (info\<lparr>header := (header info)\<lparr>free := int n * NODE_SIZE\<rparr>,
                         node := ns(n := (ns n)\<lparr>child := 0\<rparr>)\<rparr>)
         else map_option
                (\<lambda>l. let off = node_offset (Some n) (Some l); ns = ns(l := (ns l)\<lparr>parent := off\<rparr>)
                     in info\<lparr>node := ns(n := (ns n)\<lparr>child := - off\<rparr>)\<rparr>)
                (last_free ns (free_node info)))"

definition TreeExpandNodes :: "bool \<Rightarrow> bool \<Rightarrow> TREE_INFO \<Rightarrow> (status \<times> TREE_INFO) option" where
  "TreeExpandNodes statics grows info =
     (let ed = the (edit info); n = nodes (header info); vm = vm_bytes n (first_in_mem ed);
          grow = vm > node_vm_size ed;
          nci_offset = n - first_in_mem ed;
          ed = ed\<lparr>node_vm_size := (if grow then vm else node_vm_size ed),
                  nci := (\<lambda>i. if nci_offset \<le> i \<and> i < nci_offset + EXTEND_NODES then empty_nci
                              else nci ed i)\<rparr>
      in if \<not> statics then Some (MDSplusERROR, info)
         else if grow \<and> \<not> grows then Some (TreeSUCCESS, info)
         else map_option (Pair TreeSUCCESS) (append_empty (info\<lparr>edit := Some ed\<rparr>)))"

definition TreeNewNode :: "bool \<Rightarrow> bool \<Rightarrow> TREE_INFO \<Rightarrow> (status \<times> nat \<times> TREE_INFO) option" where
  "TreeNewNode statics grows info =
     (case (if free (header info) = -1 then TreeExpandNodes statics grows info
            else Some (TreeSUCCESS, info)) of
        None \<Rightarrow> None
      | Some (status, info) \<Rightarrow>
          if \<not> STATUS_OK status then Some (status, 0, info)
          else if free (header info) < 0 then None
          else
            let i = free_node info; ns = node info;
                off = parent (ns i);
                info = (if off \<noteq> 0
                        then let next = at_offset i off
                             in info\<lparr>header := (header info)\<lparr>free := free (header info) + off\<rparr>,
                                     node := ns(next := (ns next)\<lparr>child := 0\<rparr>)\<rparr>
                        else info\<lparr>header := (header info)\<lparr>free := -1\<rparr>\<rparr>)
            in Some (status, i, info\<lparr>node := (node info)(i := zero_node)\<rparr>))"


text \<open>
  The search of \<open>_TreeStartConglomerate\<close> for contiguous free nodes: \<open>i\<close> links to a next index
  in a row end at the node \<open>this\<close>, the row starts at \<open>start\<close>.
\<close>

partial_function (option) find_block ::
    "bool \<Rightarrow> bool \<Rightarrow> int \<Rightarrow> TREE_INFO \<Rightarrow> int \<Rightarrow> nat option \<Rightarrow> nat
     \<Rightarrow> (status \<times> TREE_INFO \<times> nat option \<times> nat) option" where
  "find_block statics grows n info i start this =
     (if i < n - 1
      then let start = (if i = 0 then Some this else start); off = parent (node info this)
           in if off \<noteq> 0
              then let next = at_offset this off
                   in find_block statics grows n info (if next \<noteq> this + 1 then 0 else i + 1) start next
              else Option.bind (TreeExpandNodes statics grows info)
                     (\<lambda>(status, info).
                        if STATUS_OK status
                        then find_block statics grows n info i start this
                        else Some (status, info, start, this))
      else Some (TreeSUCCESS, info, start, this))"

text \<open>The block from \<open>start\<close> to \<open>this\<close> becomes the front of the free list.\<close>

definition set_parent :: "nat \<Rightarrow> nat \<Rightarrow> (nat \<Rightarrow> NODE) \<Rightarrow> nat \<Rightarrow> NODE" where
  "set_parent i p ns = ns(i := (ns i)\<lparr>parent := node_offset (Some p) (Some i)\<rparr>)"

definition set_child :: "nat \<Rightarrow> nat \<Rightarrow> (nat \<Rightarrow> NODE) \<Rightarrow> nat \<Rightarrow> NODE" where
  "set_child i c ns = ns(i := (ns i)\<lparr>child := node_offset (Some c) (Some i)\<rparr>)"

definition move_block :: "nat \<Rightarrow> nat \<Rightarrow> TREE_INFO \<Rightarrow> TREE_INFO" where
  "move_block start this info =
     (let ns = node info; prev = the (child0 ns start);
          ns = (case parent0 ns this of
                  Some next \<Rightarrow> set_child next prev (set_parent prev next ns)
                | None \<Rightarrow> ns(prev := (ns prev)\<lparr>parent := 0\<rparr>));
          ns = set_child (free_node info) this (set_parent this (free_node info) ns)
      in info\<lparr>header := (header info)\<lparr>free := node_offset (Some start) (Some 0)\<rparr>,
              node := ns(start := (ns start)\<lparr>child := 0\<rparr>)\<rparr>)"

definition reserve_block ::
    "bool \<Rightarrow> bool \<Rightarrow> int \<Rightarrow> TREE_INFO \<Rightarrow> (status \<times> TREE_INFO) option" where
  "reserve_block statics grows n info =
     Option.bind (if free (header info) = -1 then TreeExpandNodes statics grows info
                  else Some (TreeSUCCESS, info))
       (\<lambda>(status, info).
          if \<not> STATUS_OK status then Some (status, info)
          else if free (header info) < 0 \<and> n > 1 then None
          else map_option
                 (\<lambda>(status, info, start, this).
                    if \<not> STATUS_OK status then (status, info)
                    else (status,
                          case start of
                            Some s \<Rightarrow> if child (node info s) \<noteq> 0 then move_block s this info else info
                          | None \<Rightarrow> info))
                 (find_block statics grows n info 0 None (free_node info)))"

definition TreeStartConglomerate ::
    "bool \<Rightarrow> bool \<Rightarrow> PINO_DATABASE \<Rightarrow> int \<Rightarrow> (status \<times> PINO_DATABASE) option" where
  "TreeStartConglomerate statics grows db n =
     (if n > 0x7fff then Some (TreeBUFFEROVF, db)
      else if \<not> IS_OPEN_FOR_EDIT db then Some (TreeNOEDIT, db)
      else map_option
             (\<lambda>(status, info).
                if STATUS_OK status
                then (status,
                      db\<lparr>tree_info := info\<lparr>edit := Some ((the (edit info))
                           \<lparr>conglomerate_index := 0, conglomerate_size := word_of_int n,
                            conglomerate_setup := setup_info db\<rparr>)\<rparr>,
                         setup_info := False\<rparr>)
                else (status, db\<lparr>tree_info := info\<rparr>))
             (reserve_block statics grows n (tree_info db)))"

definition TreeEndConglomerate :: "PINO_DATABASE \<Rightarrow> status \<times> PINO_DATABASE" where
  "TreeEndConglomerate db =
     (if \<not> IS_OPEN_FOR_EDIT db then (TreeNOEDIT, db)
      else let ed = the (edit (tree_info db));
               conglom_size = sint (conglomerate_size ed); conglom_index = sint (conglomerate_index ed);
               db = db\<lparr>tree_info := (tree_info db)\<lparr>edit := Some (ed\<lparr>conglomerate_size := 0,
                                                                        conglomerate_index := 0\<rparr>)\<rparr>,
                       setup_info := conglomerate_setup ed\<rparr>
           in if conglom_size < conglom_index then (TreeCONGLOMFULL, db)
              else if conglom_size > conglom_index then (TreeCONGLOM_NOT_FULL, db)
              else (TreeSUCCESS, db))"

text \<open>
  \<open>trim_excess_nodes\<close>: the last node in use, \<open>None\<close> when all are empty and the scan leaves the pool;
  then every node past the last page in use is taken out of the free list.
\<close>

fun last_used :: "(nat \<Rightarrow> NODE) \<Rightarrow> nat \<Rightarrow> nat option" where
  "last_used ns 0 = None"
| "last_used ns (Suc i) =
     (if strncmp (take 12 (name (ns i))) empty_name = 0 then last_used ns i else Some i)"

definition unlink_free :: "TREE_INFO \<Rightarrow> nat \<Rightarrow> TREE_INFO" where
  "unlink_free info i =
     (let ns = node info; off = parent (ns i)
      in if i = free_node info
         then if off \<noteq> 0
              then info\<lparr>header := (header info)\<lparr>free := free (header info) + off\<rparr>,
                        node := ns(at_offset i off := (ns (at_offset i off))\<lparr>child := 0\<rparr>)\<rparr>
              else info\<lparr>header := (header info)\<lparr>free := -1\<rparr>\<rparr>
         else let p = parent0 ns i; c = child0 ns i;
                  ns = (case p of Some j \<Rightarrow> ns(j := (ns j)\<lparr>child := node_offset c (Some j)\<rparr>) | None \<Rightarrow> ns);
                  ns = (case c of Some j \<Rightarrow> ns(j := (ns j)\<lparr>parent := node_offset p (Some j)\<rparr>) | None \<Rightarrow> ns)
              in info\<lparr>node := ns\<rparr>)"

fun unlink_from :: "nat \<Rightarrow> nat \<Rightarrow> TREE_INFO \<Rightarrow> TREE_INFO" where
  "unlink_from i 0 info = info"
| "unlink_from i (Suc k) info =
     (if free (header info) = -1 then info else unlink_from (Suc i) k (unlink_free info i))"

definition trim_excess_nodes :: "TREE_INFO \<Rightarrow> TREE_INFO option" where
  "trim_excess_nodes info =
     map_option
       (\<lambda>last. let n = nodes (header info);
                   node_pages = ((last + 1) * nat NODE_SIZE + 511) div 512;
                   keep = max (first_in_mem (the (edit info))) (node_pages * 512 div nat NODE_SIZE)
               in if keep < n
                  then let info = unlink_from keep (n - keep) info
                       in info\<lparr>header := (header info)\<lparr>nodes := keep\<rparr>\<rparr>
                  else info)
       (last_used (node info) (nodes (header info)))"


section \<open>The free list\<close>

definition first_of :: "nat list \<Rightarrow> nat option \<Rightarrow> nat option" where
  "first_of xs nxt = (case xs of [] \<Rightarrow> nxt | y # _ \<Rightarrow> Some y)"

definition last_of :: "nat option \<Rightarrow> nat list \<Rightarrow> nat option" where
  "last_of pre xs = (if xs = [] then pre else Some (last xs))"

lemma first_of_simps [simp]: "first_of [] nxt = nxt" "first_of (x # xs) nxt = Some x"
  by (simp_all add: first_of_def)

lemma first_of_append [simp]: "first_of (xs @ ys) nxt = first_of xs (first_of ys nxt)"
  by (cases xs) auto

lemma last_of_simps [simp]: "last_of pre [] = pre" "last_of pre (x # xs) = last_of (Some x) xs"
  "last_of pre (xs @ [x]) = Some x"
  by (simp_all add: last_of_def)

text \<open>A segment of a doubly linked list, between the nodes \<open>pre\<close> and \<open>nxt\<close>.\<close>

fun dll :: "(nat \<Rightarrow> NODE) \<Rightarrow> nat option \<Rightarrow> nat list \<Rightarrow> nat option \<Rightarrow> bool" where
  "dll ns pre [] nxt \<longleftrightarrow> True"
| "dll ns pre (x # xs) nxt \<longleftrightarrow>
     child (ns x) = node_offset pre (Some x) \<and> parent (ns x) = node_offset (first_of xs nxt) (Some x)
     \<and> dll ns (Some x) xs nxt"

lemma dll_append [simp]:
  "dll ns pre (xs @ ys) nxt \<longleftrightarrow> dll ns pre xs (first_of ys nxt) \<and> dll ns (last_of pre xs) ys nxt"
  by (induction xs arbitrary: pre) auto

lemma dll_cong:
  "(\<And>x. x \<in> set xs \<Longrightarrow> child (ns x) = child (ms x) \<and> parent (ns x) = parent (ms x)) \<Longrightarrow>
   dll ns pre xs nxt = dll ms pre xs nxt"
  by (induction xs arbitrary: pre) auto

text \<open>What changes at the ends of a segment when its neighbours change.\<close>

lemma dll_new_next:
  assumes "dll ns pre (xs @ [l]) nxt" "l \<notin> set xs"
    and "\<And>x. x \<in> set xs \<Longrightarrow> child (ms x) = child (ns x) \<and> parent (ms x) = parent (ns x)"
    and "child (ms l) = child (ns l)" "parent (ms l) = node_offset nxt' (Some l)"
  shows "dll ms pre (xs @ [l]) nxt'"
  using assms dll_cong [of xs ms ns] by simp

lemma dll_new_prev:
  assumes "dll ns pre (x # xs) nxt" "x \<notin> set xs"
    and "\<And>y. y \<in> set xs \<Longrightarrow> child (ms y) = child (ns y) \<and> parent (ms y) = parent (ns y)"
    and "parent (ms x) = parent (ns x)" "child (ms x) = node_offset pre' (Some x)"
  shows "dll ms pre' (x # xs) nxt"
  using assms dll_cong [of xs ms ns] by simp

definition free_list :: "TREE_INFO \<Rightarrow> nat list \<Rightarrow> bool" where
  "free_list info xs \<longleftrightarrow>
     distinct xs \<and> (\<forall>x\<in>set xs. x < nodes (header info))
     \<and> free (header info) = (case xs of [] \<Rightarrow> -1 | x # _ \<Rightarrow> int x * NODE_SIZE)
     \<and> dll (node info) None xs None"

lemma free_list_empty: "free_list info xs \<Longrightarrow> free (header info) = -1 \<longleftrightarrow> xs = []"
  by (auto simp: free_list_def NODE_SIZE_def split: list.splits)

lemma free_list_nonneg: "free_list info xs \<Longrightarrow> free (header info) < 0 \<longleftrightarrow> xs = []"
  by (auto simp: free_list_def NODE_SIZE_def split: list.splits)

lemma free_list_Cons:
  "free_list info (x # xs) \<Longrightarrow> free (header info) = int x * NODE_SIZE \<and> free_node info = x"
  by (simp add: free_list_def free_node_def)

lemma offset_add: "int i * NODE_SIZE + node_offset (Some j) (Some i) = int j * NODE_SIZE"
  by (simp add: node_offset_def algebra_simps)

lemma last_free_dll:
  "dll ns pre (x # xs) None \<Longrightarrow> distinct (x # xs) \<Longrightarrow> last_free ns x = last_of (Some x) xs"
proof (induction xs arbitrary: pre x)
  case Nil
  then show ?case by (subst last_free.simps) simp
next
  case (Cons y ys)
  then have "parent (ns x) \<noteq> 0" "at_offset x (parent (ns x)) = y" by auto
  then show ?case using Cons by (subst last_free.simps) simp
qed

text \<open>The array of empty nodes is a list of its own.\<close>

lemma dll_upt:
  assumes "\<And>i. i \<in> set [a..<b] \<Longrightarrow> child (ns i) = node_offset (if i = a then pre else Some (i - 1)) (Some i)"
    and "\<And>i. i \<in> set [a..<b] \<Longrightarrow> parent (ns i) = node_offset (if i = b - 1 then nxt else Some (i + 1)) (Some i)"
  shows "dll ns pre [a..<b] nxt"
  using assms
proof (induction "b - a" arbitrary: a pre)
  case (Suc k)
  then have ab: "a < b" by simp
  have "dll ns (Some a) [Suc a..<b] nxt"
    using Suc(2) by (intro Suc(1)) (auto simp: Suc(3,4))
  moreover have "first_of [Suc a..<b] nxt = (if a = b - 1 then nxt else Some (a + 1))"
    using ab by (cases "Suc a < b") (auto simp: upt_conv_Cons)
  ultimately show ?case using ab Suc(3,4) [of a] by (simp add: upt_conv_Cons)
qed simp

text \<open>
  What an operation on the pool keeps: every field of the tree but the pool, its size, the start
  of the free list and the edit block.
\<close>

definition pool_change :: "TREE_INFO \<Rightarrow> TREE_INFO \<Rightarrow> bool" where
  "pool_change info info' \<longleftrightarrow>
     info'\<lparr>header := header info, node := node info, edit := edit info\<rparr> = info
     \<and> (header info')\<lparr>free := free (header info), nodes := nodes (header info)\<rparr> = header info"

lemma pool_change_refl [simp]: "pool_change info info"
  by (simp add: pool_change_def)

lemma pool_change_trans: "pool_change a b \<Longrightarrow> pool_change b c \<Longrightarrow> pool_change a c"
  by (cases a; cases b; cases c; cases "header a"; cases "header b"; cases "header c")
    (simp add: pool_change_def)

lemma node_offset_step [simp]:
  "node_offset (Some (Suc i)) (Some i) = NODE_SIZE"
  "i \<noteq> 0 \<Longrightarrow> node_offset (Some (i - Suc 0)) (Some i) = - NODE_SIZE"
  by (simp_all add: node_offset_def algebra_simps of_nat_diff)

lemma append_empty_free_list:
  assumes l: "free_list info xs" and n: "n = nodes (header info)"
  shows "\<exists>info'. append_empty info = Some info' \<and> free_list info' (xs @ [n..<n + EXTEND_NODES])
    \<and> pool_change info info' \<and> nodes (header info') = n + EXTEND_NODES \<and> edit info' = edit info
    \<and> (\<forall>i<n. i \<notin> set xs \<longrightarrow> node info' i = node info i)"
proof -
  define ns where
    "ns = (\<lambda>i. if n \<le> i \<and> i < n + EXTEND_NODES then empty_node_array (i - n) else node info i)"
  have pos: "0 < EXTEND_NODES" by (simp add: EXTEND_NODES_def)
  have par: "parent (ns i) = node_offset (if i = n + EXTEND_NODES - 1 then None else Some (i + 1)) (Some i)"
    and chl: "i \<noteq> n \<Longrightarrow> child (ns i) = node_offset (Some (i - 1)) (Some i)"
    if "i \<in> set [n..<n + EXTEND_NODES]" for i
    using that by (auto simp: ns_def empty_node_array_def empty_node_def)
  have tail: "dll ms pre [n..<n + EXTEND_NODES] None"
    if "child (ms n) = node_offset pre (Some n)" and "\<And>i. i > n \<Longrightarrow> child (ms i) = child (ns i)"
      and "\<And>i. i \<ge> n \<Longrightarrow> parent (ms i) = parent (ns i)" for ms pre
    using par chl that by (intro dll_upt) auto
  have old: "x < n \<and> ns x = node info x" if "x \<in> set xs" for x
    using l that n by (auto simp: free_list_def ns_def)
  have free_node: "free_node (info\<lparr>header := h\<rparr>) = free_node info" if "free h = free (header info)" for h
    using that by (simp add: free_node_def)
  show ?thesis
  proof (cases xs)
    case Nil
    let ?ms = "ns(n := (ns n)\<lparr>child := 0\<rparr>)"
    have "dll ?ms None [n..<n + EXTEND_NODES] None" by (rule tail) auto
    then show ?thesis
      using l Nil pos n
      by (simp add: append_empty_def Let_def ns_def [symmetric] free_list_def pool_change_def upt_conv_Cons)
        (auto simp: ns_def)
  next
    case (Cons x r)
    then obtain as a where xs: "xs = as @ [a]" by (metis rev_exhaust list.distinct(1))
    let ?ms = "ns(a := (ns a)\<lparr>parent := node_offset (Some n) (Some a)\<rparr>,
      n := (ns n)\<lparr>child := node_offset (Some a) (Some n)\<rparr>)"
    have an: "a < n" "a \<notin> set as" using old xs l by (auto simp: free_list_def)
    have dn: "dll ns None xs None"
      using l dll_cong [of xs ns "node info"] old by (simp add: free_list_def)
    have "last (x # r) = a" using xs unfolding Cons by simp
    then have "last_free ns x = Some a"
      using last_free_dll [of ns None x r] dn l unfolding Cons free_list_def by (auto simp: last_of_def split: if_splits)
    moreover have "dll ?ms None (as @ [a]) (Some n)"
    proof (rule dll_new_next [OF dn [unfolded xs] an(2)])
      fix y assume "y \<in> set as"
      then have "y < n" "y \<noteq> a" using old [of y] an xs by auto
      then show "child (?ms y) = child (ns y) \<and> parent (?ms y) = parent (ns y)" by simp
    qed (use an in simp_all)
    moreover have "dll ?ms (Some a) [n..<n + EXTEND_NODES] None"
      using an by (intro tail) auto
    ultimately have dll: "dll ?ms None (xs @ [n..<n + EXTEND_NODES]) None"
      and last: "last_free ns x = Some a"
      using xs pos by (simp_all add: upt_conv_Cons)
    let ?info = "info\<lparr>header := (header info)\<lparr>nodes := n + EXTEND_NODES\<rparr>, node := ?ms\<rparr>"
    have "append_empty info = Some ?info"
      using last free_list_empty [OF l] free_list_Cons [OF l [unfolded Cons]] Cons an
      unfolding append_empty_def Let_def n [symmetric] ns_def [symmetric]
      by (simp add: minus_node_offset free_node) (simp add: ns_def)
    moreover have "free_list ?info (xs @ [n..<n + EXTEND_NODES])"
      unfolding free_list_def
    proof (intro conjI)
      have "set xs \<inter> {n..<n + EXTEND_NODES} = {}" using old by fastforce
      then show "distinct (xs @ [n..<n + EXTEND_NODES])" using l by (simp add: free_list_def)
      show "\<forall>x\<in>set (xs @ [n..<n + EXTEND_NODES]). x < nodes (header ?info)"
        using old by fastforce
    qed (use dll l Cons in \<open>simp_all add: free_list_def\<close>)
    moreover have "\<forall>i<n. i \<notin> set xs \<longrightarrow> ?ms i = node info i"
      using xs by (simp add: ns_def)
    ultimately show ?thesis by (intro exI [of _ ?info]) (simp add: pool_change_def)
  qed
qed


text \<open>What an extension keeps of the edit block.\<close>

definition edit_change :: "TREE_INFO \<Rightarrow> TREE_INFO \<Rightarrow> bool" where
  "edit_change info info' \<longleftrightarrow>
     (\<exists>ed. edit info' = Some ed
       \<and> ed\<lparr>node_vm_size := node_vm_size (the (edit info)), nci := nci (the (edit info))\<rparr> = the (edit info))"

lemma free_list_edit [simp]: "free_list (info\<lparr>edit := e\<rparr>) xs \<longleftrightarrow> free_list info xs"
  by (simp add: free_list_def)

lemma TreeExpandNodes_free_list:
  assumes "free_list info xs" "n = nodes (header info)"
  shows "\<exists>info'. TreeExpandNodes True True info = Some (TreeSUCCESS, info')
    \<and> free_list info' (xs @ [n..<n + EXTEND_NODES]) \<and> pool_change info info'
    \<and> nodes (header info') = n + EXTEND_NODES
    \<and> (\<forall>i<n. i \<notin> set xs \<longrightarrow> node info' i = node info i) \<and> edit_change info info'"
proof -
  define ed where "ed = (the (edit info))\<lparr>
     node_vm_size := (if vm_bytes n (first_in_mem (the (edit info))) > node_vm_size (the (edit info))
                      then vm_bytes n (first_in_mem (the (edit info))) else node_vm_size (the (edit info))),
     nci := (\<lambda>i. if n - first_in_mem (the (edit info)) \<le> i
                     \<and> i < n - first_in_mem (the (edit info)) + EXTEND_NODES
                  then empty_nci else nci (the (edit info)) i)\<rparr>"
  obtain info' where i: "append_empty (info\<lparr>edit := Some ed\<rparr>) = Some info'"
    "free_list info' (xs @ [n..<n + EXTEND_NODES])" "pool_change (info\<lparr>edit := Some ed\<rparr>) info'"
    "nodes (header info') = n + EXTEND_NODES" "edit info' = Some ed"
    "\<forall>i<n. i \<notin> set xs \<longrightarrow> node info' i = node info i"
    using append_empty_free_list [of "info\<lparr>edit := Some ed\<rparr>" xs n] assms by auto
  have "TreeExpandNodes True True info = Some (TreeSUCCESS, info')"
    using i(1) unfolding TreeExpandNodes_def Let_def ed_def assms(2)
    by (simp only: not_True_eq_False simp_thms if_False option.map)
  moreover have "edit_change info info'"
    unfolding edit_change_def using i(5) by (simp add: ed_def)
  moreover have "pool_change info info'" using i(3) by (cases info; cases info') (simp add: pool_change_def)
  ultimately show ?thesis using i by blast
qed

lemma pop_free:
  assumes "free_list info (x # r)"
  shows "\<exists>info'. TreeNewNode statics grows info = Some (TreeSUCCESS, x, info') \<and> free_list info' r
    \<and> pool_change info info' \<and> nodes (header info') = nodes (header info) \<and> edit info' = edit info
    \<and> node info' x = zero_node \<and> (\<forall>j. j \<notin> set (x # r) \<longrightarrow> node info' j = node info j)"
proof -
  note f = free_list_Cons [OF assms]
  have fl: "distinct (x # r)" "\<forall>y\<in>set r. y < nodes (header info)" "dll (node info) None (x # r) None"
    using assms by (simp_all add: free_list_def)
  have pos: "free (header info) \<noteq> -1" "\<not> free (header info) < 0"
    using free_list_empty [OF assms] free_list_nonneg [OF assms] by simp_all
  note def = TreeNewNode_def Let_def f [THEN conjunct2]
  show ?thesis
  proof (cases r)
    case Nil
    then have "parent (node info x) = 0" using fl by simp
    then have "TreeNewNode statics grows info =
        Some (TreeSUCCESS, x, info\<lparr>header := (header info)\<lparr>free := -1\<rparr>, node := (node info)(x := zero_node)\<rparr>)"
      using pos by (simp add: def)
    then show ?thesis
      using Nil by (intro exI [of _ "info\<lparr>header := (header info)\<lparr>free := -1\<rparr>, node := (node info)(x := zero_node)\<rparr>"])
        (simp add: pool_change_def free_list_def)
  next
    case (Cons y s)
    let ?off = "parent (node info x)"
    have off: "?off = node_offset (Some y) (Some x)" using fl Cons by simp
    then have at: "at_offset x ?off = y" "?off \<noteq> 0" using fl Cons by auto
    let ?ms = "(node info)(y := (node info y)\<lparr>child := 0\<rparr>, x := zero_node)"
    have "dll ?ms None (y # s) None"
    proof (rule dll_new_prev)
      show "dll (node info) (Some x) (y # s) None" "y \<notin> set s" using fl Cons by simp_all
    qed (use fl Cons in auto)
    moreover have "free (header info) + ?off = int y * NODE_SIZE"
      using offset_add [of x y] off f by simp
    then have "TreeNewNode statics grows info =
        Some (TreeSUCCESS, x, info\<lparr>header := (header info)\<lparr>free := int y * NODE_SIZE\<rparr>, node := ?ms\<rparr>)"
      using pos at by (simp add: def)
    ultimately show ?thesis
      using Cons fl by (intro exI [of _ "info\<lparr>header := (header info)\<lparr>free := int y * NODE_SIZE\<rparr>, node := ?ms\<rparr>"])
        (simp add: pool_change_def free_list_def)
  qed
qed


text \<open>
  C23: \<open>TreeNewNode\<close> takes the first free node, extending the pool when there is none: the node it
  returns is cleared, it leaves the free list, and no node in use changes.
\<close>

theorem TreeNewNode_free_list:
  assumes "free_list info xs" "n = nodes (header info)"
  shows "\<exists>i info' ys. TreeNewNode True True info = Some (TreeSUCCESS, i, info')
    \<and> i # ys = (if xs = [] then [n..<n + EXTEND_NODES] else xs)
    \<and> free_list info' ys \<and> node info' i = zero_node \<and> pool_change info info'
    \<and> nodes (header info') = (if xs = [] then n + EXTEND_NODES else n)
    \<and> (\<forall>j<n. j \<notin> set xs \<longrightarrow> node info' j = node info j)"
proof (cases xs)
  case (Cons x r)
  obtain info' where "TreeNewNode True True info = Some (TreeSUCCESS, x, info')" "free_list info' r"
    "pool_change info info'" "nodes (header info') = n" "node info' x = zero_node"
    "\<forall>j. j \<notin> set xs \<longrightarrow> node info' j = node info j"
    using pop_free [of info x r True True] assms Cons by blast
  then show ?thesis using Cons by (intro exI [of _ x] exI [of _ info'] exI [of _ r]) simp
next
  case Nil
  obtain info1 where e: "TreeExpandNodes True True info = Some (TreeSUCCESS, info1)"
    "free_list info1 [n..<n + EXTEND_NODES]" "pool_change info info1"
    "nodes (header info1) = n + EXTEND_NODES" "\<forall>i<n. node info1 i = node info i"
    using TreeExpandNodes_free_list [OF assms] Nil by auto
  have l: "[n..<n + EXTEND_NODES] = n # [Suc n..<n + EXTEND_NODES]"
    by (rule upt_conv_Cons) (simp add: EXTEND_NODES_def)
  have "TreeNewNode True True info = TreeNewNode True True info1"
    using free_list_empty [OF assms(1)] free_list_empty [OF e(2)] e(1) Nil l by (simp add: TreeNewNode_def)
  moreover obtain info' where "TreeNewNode True True info1 = Some (TreeSUCCESS, n, info')"
    "free_list info' [Suc n..<n + EXTEND_NODES]" "pool_change info1 info'"
    "nodes (header info') = n + EXTEND_NODES" "node info' n = zero_node"
    "\<forall>j. j \<notin> set [n..<n + EXTEND_NODES] \<longrightarrow> node info' j = node info1 j"
    using pop_free [of info1 n "[Suc n..<n + EXTEND_NODES]" True True] e(2,4) unfolding l by force
  moreover from this have "pool_change info info'" using pool_change_trans [OF e(3)] by blast
  ultimately show ?thesis
    using Nil e(5) l
    by (intro exI [of _ n] exI [of _ info'] exI [of _ "[Suc n..<n + EXTEND_NODES]"]) simp
qed

section \<open>Conglomerates\<close>

text \<open>A run of the search for a block: what it finds in the free list \<open>xs\<close> of a tree.\<close>

definition block_found ::
    "int \<Rightarrow> TREE_INFO \<Rightarrow> nat list \<Rightarrow> (status \<times> TREE_INFO \<times> nat option \<times> nat) option \<Rightarrow> bool" where
  "block_found n info xs r \<longleftrightarrow>
     (\<exists>info' as s bs k. r = Some (TreeSUCCESS, info', Some s, s + nat n - 1)
       \<and> free_list info' (as @ [s..<s + nat n] @ bs)
       \<and> as @ [s..<s + nat n] @ bs = xs @ [nodes (header info)..<nodes (header info) + k * EXTEND_NODES]
       \<and> nodes (header info') = nodes (header info) + k * EXTEND_NODES
       \<and> pool_change info info' \<and> edit_change info info'
       \<and> (\<forall>j<nodes (header info). j \<notin> set xs \<longrightarrow> node info' j = node info j))"

lemma edit_change_refl: "edit info = Some ed \<Longrightarrow> edit_change info info"
  by (simp add: edit_change_def)

lemma edit_change_trans: "edit_change a b \<Longrightarrow> edit_change b c \<Longrightarrow> edit_change a c"
proof -
  assume "edit_change a b" "edit_change b c"
  then obtain d e where "edit b = Some d" "edit c = Some e"
    "d\<lparr>node_vm_size := node_vm_size (the (edit a)), nci := nci (the (edit a))\<rparr> = the (edit a)"
    "e\<lparr>node_vm_size := node_vm_size d, nci := nci d\<rparr> = d"
    by (auto simp: edit_change_def)
  then show ?thesis
    by (cases d; cases e; cases "the (edit a)") (simp add: edit_change_def)
qed

lemma block_found_expand:
  assumes "block_found n info1 (xs @ [N..<N + EXTEND_NODES]) r" and N: "N = nodes (header info)"
    and "nodes (header info1) = N + EXTEND_NODES" "pool_change info info1" "edit_change info info1"
    and same: "\<forall>j<N. j \<notin> set xs \<longrightarrow> node info1 j = node info j"
  shows "block_found n info xs r"
proof -
  obtain info' as s bs k where f: "r = Some (TreeSUCCESS, info', Some s, s + nat n - 1)"
      "free_list info' (as @ [s..<s + nat n] @ bs)"
      "as @ [s..<s + nat n] @ bs
       = (xs @ [N..<N + EXTEND_NODES]) @ [N + EXTEND_NODES..<N + EXTEND_NODES + k * EXTEND_NODES]"
      "nodes (header info') = N + EXTEND_NODES + k * EXTEND_NODES"
      "pool_change info1 info'" "edit_change info1 info'"
      "\<forall>j<N + EXTEND_NODES. j \<notin> set (xs @ [N..<N + EXTEND_NODES]) \<longrightarrow> node info' j = node info1 j"
    using assms(1) unfolding block_found_def assms(3) by blast
  have "[N..<N + EXTEND_NODES] @ [N + EXTEND_NODES..<N + EXTEND_NODES + k * EXTEND_NODES]
      = [N..<N + Suc k * EXTEND_NODES]"
    using upt_add_eq_append [of N "N + EXTEND_NODES" "k * EXTEND_NODES"] by (simp add: ac_simps)
  moreover have "node info' j = node info j" if "j < N" "j \<notin> set xs" for j
    using f(7) same that by simp
  moreover note pool_change_trans [OF assms(4) f(5)] edit_change_trans [OF assms(5) f(6)]
  ultimately show ?thesis
    unfolding block_found_def N [symmetric] using f(1-4)
    by (intro exI [of _ info'] exI [of _ as] exI [of _ s] exI [of _ bs] exI [of _ "Suc k"]) (simp add: ac_simps)
qed

lemma find_block_step:
  assumes "free_list info (pre @ this # nxt # post)" "i < n - 1"
  shows "find_block statics grows n info i start this =
    find_block statics grows n info (if nxt \<noteq> this + 1 then 0 else i + 1)
      (if i = 0 then Some this else start) nxt"
proof -
  have "parent (node info this) = node_offset (Some nxt) (Some this)" "nxt \<noteq> this"
    using assms by (auto simp: free_list_def)
  then show ?thesis using assms(2) by (subst find_block.simps) simp
qed

lemma find_block_expand:
  assumes "free_list info (pre @ [this])" "i < n - 1" "N = nodes (header info)"
  shows "\<exists>info1. find_block True True n info i start this =
      find_block True True n info1 i (if i = 0 then Some this else start) this
    \<and> free_list info1 (pre @ [this] @ [N..<N + EXTEND_NODES]) \<and> nodes (header info1) = N + EXTEND_NODES
    \<and> pool_change info info1 \<and> edit_change info info1
    \<and> (\<forall>j<N. j \<notin> set (pre @ [this]) \<longrightarrow> node info1 j = node info j)"
proof -
  have "parent (node info this) = 0"
    using assms by (simp add: free_list_def)
  moreover obtain info1 where "TreeExpandNodes True True info = Some (TreeSUCCESS, info1)"
      "free_list info1 (pre @ [this] @ [N..<N + EXTEND_NODES])"
      "pool_change info info1" "nodes (header info1) = N + EXTEND_NODES" "edit_change info info1"
      "\<forall>j<N. j \<notin> set (pre @ [this]) \<longrightarrow> node info1 j = node info j"
    using TreeExpandNodes_free_list [OF assms(1,3)] by auto
  ultimately show ?thesis
    using assms(2) by (intro exI [of _ info1]) (simp add: find_block.simps [of True True n info])
qed

text \<open>The search in a row of nodes that goes on to the end of the pool: the pool grows as needed.\<close>

lemma find_block_fresh:
  assumes "free_list info (as @ [s..<N])" "N = nodes (header info)" "edit info \<noteq> None"
    and "0 \<le> i" "i \<le> n - 1" "1 < n" "s + nat i < N" "i > 0 \<Longrightarrow> start = Some s"
  shows "block_found n info (as @ [s..<N]) (find_block True True n info i start (s + nat i))"
  using assms
proof (induction "nat (n - 1 - i)" arbitrary: info N i start)
  case 0
  then have i: "i = n - 1" "s + nat n - 1 = s + nat i" "s + nat n \<le> N" by simp_all
  moreover have "[s..<N] = [s..<s + nat n] @ [s + nat n..<N]"
    using i upt_add_eq_append [of s "s + nat n" "N - (s + nat n)"] by simp
  moreover have "find_block True True n info i start (s + nat i) = Some (TreeSUCCESS, info, Some s, s + nat i)"
    using i 0 by (subst find_block.simps) simp
  moreover obtain ed where "edit info = Some ed" using 0 by auto
  ultimately show ?case
    unfolding block_found_def using 0 edit_change_refl
    by (intro exI [of _ info] exI [of _ as] exI [of _ s] exI [of _ "[s + nat n..<N]"] exI [of _ 0]) simp
next
  case (Suc k)
  let ?at = "s + nat i"
  have i: "i < n - 1" and ni: "nat (i + 1) = Suc (nat i)" using Suc by simp_all
  have row: "[s..<M] = [s..<?at] @ ?at # Suc ?at # [Suc (Suc ?at)..<M]" if "Suc ?at < M" for M
    using that upt_add_eq_append [of s ?at "M - ?at"] by (simp add: upt_conv_Cons)
  have step: "block_found n info' (as @ [s..<M]) (find_block True True n info' i st ?at)"
    if "free_list info' (as @ [s..<M])" "M = nodes (header info')" "edit info' \<noteq> None" "Suc ?at < M"
      "i > 0 \<Longrightarrow> st = Some s" for info' M st
  proof -
    have "find_block True True n info' i st ?at =
        find_block True True n info' (i + 1) (if i = 0 then Some ?at else st) (Suc ?at)"
      using find_block_step [of info' "as @ [s..<?at]" ?at "Suc ?at" "[Suc (Suc ?at)..<M]" i n] that i
        row [OF that(4)] by simp
    moreover have "block_found n info' (as @ [s..<M])
        (find_block True True n info' (i + 1) (if i = 0 then Some ?at else st) (s + nat (i + 1)))"
      using that Suc by (intro Suc(1)) auto
    ultimately show ?thesis using ni by simp
  qed
  show ?case
  proof (cases "Suc ?at < N")
    case True
    then show ?thesis using step Suc by blast
  next
    case False
    then have N: "N = Suc ?at" using Suc(9) by linarith
    then have N2: "[s..<N] = [s..<?at] @ [?at]" by simp
    then have "free_list info ((as @ [s..<?at]) @ [?at])" using Suc by simp
    from find_block_expand [OF this i Suc(4), of start] obtain info1 where
      e: "find_block True True n info i start ?at =
        find_block True True n info1 i (if i = 0 then Some ?at else start) ?at"
      "free_list info1 ((as @ [s..<?at]) @ [?at] @ [N..<N + EXTEND_NODES])"
      "nodes (header info1) = N + EXTEND_NODES" "pool_change info info1" "edit_change info info1"
      "\<forall>j<N. j \<notin> set ((as @ [s..<?at]) @ [?at]) \<longrightarrow> node info1 j = node info j" by blast
    have all: "[s..<N + EXTEND_NODES] = [s..<N] @ [N..<N + EXTEND_NODES]"
      using N upt_add_eq_append [of s N EXTEND_NODES] by simp
    have fl: "free_list info1 (as @ [s..<N + EXTEND_NODES])"
      unfolding all N2 using e(2) by simp
    have "block_found n info1 (as @ [s..<N + EXTEND_NODES])
        (find_block True True n info1 i (if i = 0 then Some ?at else start) ?at)"
      using e(3,5) N Suc(10) fl by (intro step) (auto simp: edit_change_def EXTEND_NODES_def)
    then have "block_found n info1 ((as @ [s..<N]) @ [N..<N + EXTEND_NODES])
        (find_block True True n info i start ?at)"
      unfolding all e(1) by simp
    then show ?thesis
      using e(6) N2 by (intro block_found_expand [OF _ Suc(4) e(3-5)]) simp_all
  qed
qed

lemma block_found_here:
  assumes "edit info \<noteq> None" "free_list info (as @ [s..<s + nat n] @ bs)"
  shows "block_found n info (as @ [s..<s + nat n] @ bs) (Some (TreeSUCCESS, info, Some s, s + nat n - 1))"
proof -
  obtain ed where "edit info = Some ed" using assms by auto
  then show ?thesis
    unfolding block_found_def using assms edit_change_refl
    by - (rule exI [of _ info], rule exI [of _ as], rule exI [of _ s], rule exI [of _ bs], rule exI [of _ 0], simp)
qed

text \<open>The search from anywhere in the free list.\<close>

lemma find_block_found:
  assumes "free_list info (as @ [s..<Suc (s + nat i)] @ bs)" "edit info \<noteq> None"
    and "0 \<le> i" "i \<le> n - 1" "1 < n" "i > 0 \<Longrightarrow> start = Some s"
  shows "block_found n info (as @ [s..<Suc (s + nat i)] @ bs) (find_block True True n info i start (s + nat i))"
  using assms
proof (induction bs arbitrary: as s i start)
  case Nil
  let ?at = "s + nat i" and ?N = "nodes (header info)"
  show ?case
  proof (cases "i < n - 1")
    case True
    have "free_list info ((as @ [s..<?at]) @ [?at])" using Nil by simp
    from find_block_expand [OF this True refl, of start] obtain info1 where
      e: "find_block True True n info i start ?at =
        find_block True True n info1 i (if i = 0 then Some ?at else start) ?at"
      "free_list info1 ((as @ [s..<?at]) @ [?at] @ [?N..<?N + EXTEND_NODES])"
      "nodes (header info1) = ?N + EXTEND_NODES" "pool_change info info1" "edit_change info info1"
      "\<forall>j<?N. j \<notin> set ((as @ [s..<?at]) @ [?at]) \<longrightarrow> node info1 j = node info j" by blast
    have ed: "edit info1 \<noteq> None" using e(5) by (auto simp: edit_change_def)
    have pos: "0 < EXTEND_NODES" by (simp add: EXTEND_NODES_def)
    have "block_found n info1 ((as @ [s..<Suc ?at]) @ [?N..<?N + EXTEND_NODES])
        (find_block True True n info1 i (if i = 0 then Some ?at else start) ?at)"
    proof (cases "?N = Suc ?at")
      case True
      then have all: "[s..<Suc ?at] @ [?N..<?N + EXTEND_NODES] = [s..<?N + EXTEND_NODES]"
        using upt_add_eq_append [of s "Suc ?at" EXTEND_NODES] by simp
      then have eq: "(as @ [s..<Suc ?at]) @ [?N..<?N + EXTEND_NODES] = as @ [s..<?N + EXTEND_NODES]" by simp
      have "free_list info1 ((as @ [s..<Suc ?at]) @ [?N..<?N + EXTEND_NODES])" using e(2) by simp
      then show ?thesis
        unfolding eq using True e(3) ed Nil pos by (intro find_block_fresh) auto
    next
      case False
      have "free_list info1 ((as @ [s..<?at]) @ ?at # ?N # [Suc ?N..<?N + EXTEND_NODES])"
        using e(2) pos by (simp add: upt_conv_Cons)
      from find_block_step [OF this True] False
      have "find_block True True n info1 i (if i = 0 then Some ?at else start) ?at =
          find_block True True n info1 0 (if i = 0 then Some ?at else start) (?N + nat 0)"
        by simp
      moreover have "free_list info1 ((as @ [s..<Suc ?at]) @ [?N..<?N + EXTEND_NODES])" using e(2) by simp
      ultimately show ?thesis
        using e(3) ed Nil pos by (simp only:, intro find_block_fresh) auto
    qed
    then show ?thesis
      unfolding e(1) using e(6) by (intro block_found_expand [OF _ refl e(3-5)]) simp_all
  next
    case False
    then have i: "i = n - 1" using Nil by simp
    then have n: "find_block True True n info i start ?at = Some (TreeSUCCESS, info, Some s, ?at)"
      "s + nat n = Suc ?at" using Nil by (subst find_block.simps, simp, simp)
    then show ?thesis
      using block_found_here [of info as s n "[]"] Nil by simp
  qed
next
  case (Cons y bs)
  let ?at = "s + nat i"
  show ?case
  proof (cases "i < n - 1")
    case True
    have "free_list info ((as @ [s..<?at]) @ ?at # y # bs)" using Cons.prems by simp
    note step = find_block_step [OF this True, of True True start]
    show ?thesis
    proof (cases "y = Suc ?at")
      case y: True
      have ni: "nat (i + 1) = Suc (nat i)" using Cons.prems by simp
      then have row: "[s..<Suc ?at] @ y # bs = [s..<Suc (s + nat (i + 1))] @ bs" using y by simp
      have "block_found n info (as @ [s..<Suc (s + nat (i + 1))] @ bs)
          (find_block True True n info (i + 1) (if i = 0 then Some ?at else start) (s + nat (i + 1)))"
        using Cons.prems(1) [unfolded row] by (rule Cons.IH) (use Cons.prems(2-6) True in auto)
      then show ?thesis using step y unfolding row ni by simp
    next
      case False
      have "block_found n info ((as @ [s..<Suc ?at]) @ [y..<Suc (y + nat 0)] @ bs)
          (find_block True True n info 0 (if i = 0 then Some ?at else start) (y + nat 0))"
        using Cons.prems by (intro Cons.IH) auto
      then show ?thesis using step False by simp
    qed
  next
    case False
    then have i: "i = n - 1" using Cons.prems by simp
    then have n: "find_block True True n info i start ?at = Some (TreeSUCCESS, info, Some s, ?at)"
      "s + nat n = Suc ?at" using Cons.prems by (subst find_block.simps, simp, simp)
    then show ?thesis
      using block_found_here [of info as s n "y # bs"] Cons.prems by simp
  qed
qed


text \<open>A segment whose two ends are linked to other neighbours.\<close>

lemma dll_new_ends:
  assumes "dll ns pre xs nxt" "distinct xs"
    and "\<And>x. x \<in> set xs \<Longrightarrow> child (ms x) = (if x = hd xs then node_offset pre' (Some x) else child (ns x))"
    and "\<And>x. x \<in> set xs \<Longrightarrow> parent (ms x) = (if x = last xs then node_offset nxt' (Some x) else parent (ns x))"
  shows "dll ms pre' xs nxt'"
  using assms
proof (induction xs arbitrary: pre pre')
  case (Cons x xs)
  have "dll ms (Some x) xs nxt'"
  proof (rule Cons.IH)
    show "dll ns (Some x) xs nxt" "distinct xs" using Cons.prems by simp_all
    fix y assume y: "y \<in> set xs"
    then have "xs \<noteq> []" "y \<noteq> x" using Cons.prems(2) by auto
    show "child (ms y) = (if y = hd xs then node_offset (Some x) (Some y) else child (ns y))"
      using Cons.prems(1,2) Cons.prems(3) [of y] y \<open>y \<noteq> x\<close> by (cases xs) auto
    show "parent (ms y) = (if y = last xs then node_offset nxt' (Some y) else parent (ns y))"
      using Cons.prems(4) [of y] y \<open>xs \<noteq> []\<close> by simp
  qed
  moreover have "child (ms x) = node_offset pre' (Some x)" using Cons.prems(3) [of x] by simp
  moreover have "parent (ms x) = node_offset (first_of xs nxt') (Some x)"
    using Cons.prems(1,2) Cons.prems(4) [of x] by (cases xs) auto
  ultimately show ?case by simp
qed simp

text \<open>The links \<open>move_block\<close> writes.\<close>

lemma move_block_links:
  assumes l: "free_list info (as @ [s..<e] @ bs)" and as: "as \<noteq> []" and e: "s < e"
  defines "ns \<equiv> node info" and "ms \<equiv> node (move_block s (e - 1) info)"
  shows "child (ms j) = (if j = s then 0 else if j = hd as then node_offset (Some (e - 1)) (Some j)
           else if first_of bs None = Some j then node_offset (Some (last as)) (Some j) else child (ns j))"
    and "parent (ms j) = (if j = e - 1 then node_offset (Some (hd as)) (Some j)
           else if j = last as then node_offset (first_of bs None) (Some j) else parent (ns j))"
    and "j \<notin> set (as @ [s..<e] @ bs) \<Longrightarrow> ms j = ns j"
proof -
  define a l t where "a = hd as" and "l = last as" and "t = e - 1"
  have fn: "free_node info = a" using free_list_Cons [of info a] assms(1) as by (cases as) (simp_all add: a_def)
  have d: "distinct (as @ [s..<e] @ bs)" and dl: "dll ns None (as @ [s..<e] @ bs) None"
    using assms(1) by (simp_all add: free_list_def ns_def)
  have seg: "[s..<e] = s # [Suc s..<e]" "[s..<e] = [s..<t] @ [t]"
    using e by (simp_all add: upt_conv_Cons t_def flip: upt_Suc_append)
  have inn: "l \<in> set as" "a \<in> set as" "s \<in> set [s..<e]" "t \<in> set [s..<e]"
    using as e by (auto simp: a_def l_def t_def)
  then have apart: "l \<noteq> s" "l \<noteq> t" "a \<noteq> s" "a \<noteq> t" "t \<notin> set bs" "s \<notin> set bs"
    "l \<notin> set bs" "a \<notin> set bs"
    using d by (auto simp del: set_upt)
  have "child (ns s) = node_offset (Some l) (Some s)"
    using dl as unfolding seg(1) by (simp add: last_of_def l_def)
  then have prev: "child0 ns s = Some l" using apart by simp
  have "parent (ns t) = node_offset (first_of bs None) (Some t)"
    using dl unfolding seg(2) by simp
  moreover have "first_of bs None \<noteq> Some t" using apart by (cases bs) auto
  ultimately have nxt: "parent0 ns t = first_of bs None" by (simp add: follow_offset_opt)
  note def = ms_def move_block_def Let_def set_parent_def set_child_def fn prev [unfolded ns_def] nxt [unfolded ns_def]
  show "child (ms j) = (if j = s then 0 else if j = hd as then node_offset (Some (e - 1)) (Some j)
           else if first_of bs None = Some j then node_offset (Some (last as)) (Some j) else child (ns j))"
    unfolding a_def [symmetric] l_def [symmetric] t_def [symmetric]
    using apart by (cases bs) (simp_all add: def ns_def t_def [symmetric] del: One_nat_def)
  show "parent (ms j) = (if j = e - 1 then node_offset (Some (hd as)) (Some j)
           else if j = last as then node_offset (first_of bs None) (Some j) else parent (ns j))"
    unfolding a_def [symmetric] l_def [symmetric] t_def [symmetric]
    using apart by (cases bs) (simp_all add: def ns_def t_def [symmetric] del: One_nat_def)
  show "ms j = ns j" if "j \<notin> set (as @ [s..<e] @ bs)"
  proof -
    have "j \<noteq> l" "j \<noteq> a" "j \<noteq> s" "j \<noteq> t" "first_of bs None \<noteq> Some j"
      using that inn by (auto simp: first_of_def simp del: set_upt split: list.splits)
    then show ?thesis by (cases bs) (simp_all add: def ns_def t_def [symmetric] del: One_nat_def)
  qed
qed

lemma move_block_free_list:
  assumes l: "free_list info (as @ [s..<e] @ bs)" and as: "as \<noteq> []" and e: "s < e"
  shows "free_list (move_block s (e - 1) info) ([s..<e] @ as @ bs)"
    and "pool_change info (move_block s (e - 1) info)"
    and "nodes (header (move_block s (e - 1) info)) = nodes (header info)"
    and "edit (move_block s (e - 1) info) = edit info"
proof -
  let ?ms = "node (move_block s (e - 1) info)"
  note links = move_block_links [OF assms]
  have d: "distinct (as @ [s..<e] @ bs)" and dl: "dll (node info) None (as @ [s..<e] @ bs) None"
    using l by (simp_all add: free_list_def)
  have ends: "hd [s..<e] = s" "last [s..<e] = e - 1" using e by simp_all
  have inn: "hd as \<in> set as" "last as \<in> set as" "s \<in> set [s..<e]" "e - 1 \<in> set [s..<e]"
    using as e by auto
  have old: "dll (node info) (last_of None as) [s..<e] (first_of bs None)"
    "dll (node info) None as (Some s)" "dll (node info) (Some (e - 1)) bs None"
  proof -
    have "dll (node info) (last_of (last_of None as) [s..<e]) bs None" using dl by simp
    then show "dll (node info) (Some (e - 1)) bs None" using e by (simp add: last_of_def)
    show "dll (node info) (last_of None as) [s..<e] (first_of bs None)"
      "dll (node info) None as (Some s)"
      using dl e by (simp_all add: upt_conv_Cons)
  qed
  have bs: "first_of bs None = Some x \<longleftrightarrow> bs \<noteq> [] \<and> x = hd bs" for x by (cases bs) auto
  have "dll ?ms None [s..<e] (Some (hd as))"
  proof (rule dll_new_ends [OF old(1)])
    fix x assume "x \<in> set [s..<e]"
    then have x: "x \<notin> set as" "x \<notin> set bs" using d by (auto simp del: set_upt)
    then have "x \<noteq> hd as" "x \<noteq> last as" "first_of bs None \<noteq> Some x" using inn by (auto simp: bs)
    then show "child (?ms x) = (if x = hd [s..<e] then node_offset None (Some x) else child (node info x))"
      and "parent (?ms x) = (if x = last [s..<e] then node_offset (Some (hd as)) (Some x) else parent (node info x))"
      using ends by (simp_all add: links del: One_nat_def)
  qed simp
  moreover have "dll ?ms (Some (e - 1)) as (first_of bs None)"
  proof (rule dll_new_ends [OF old(2)])
    fix x assume "x \<in> set as"
    then have x: "x \<notin> set [s..<e]" "x \<notin> set bs" using d by (auto simp del: set_upt)
    then have "x \<noteq> s" "x \<noteq> e - 1" "first_of bs None \<noteq> Some x" using inn by (auto simp: bs simp del: set_upt)
    then show "child (?ms x) = (if x = hd as then node_offset (Some (e - 1)) (Some x) else child (node info x))"
      and "parent (?ms x) = (if x = last as then node_offset (first_of bs None) (Some x) else parent (node info x))"
      by (simp_all add: links del: One_nat_def)
  qed (use d in simp)
  moreover have "dll ?ms (Some (last as)) bs None"
  proof (rule dll_new_ends [OF old(3)])
    fix x assume xb: "x \<in> set bs"
    then have x: "x \<notin> set [s..<e]" "x \<notin> set as" using d by (auto simp del: set_upt)
    then have "x \<noteq> s" "x \<noteq> e - 1" "x \<noteq> hd as" "x \<noteq> last as" using inn by (auto simp del: set_upt)
    moreover have "x = last bs \<longrightarrow> parent (node info x) = 0"
      using old(3) xb by (cases bs rule: rev_cases) auto
    ultimately show "child (?ms x) = (if x = hd bs then node_offset (Some (last as)) (Some x) else child (node info x))"
      and "parent (?ms x) = (if x = last bs then node_offset None (Some x) else parent (node info x))"
      using xb by (auto simp: links bs simp del: One_nat_def)
  qed (use d in simp)
  moreover have "[s..<e] \<noteq> []" using e by simp
  ultimately have "dll ?ms None ([s..<e] @ as @ bs) None"
    using as ends by (simp add: last_of_def) (cases as; simp)
  moreover have "[s..<e] = s # [Suc s..<e]" using e by (simp add: upt_conv_Cons)
  ultimately show "free_list (move_block s (e - 1) info) ([s..<e] @ as @ bs)"
    using l by (auto simp: free_list_def move_block_def Let_def node_offset_def)
  show "pool_change info (move_block s (e - 1) info)"
    "nodes (header (move_block s (e - 1) info)) = nodes (header info)"
    "edit (move_block s (e - 1) info) = edit info"
    by (simp_all add: move_block_def Let_def pool_change_def)
qed


text \<open>The front of the free list after the reservation of a block.\<close>

lemma reserve_block_found:
  assumes fl: "free_list info xs" and ed: "edit info \<noteq> None" and n: "1 < n" and xs: "xs \<noteq> []"
  shows "\<exists>info' s rest k. reserve_block True True n info = Some (TreeSUCCESS, info')
    \<and> free_list info' ([s..<s + nat n] @ rest)
    \<and> mset ([s..<s + nat n] @ rest)
        = mset (xs @ [nodes (header info)..<nodes (header info) + k * EXTEND_NODES])
    \<and> nodes (header info') = nodes (header info) + k * EXTEND_NODES
    \<and> pool_change info info' \<and> edit_change info info'
    \<and> (\<forall>j<nodes (header info). j \<notin> set xs \<longrightarrow> node info' j = node info j)"
proof -
  obtain x r where x: "xs = x # r" using xs by (cases xs) auto
  have fn: "free_node info = x" "free (header info) \<noteq> -1" "\<not> free (header info) < 0"
    using free_list_Cons [OF fl [unfolded x]] free_list_empty [OF fl] free_list_nonneg [OF fl] xs by simp_all
  have "block_found n info ([] @ [x..<Suc (x + nat 0)] @ r) (find_block True True n info 0 None (x + nat 0))"
    using fl ed n x by (intro find_block_found) auto
  then obtain info1 as s bs k where f: "find_block True True n info 0 None x = Some (TreeSUCCESS, info1, Some s, s + nat n - 1)"
      "free_list info1 (as @ [s..<s + nat n] @ bs)"
      "as @ [s..<s + nat n] @ bs = xs @ [nodes (header info)..<nodes (header info) + k * EXTEND_NODES]"
      "nodes (header info1) = nodes (header info) + k * EXTEND_NODES"
      "pool_change info info1" "edit_change info info1"
      "\<forall>j<nodes (header info). j \<notin> set xs \<longrightarrow> node info1 j = node info j"
    using x by (auto simp: block_found_def)
  note def = reserve_block_def fn f(1)
  have m: "mset (as @ [s..<s + nat n] @ bs)
      = mset (xs @ [nodes (header info)..<nodes (header info) + k * EXTEND_NODES])"
    using f(3) by (rule arg_cong)
  have s: "[s..<s + nat n] = s # [Suc s..<s + nat n]" using n by (simp add: upt_conv_Cons)
  show ?thesis
  proof (cases as)
    case Nil
    then have "child (node info1 s) = 0" using f(2) s by (simp add: free_list_def)
    then have "reserve_block True True n info = Some (TreeSUCCESS, info1)" by (simp add: def)
    then show ?thesis
      using f m Nil
      by - (rule exI [of _ info1], rule exI [of _ s], rule exI [of _ bs], rule exI [of _ k], simp)
  next
    case (Cons a as')
    then have as: "as \<noteq> []" by simp
    have sn: "s < s + nat n" using n by simp
    have "s \<notin> set as" using f(2) s by (auto simp: free_list_def)
    moreover have "child (node info1 s) = node_offset (Some (last as)) (Some s)"
      using f(2) as unfolding s by (simp add: free_list_def last_of_def)
    ultimately have "child (node info1 s) \<noteq> 0" using last_in_set [OF as] by auto
    then have "reserve_block True True n info = Some (TreeSUCCESS, move_block s (s + nat n - 1) info1)"
      by (simp add: def)
    moreover note M = move_block_free_list [OF f(2) as sn]
    moreover have "pool_change info (move_block s (s + nat n - 1) info1)"
      using pool_change_trans [OF f(5) M(2)] .
    moreover have "edit_change info (move_block s (s + nat n - 1) info1)"
      using f(6) M(4) by (simp add: edit_change_def)
    moreover have "mset ([s..<s + nat n] @ as @ bs) = mset (as @ [s..<s + nat n] @ bs)" by simp
    moreover have "node (move_block s (s + nat n - 1) info1) j = node info j"
      if "j < nodes (header info)" "j \<notin> set xs" for j
    proof -
      have "j \<notin> set (as @ [s..<s + nat n] @ bs)"
        unfolding f(3) using that by simp
      then show ?thesis using move_block_links(3) [OF f(2) as sn] f(7) that by simp
    qed
    ultimately show ?thesis using m f(4) by (metis (no_types, lifting))
  qed
qed

end
