(* ===== verification/TreeConglom.thy ===== *)
theory TreeConglom
  imports TreePool
begin

text \<open>
  What the reservation of a block of nodes for a conglomerate and the trimming of the pool do to the
  free list (\<open>_TreeStartConglomerate\<close>, \<open>_TreeEndConglomerate\<close> and \<open>trim_excess_nodes\<close>, defined in
  \<open>TreePool\<close>).
\<close>

section \<open>The reservation of a block\<close>


lemma reserve_block_expand:
  assumes "free (header info) = -1" "TreeExpandNodes True True info = Some (TreeSUCCESS, info1)"
    "free (header info1) \<noteq> -1"
  shows "reserve_block True True n info = reserve_block True True n info1"
  using assms by (simp add: reserve_block_def)

lemma reserve_block_one:
  assumes fl: "free_list info (x # r)"
  shows "reserve_block True True 1 info = Some (TreeSUCCESS, info)"
proof -
  have "free (header info) \<noteq> -1" using free_list_empty [OF fl] by simp
  then show ?thesis by (simp add: reserve_block_def find_block.simps)
qed

text \<open>The reservation of a block, in any state of the free list.\<close>

lemma reserve_block_free_list:
  assumes fl: "free_list info xs" and ed: "edit info \<noteq> None" and n: "0 < n"
  shows "\<exists>info' s rest k. reserve_block True True n info = Some (TreeSUCCESS, info')
    \<and> free_list info' ([s..<s + nat n] @ rest)
    \<and> mset ([s..<s + nat n] @ rest)
        = mset (xs @ [nodes (header info)..<nodes (header info) + k * EXTEND_NODES])
    \<and> nodes (header info') = nodes (header info) + k * EXTEND_NODES
    \<and> pool_change info info' \<and> edit_change info info'
    \<and> (\<forall>j<nodes (header info). j \<notin> set xs \<longrightarrow> node info' j = node info j)"
proof -
  have nonempty: "\<exists>info' s rest k. reserve_block True True n info = Some (TreeSUCCESS, info')
    \<and> free_list info' ([s..<s + nat n] @ rest)
    \<and> mset ([s..<s + nat n] @ rest)
        = mset (xs @ [nodes (header info)..<nodes (header info) + k * EXTEND_NODES])
    \<and> nodes (header info') = nodes (header info) + k * EXTEND_NODES
    \<and> pool_change info info' \<and> edit_change info info'
    \<and> (\<forall>j<nodes (header info). j \<notin> set xs \<longrightarrow> node info' j = node info j)"
    if here: "free_list info xs" "edit info \<noteq> None" "xs \<noteq> []" for info xs
  proof (cases "n = 1")
    case True
    obtain x r where x: "xs = x # r" using here(3) by (cases xs) auto
    obtain ed where "edit info = Some ed" using here(2) by auto
    then show ?thesis
      using reserve_block_one [of info x r] here x True edit_change_refl
      by - (rule exI [of _ info], rule exI [of _ x], rule exI [of _ r], rule exI [of _ 0], simp)
  qed (use reserve_block_found here n in auto)
  show ?thesis
  proof (cases "xs = []")
    case False
    then show ?thesis using nonempty fl ed by blast
  next
    case True
    let ?N = "nodes (header info)"
    obtain info1 where e: "TreeExpandNodes True True info = Some (TreeSUCCESS, info1)"
      "free_list info1 [?N..<?N + EXTEND_NODES]" "pool_change info info1"
      "nodes (header info1) = ?N + EXTEND_NODES" "\<forall>i<?N. node info1 i = node info i" "edit_change info info1"
      using TreeExpandNodes_free_list [OF fl refl] True by auto
    have ne: "[?N..<?N + EXTEND_NODES] \<noteq> []" by (simp add: EXTEND_NODES_def)
    have r: "reserve_block True True n info = reserve_block True True n info1"
      using free_list_empty [OF fl] free_list_empty [OF e(2)] True ne e(1) by (intro reserve_block_expand) auto
    have "edit info1 \<noteq> None" using e(6) by (auto simp: edit_change_def)
    from nonempty [OF e(2) this ne] obtain info' s rest k where i:
      "reserve_block True True n info1 = Some (TreeSUCCESS, info')"
      "free_list info' ([s..<s + nat n] @ rest)"
      "mset ([s..<s + nat n] @ rest)
        = mset ([?N..<?N + EXTEND_NODES] @ [?N + EXTEND_NODES..<?N + EXTEND_NODES + k * EXTEND_NODES])"
      "nodes (header info') = ?N + EXTEND_NODES + k * EXTEND_NODES"
      "pool_change info1 info'" "edit_change info1 info'"
      "\<forall>j<?N + EXTEND_NODES. j \<notin> set [?N..<?N + EXTEND_NODES] \<longrightarrow> node info' j = node info1 j"
      unfolding e(4) by blast
    have "[?N..<?N + EXTEND_NODES] @ [?N + EXTEND_NODES..<?N + EXTEND_NODES + k * EXTEND_NODES]
        = [?N..<?N + Suc k * EXTEND_NODES]"
      using upt_add_eq_append [of ?N "?N + EXTEND_NODES" "k * EXTEND_NODES"] by (simp add: ac_simps)
    then show ?thesis
      using i e(5) r True pool_change_trans [OF e(3) i(5)] edit_change_trans [OF e(6) i(6)]
      by - (rule exI [of _ info'], rule exI [of _ s], rule exI [of _ rest], rule exI [of _ "Suc k"],
        simp add: ac_simps)
  qed
qed

text \<open>The nodes that \<open>k\<close> calls of \<open>TreeNewNode\<close> return.\<close>

fun new_nodes :: "nat \<Rightarrow> TREE_INFO \<Rightarrow> (nat list \<times> TREE_INFO) option" where
  "new_nodes 0 info = Some ([], info)"
| "new_nodes (Suc k) info =
     (case TreeNewNode True True info of
        Some (status, i, info) \<Rightarrow>
          if STATUS_OK status then map_option (\<lambda>(is, info). (i # is, info)) (new_nodes k info) else None
      | None \<Rightarrow> None)"

lemma new_nodes_free_list:
  "free_list info (xs @ ys) \<Longrightarrow> \<exists>info'. new_nodes (length xs) info = Some (xs, info') \<and> free_list info' ys"
proof (induction xs arbitrary: info)
  case (Cons x xs)
  then obtain info1 where "TreeNewNode True True info = Some (TreeSUCCESS, x, info1)" "free_list info1 (xs @ ys)"
    using pop_free [of info x "xs @ ys" True True] by auto
  then show ?case using Cons.IH [of info1] by auto
qed simp

text \<open>
  C17: \<open>_TreeStartConglomerate\<close> ends and reserves a block: for a conglomerate of \<open>n\<close> elements, at most
  32767, the next \<open>n\<close> nodes that \<open>TreeNewNode\<close> returns are contiguous. The free nodes are the same
  nodes in another order with those of the extensions of the pool, no node in use changes, and
  the edit block counts the elements from 0.
\<close>

theorem TreeStartConglomerate_reserves:
  assumes "IS_OPEN_FOR_EDIT db" "free_list (tree_info db) xs" "edit (tree_info db) \<noteq> None"
    and "0 < n" "n \<le> 0x7fff" and "N = nodes (header (tree_info db))"
  shows "\<exists>db' s rest k info'. TreeStartConglomerate True True db n = Some (TreeSUCCESS, db')
    \<and> free_list (tree_info db') ([s..<s + nat n] @ rest)
    \<and> mset ([s..<s + nat n] @ rest) = mset (xs @ [N..<N + k * EXTEND_NODES])
    \<and> new_nodes (nat n) (tree_info db') = Some ([s..<s + nat n], info')
    \<and> (\<forall>j<N. j \<notin> set xs \<longrightarrow> node (tree_info db') j = node (tree_info db) j)
    \<and> sint (conglomerate_size (the (edit (tree_info db')))) = n
    \<and> conglomerate_index (the (edit (tree_info db'))) = 0
    \<and> conglomerate_setup (the (edit (tree_info db'))) = setup_info db \<and> \<not> setup_info db'"
proof -
  obtain info1 s rest k where r:
    "reserve_block True True n (tree_info db) = Some (TreeSUCCESS, info1)"
    "free_list info1 ([s..<s + nat n] @ rest)"
    "mset ([s..<s + nat n] @ rest) = mset (xs @ [N..<N + k * EXTEND_NODES])"
    "\<forall>j<N. j \<notin> set xs \<longrightarrow> node info1 j = node (tree_info db) j"
    using reserve_block_free_list [OF assms(2-4)] unfolding assms(6) [symmetric] by blast
  let ?info = "info1\<lparr>edit := Some ((the (edit info1))\<lparr>conglomerate_index := 0,
    conglomerate_size := word_of_int n, conglomerate_setup := setup_info db\<rparr>)\<rparr>"
  have "TreeStartConglomerate True True db n = Some (TreeSUCCESS, db\<lparr>tree_info := ?info, setup_info := False\<rparr>)"
    using assms(1,5) r(1) by (simp add: TreeStartConglomerate_def)
  moreover have "free_list ?info ([s..<s + nat n] @ rest)" using r(2) by simp
  moreover obtain info' where "new_nodes (nat n) ?info = Some ([s..<s + nat n], info')"
    using new_nodes_free_list [OF calculation(2)] by auto
  moreover have "sint (word_of_int n :: u16) = n"
    using assms(4,5) by (simp add: sint_sbintrunc' signed_take_bit_int_eq_self)
  ultimately show ?thesis
    using r(3,4)
    by - (rule exI [of _ "db\<lparr>tree_info := ?info, setup_info := False\<rparr>"], rule exI [of _ s],
      rule exI [of _ rest], rule exI [of _ k], rule exI [of _ info'], simp)
qed


text \<open>
  \<open>_TreeEndConglomerate\<close> tells whether all elements were added: it compares the two counters of
  the edit block, which it resets, and restores the setup flag the start had saved.
\<close>

theorem TreeEndConglomerate_result:
  assumes "IS_OPEN_FOR_EDIT db" "edit (tree_info db) = Some ed"
  shows "fst (TreeEndConglomerate db) =
      (if conglomerate_size ed <s conglomerate_index ed then TreeCONGLOMFULL
       else if conglomerate_index ed <s conglomerate_size ed then TreeCONGLOM_NOT_FULL else TreeSUCCESS)
    \<and> edit (tree_info (snd (TreeEndConglomerate db))) =
        Some (ed\<lparr>conglomerate_size := 0, conglomerate_index := 0\<rparr>)
    \<and> setup_info (snd (TreeEndConglomerate db)) = conglomerate_setup ed
    \<and> fst (TreeEndConglomerate (snd (TreeEndConglomerate db))) = TreeSUCCESS"
  using assms by (simp add: TreeEndConglomerate_def Let_def word_sless_alt IS_OPEN_FOR_EDIT_def)


section \<open>Trimming\<close>

lemma unlink_free_list:
  assumes l: "free_list info xs" and i: "i \<in> set xs"
  shows "free_list (unlink_free info i) (filter (\<lambda>x. x \<noteq> i) xs)"
    and "nodes (header (unlink_free info i)) = nodes (header info)"
    and "pool_change info (unlink_free info i)"
    and "j \<notin> set xs \<Longrightarrow> node (unlink_free info i) j = node info j"
    and "edit (unlink_free info i) = edit info"
proof -
  show "nodes (header (unlink_free info i)) = nodes (header info)"
    "pool_change info (unlink_free info i)" "edit (unlink_free info i) = edit info"
    by (simp_all add: unlink_free_def Let_def pool_change_def)
  obtain as bs where xs: "xs = as @ i # bs" using i by (auto simp: in_set_conv_decomp)
  have d: "distinct (as @ i # bs)" and dl: "dll (node info) None (as @ i # bs) None"
    using l xs by (simp_all add: free_list_def)
  have flt: "filter (\<lambda>x. x \<noteq> i) xs = as @ bs"
  proof -
    have "filter (\<lambda>x. x \<noteq> i) as = as" "filter (\<lambda>x. x \<noteq> i) bs = bs"
      using d by (intro filter_True; auto)+
    then show ?thesis by (simp add: xs)
  qed
  have fi: "parent (node info i) = node_offset (first_of bs None) (Some i)"
    "child (node info i) = node_offset (last_of None as) (Some i)"
    using dl by simp_all
  have ne: "first_of bs None \<noteq> Some i" "last_of None as \<noteq> Some i"
    using d by (auto simp: first_of_def last_of_def split: list.splits)
  have p: "parent0 (node info) i = first_of bs None" and c: "child0 (node info) i = last_of None as"
    using fi ne by (simp_all add: follow_offset_opt)
  have old: "dll (node info) None as (Some i)" "dll (node info) (Some i) bs None"
    using dl by simp_all
  let ?ms = "node (unlink_free info i)"
  have fn: "free_node info = (if as = [] then i else hd as)"
    using free_list_Cons [of info] l xs by (cases as) auto
  have off: "at_offset i (parent (node info i)) = b \<and> parent (node info i) \<noteq> 0" if "first_of bs None = Some b" for b
    using fi ne that by auto
  have par0: "parent (node info i) = 0 \<longleftrightarrow> first_of bs None = None"
    using fi(1) ne(1) by (cases "first_of bs None") auto
  have hi: "as \<noteq> [] \<Longrightarrow> i \<noteq> hd as" using d by (cases as) auto
  have la: "as \<noteq> [] \<Longrightarrow> first_of bs None \<noteq> Some (last as)"
    using d last_in_set [of as] by (auto simp: first_of_def split: list.splits)
  have ms: "?ms x = (if first_of bs None = Some x then (node info x)\<lparr>child := node_offset (last_of None as) (Some x)\<rparr>
      else if as \<noteq> [] \<and> x = last as then (node info x)\<lparr>parent := node_offset (first_of bs None) (Some x)\<rparr>
      else node info x)" for x
  proof (cases "first_of bs None")
    case None
    then show ?thesis using fn par0 p c hi
      by (cases "as = []") (auto simp: unlink_free_def Let_def last_of_def)
  next
    case (Some b)
    then show ?thesis using fn par0 p c hi off [OF Some] la
      by (cases "as = []") (auto simp: unlink_free_def Let_def last_of_def)
  qed
  have lin: "as \<noteq> [] \<Longrightarrow> last as \<in> set as" by simp
  have bs: "first_of bs None = Some x \<longleftrightarrow> bs \<noteq> [] \<and> x = hd bs" for x by (cases bs) auto
  show "node (unlink_free info i) j = node info j" if "j \<notin> set xs"
    using that lin unfolding ms xs by (auto simp: bs)
  have "dll ?ms None as (first_of bs None)"
  proof (rule dll_new_ends [OF old(1)])
    fix x assume x: "x \<in> set as"
    then have "as \<noteq> []" "first_of bs None \<noteq> Some x" using d by (auto simp: bs)
    moreover have "x = hd as \<Longrightarrow> child (node info x) = 0" using x old(1) by (cases as) auto
    ultimately show "child (?ms x) = (if x = hd as then node_offset None (Some x) else child (node info x))"
      "parent (?ms x) = (if x = last as then node_offset (first_of bs None) (Some x) else parent (node info x))"
      unfolding ms by auto
  qed (use d in simp)
  moreover have "dll ?ms (last_of None as) bs None"
  proof (rule dll_new_ends [OF old(2)])
    fix x assume x: "x \<in> set bs"
    have "set as \<inter> set bs = {}" using d by auto
    then have "as \<noteq> [] \<Longrightarrow> x \<noteq> last as" using x lin by blast
    moreover have "x = last bs \<Longrightarrow> parent (node info x) = 0"
      using x old(2) by (cases bs rule: rev_cases) auto
    ultimately show "child (?ms x) = (if x = hd bs then node_offset (last_of None as) (Some x) else child (node info x))"
      "parent (?ms x) = (if x = last bs then node_offset None (Some x) else parent (node info x))"
      using x unfolding ms by (auto simp: bs)
  qed (use d in simp)
  moreover have "free (header (unlink_free info i)) = (case as @ bs of [] \<Rightarrow> -1 | x # _ \<Rightarrow> int x * NODE_SIZE)"
  proof (cases "as = []")
    case True
    then have "free (header info) = int i * NODE_SIZE" using free_list_Cons [of info i bs] l xs by simp
    then show ?thesis using True fn fi(1) par0 offset_add [of i]
      by (cases bs) (simp_all add: unlink_free_def Let_def)
  next
    case False
    then show ?thesis using fn hi l xs
      by (cases as) (simp_all add: unlink_free_def Let_def free_list_def)
  qed
  ultimately show "free_list (unlink_free info i) (filter (\<lambda>x. x \<noteq> i) xs)"
    using l d unfolding flt by (auto simp: free_list_def xs unlink_free_def Let_def)
qed

lemma unlink_from_list:
  assumes "free_list info xs" "{i..<i + k} \<subseteq> set xs"
  shows "free_list (unlink_from i k info) (filter (\<lambda>x. x \<notin> {i..<i + k}) xs)
    \<and> nodes (header (unlink_from i k info)) = nodes (header info)
    \<and> pool_change info (unlink_from i k info) \<and> edit (unlink_from i k info) = edit info
    \<and> (\<forall>j. j \<notin> set xs \<longrightarrow> node (unlink_from i k info) j = node info j)"
  using assms
proof (induction k arbitrary: i info xs)
  case (Suc k)
  have i: "i \<in> set xs" using Suc.prems(2) by auto
  then have "free (header info) \<noteq> -1" using free_list_empty [OF Suc.prems(1)] by auto
  then have step: "unlink_from i (Suc k) info = unlink_from (Suc i) k (unlink_free info i)" by simp
  note U = unlink_free_list [OF Suc.prems(1) i]
  have "{Suc i..<Suc i + k} \<subseteq> set (filter (\<lambda>x. x \<noteq> i) xs)" using Suc.prems(2) by auto
  note IH = Suc.IH [OF U(1) this]
  have "filter (\<lambda>x. x \<notin> {Suc i..<Suc i + k}) (filter (\<lambda>x. x \<noteq> i) xs) = filter (\<lambda>x. x \<notin> {i..<i + Suc k}) xs"
    unfolding filter_filter by (rule filter_cong) auto
  then show ?case
    using IH U(2-5) pool_change_trans [OF U(3)] unfolding step by auto
qed simp

lemma last_used_Some:
  "last_used ns n = Some l \<Longrightarrow>
   l < n \<and> strncmp (take 12 (name (ns l))) empty_name \<noteq> 0
   \<and> (\<forall>i. l < i \<and> i < n \<longrightarrow> strncmp (take 12 (name (ns i))) empty_name = 0)"
proof (induction n)
  case (Suc n)
  then show ?case by (auto split: if_splits simp: less_Suc_eq)
qed simp

lemma last_used_exists:
  "i < n \<Longrightarrow> strncmp (take 12 (name (ns i))) empty_name \<noteq> 0 \<Longrightarrow> \<exists>l. last_used ns n = Some l"
  by (induction n) (auto simp: less_Suc_eq)

text \<open>
  C33: \<open>trim_excess_nodes\<close> drops only free nodes: when every node that is called empty is free and some
  node is in use, it ends, the pool that is left still holds every node in use and every node
  on file, its free list is the old one without the nodes dropped, and no node in use changes.
\<close>

theorem trim_excess_nodes_free_list:
  assumes "free_list info xs" "u < nodes (header info)"
    and "strncmp (take 12 (name (node info u))) empty_name \<noteq> 0"
    and "\<forall>i<nodes (header info). strncmp (take 12 (name (node info i))) empty_name = 0 \<longrightarrow> i \<in> set xs"
  shows "\<exists>info'. trim_excess_nodes info = Some info'
    \<and> free_list info' (filter (\<lambda>x. x < nodes (header info')) xs)
    \<and> nodes (header info') \<le> nodes (header info)
    \<and> (\<forall>i<nodes (header info). strncmp (take 12 (name (node info i))) empty_name \<noteq> 0
          \<or> i < first_in_mem (the (edit info)) \<longrightarrow> i < nodes (header info'))
    \<and> pool_change info info' \<and> edit info' = edit info
    \<and> (\<forall>j. j \<notin> set xs \<longrightarrow> node info' j = node info j)"
proof -
  obtain l where l: "last_used (node info) (nodes (header info)) = Some l"
    using last_used_exists [of u] assms(2,3) by blast
  note L = last_used_Some [OF l]
  define keep where "keep = max (first_in_mem (the (edit info)))
      ((((l + 1) * nat NODE_SIZE + 511) div 512) * 512 div nat NODE_SIZE)"
  have "l + 1 \<le> (((l + 1) * 36 + 511) div 512) * 512 div (36 :: nat)"
  proof -
    have "(l + 1) * 36 \<le> (((l + 1) * 36 + 511) div 512) * (512 :: nat)"
      using div_mult_mod_eq [of "(l + 1) * 36 + 511" 512] mod_less_divisor [of 512 "(l + 1) * 36 + 511"]
      by linarith
    then show ?thesis by (simp add: div_le_mono less_eq_div_iff_mult_less_eq)
  qed
  then have kl: "l < keep" unfolding keep_def by (simp add: NODE_SIZE_def)
  have all: "i < keep" if "i < nodes (header info)"
    "strncmp (take 12 (name (node info i))) empty_name \<noteq> 0 \<or> i < first_in_mem (the (edit info))" for i
  proof (cases "i \<le> l")
    case False
    then have "i < first_in_mem (the (edit info))" using that L by auto
    then show ?thesis by (simp add: keep_def)
  qed (use kl in simp)
  show ?thesis
  proof (cases "keep < nodes (header info)")
    case True
    let ?info = "unlink_from keep (nodes (header info) - keep) info"
    have sub: "{keep..<keep + (nodes (header info) - keep)} \<subseteq> set xs"
      using assms(4) L kl by auto
    note U = unlink_from_list [OF assms(1) sub]
    have b: "\<forall>x\<in>set xs. x < nodes (header info)" using assms(1) by (simp add: free_list_def)
    have flt: "filter (\<lambda>x. x \<notin> {keep..<keep + (nodes (header info) - keep)}) xs = filter (\<lambda>x. x < keep) xs"
      using b by (intro filter_cong) auto
    have t: "trim_excess_nodes info = Some (?info\<lparr>header := (header ?info)\<lparr>nodes := keep\<rparr>\<rparr>)"
      using True unfolding trim_excess_nodes_def Let_def l option.map(2) keep_def [symmetric] by simp
    have "free_list (?info\<lparr>header := (header ?info)\<lparr>nodes := keep\<rparr>\<rparr>) (filter (\<lambda>x. x < keep) xs)"
      using U unfolding flt by (simp add: free_list_def)
    moreover have "pool_change info (?info\<lparr>header := (header ?info)\<lparr>nodes := keep\<rparr>\<rparr>)"
      using U by (simp add: pool_change_def)
    ultimately show ?thesis
      using t U all True by (intro exI [of _ "?info\<lparr>header := (header ?info)\<lparr>nodes := keep\<rparr>\<rparr>"]) auto
  next
    case False
    then have "trim_excess_nodes info = Some info"
      unfolding trim_excess_nodes_def Let_def l option.map(2) keep_def [symmetric] by simp
    moreover have "filter (\<lambda>x. x < nodes (header info)) xs = xs"
      using assms(1) by (simp add: free_list_def)
    ultimately show ?thesis using assms(1) by auto
  qed
qed


section \<open>Concrete pools\<close>

text \<open>A tree with an empty pool that is edited, and a pool of 40 nodes of which one is in use.\<close>

definition empty_pool :: TREE_INFO where
  "empty_pool =
     (zero_info ''MAIN'')\<lparr>header := zero_header\<lparr>free := -1\<rparr>, edit := Some zero_edit\<rparr>"

lemma empty_pool [simp]:
  "free_list empty_pool []" "nodes (header empty_pool) = 0" "edit empty_pool = Some zero_edit"
  by (simp_all add: empty_pool_def free_list_def zero_info_def zero_header_def)

definition mostly_free :: TREE_INFO where
  "mostly_free = (zero_info ''MAIN'')
     \<lparr>header := zero_header\<lparr>free := NODE_SIZE, nodes := 40\<rparr>, edit := Some zero_edit,
      node := (\<lambda>i. if i = 0 then zero_node\<lparr>name := ''TOP         ''\<rparr>
                   else empty_node\<lparr>child := (if i = 1 then 0 else - NODE_SIZE),
                                    parent := (if i = 39 then 0 else NODE_SIZE)\<rparr>)\<rparr>"

lemma mostly_free: "free_list mostly_free [1..<40]"
proof -
  have "dll (node mostly_free) None [1..<40] None"
    by (rule dll_upt) (auto simp: mostly_free_def)
  moreover have "(case [1..<40] of [] \<Rightarrow> -1 | x # _ \<Rightarrow> int x * NODE_SIZE) = NODE_SIZE"
    by (subst upt_conv_Cons) simp_all
  moreover have "distinct [1..<40]" "\<forall>x\<in>set [1..<40]. x < 40" unfolding set_upt by (rule distinct_upt, simp)
  moreover have "nodes (header mostly_free) = 40" "free (header mostly_free) = NODE_SIZE"
    by (simp_all add: mostly_free_def)
  ultimately show ?thesis by (simp only: free_list_def simp_thms)
qed

lemma TreeNewNode_free_list_witness:
  "\<exists>info'. TreeNewNode True True empty_pool = Some (TreeSUCCESS, 0, info')
     \<and> free_list info' [1..<512] \<and> nodes (header info') = 512"
proof -
  have "[0..<EXTEND_NODES] = 0 # [1..<512]"
    unfolding EXTEND_NODES_def by (subst upt_conv_Cons) simp_all
  then show ?thesis
    using TreeNewNode_free_list [of empty_pool "[]" 0] by (auto simp: EXTEND_NODES_def simp del: upt_eq_Cons_conv)
qed

lemma TreeStartConglomerate_reserves_witness:
  "\<exists>db' s info'. TreeStartConglomerate True True (edit_slot empty_pool) 3 = Some (TreeSUCCESS, db')
     \<and> new_nodes 3 (tree_info db') = Some ([s..<s + 3], info')"
  using TreeStartConglomerate_reserves [of "edit_slot empty_pool" "[]" 3 0]
  by (simp add: edit_slot_def IS_OPEN_FOR_EDIT_def) blast

lemma TreeEndConglomerate_result_witness:
  "fst (TreeEndConglomerate (edit_slot (empty_pool\<lparr>edit := Some (zero_edit\<lparr>conglomerate_size := 3\<rparr>)\<rparr>)))
     = TreeCONGLOM_NOT_FULL"
  using TreeEndConglomerate_result
    [of "edit_slot (empty_pool\<lparr>edit := Some (zero_edit\<lparr>conglomerate_size := 3\<rparr>)\<rparr>)" "zero_edit\<lparr>conglomerate_size := 3\<rparr>"]
  by (simp add: edit_slot_def IS_OPEN_FOR_EDIT_def zero_edit_def word_sless_alt)

lemma trim_excess_nodes_free_list_witness:
  "\<exists>info'. trim_excess_nodes mostly_free = Some info'
     \<and> free_list info' (filter (\<lambda>x. x < nodes (header info')) [1..<40])"
proof -
  have "strncmp (take 12 (name (node mostly_free 0))) empty_name \<noteq> 0"
    by (simp add: mostly_free_def empty_name_def zero_node_def)
  moreover have "nodes (header mostly_free) = 40" by (simp add: mostly_free_def)
  ultimately show ?thesis
    using trim_excess_nodes_free_list [OF mostly_free, of 0] by (auto simp: Suc_le_eq intro: gr0I)
qed

end
