(* ===== verification/TreeInsert.thy ===== *)
theory TreeInsert
  imports TreeNodes "HOL-Library.List_Lexorder" "HOL-Library.Char_ord"
begin

text \<open>
  The insertion of a node into the children or the members of its parent
  (\<open>TreeInsertChild\<close> and \<open>TreeInsertMember\<close> in \<open>TreeAddNode.c\<close>): the lists of brothers, kept in the
  order of the names when the header says so. The abstract view is \<open>hierarchy\<close>: for every node
  of the tree the lists of its children and members.
\<close>

section \<open>The operations\<close>

text \<open>The loops over the brothers; on a cyclic list they do not end.\<close>

partial_function (option) find_place ::
    "(nat \<Rightarrow> NODE) \<Rightarrow> string \<Rightarrow> nat option \<Rightarrow> nat option \<Rightarrow> nat option option" where
  "find_place ns nm pre tmp =
     (if tmp \<noteq> None \<and> strncmp (take 12 (name (ns (the tmp)))) (take 12 nm) < 0
      then find_place ns nm tmp (brother0 ns (the tmp)) else Some pre)"

partial_function (option) last_brother :: "(nat \<Rightarrow> NODE) \<Rightarrow> nat \<Rightarrow> nat option" where
  "last_brother ns t =
     (if brother (ns t) \<noteq> 0 then last_brother ns (at_offset t (brother (ns t))) else Some t)"

text \<open>
  The two functions of the code are the same text, once with the field \<open>child\<close> and once with the
  field \<open>member\<close> of the parent: \<open>first\<close> and \<open>set_first\<close> are that field and its update.
\<close>

definition insert_brother ::
    "(NODE \<Rightarrow> int) \<Rightarrow> (int \<Rightarrow> NODE \<Rightarrow> NODE) \<Rightarrow> (nat \<Rightarrow> NODE) \<Rightarrow> nat \<Rightarrow> nat \<Rightarrow> bool \<Rightarrow> (nat \<Rightarrow> NODE) option"
where
  "insert_brother first set_first ns p new sorted_list =
     (let ns = ns(new := (ns new)\<lparr>parent := node_offset (Some p) (Some new), brother := 0\<rparr>);
          old = follow p (first (ns p))
      in if first (ns p) = 0
         then Some (ns(p := set_first (node_offset (Some new) (Some p)) (ns p)))
         else if sorted_list
         then case find_place ns (name (ns new)) None old of
                None \<Rightarrow> None
              | Some None \<Rightarrow>
                  (let ns = ns(new := (ns new)\<lparr>brother := node_offset old (Some new)\<rparr>)
                   in Some (ns(p := set_first (node_offset (Some new) (Some p)) (ns p))))
              | Some (Some pre) \<Rightarrow>
                  (let ns = (if brother (ns pre) = 0
                             then ns(new := (ns new)\<lparr>brother := 0\<rparr>)
                             else ns(new := (ns new)\<lparr>brother := node_offset (brother0 ns pre) (Some new)\<rparr>))
                   in Some (ns(pre := (ns pre)\<lparr>brother := node_offset (Some new) (Some pre)\<rparr>)))
         else map_option
                (\<lambda>l. ns(l := (ns l)\<lparr>brother := node_offset (Some new) (Some l)\<rparr>))
                (last_brother ns (at_offset p (first (ns p)))))"

definition TreeInsertChild :: "(nat \<Rightarrow> NODE) \<Rightarrow> nat \<Rightarrow> nat \<Rightarrow> bool \<Rightarrow> (nat \<Rightarrow> NODE) option" where
  "TreeInsertChild = insert_brother child (\<lambda>off n. n\<lparr>child := off\<rparr>)"

definition TreeInsertMember :: "(nat \<Rightarrow> NODE) \<Rightarrow> nat \<Rightarrow> nat \<Rightarrow> bool \<Rightarrow> (nat \<Rightarrow> NODE) option" where
  "TreeInsertMember = insert_brother member (\<lambda>off n. n\<lparr>member := off\<rparr>)"

section \<open>The order of names\<close>

text \<open>A node name: twelve characters, none of them null.\<close>

definition valid_name :: "string \<Rightarrow> bool" where
  "valid_name s \<longleftrightarrow> length s = 12 \<and> CHR 0x00 \<notin> set s"

lemma code_less_iff: "code x < code y \<longleftrightarrow> x < y"
  by (simp add: code_def less_char_def)

lemma strncmp_less:
  "length xs = length ys \<Longrightarrow> CHR 0x00 \<notin> set xs \<Longrightarrow> strncmp xs ys < 0 \<longleftrightarrow> xs < ys"
proof (induction xs ys rule: list_induct2)
  case (Cons x xs y ys)
  then show ?case using code_less_iff [of x y] by auto
qed simp

lemma strncmp_eq:
  "length xs = length ys \<Longrightarrow> CHR 0x00 \<notin> set xs \<Longrightarrow> strncmp xs ys = 0 \<longleftrightarrow> xs = ys"
  by (induction xs ys rule: list_induct2) auto

lemma name_less:
  "valid_name a \<Longrightarrow> valid_name b \<Longrightarrow> strncmp (take 12 a) (take 12 b) < 0 \<longleftrightarrow> a < b"
  by (simp add: valid_name_def strncmp_less)

section \<open>The loops\<close>

lemma find_place_linked:
  assumes "linked (brother0 ns) x xs" "valid_name nm" "\<forall>y\<in>set xs. valid_name (name (ns y))"
  shows "find_place ns nm pre x =
    Some (case rev (takeWhile (\<lambda>y. name (ns y) < nm) xs) of [] \<Rightarrow> pre | y # _ \<Rightarrow> Some y)"
  using assms
proof (induction xs arbitrary: x pre)
  case Nil
  then show ?case by (subst find_place.simps) simp
next
  case (Cons y ys)
  then have "x = Some y" and y: "strncmp (take 12 (name (ns y))) (take 12 nm) < 0 \<longleftrightarrow> name (ns y) < nm"
    by (simp_all add: name_less)
  then show ?case
    using Cons by (subst find_place.simps) (auto split: list.splits)
qed

lemma last_brother_linked:
  "linked (brother0 ns) (Some x) xs \<Longrightarrow> last_brother ns x = Some (last xs)"
proof (induction xs arbitrary: x)
  case (Cons y ys)
  then show ?case
    by (subst last_brother.simps) (auto simp: follow_def split: if_splits)
qed simp

text \<open>A new element in a linked list: at its end, after one of its elements, or in front.\<close>

lemma linked_insert_after:
  assumes "linked f x (as @ a # bs)" "distinct (as @ a # bs)" "new \<notin> set (as @ a # bs)"
  shows "linked (f(new := f a, a := Some new)) x (as @ a # new # bs)"
  using assms
proof (induction as arbitrary: x)
  case Nil
  then have "linked (f(new := f a, a := Some new)) (f a) bs = linked f (f a) bs"
    by (intro linked_cong) auto
  with Nil show ?case by (auto simp: fun_upd_def)
next
  case (Cons b as)
  then show ?case by auto
qed

lemma takeWhile_insort_key:
  "insort_key k x xs = takeWhile (\<lambda>y. k y < k x) xs @ x # dropWhile (\<lambda>y. k y < k x) xs"
  by (induction xs) auto


section \<open>A list of brothers\<close>

text \<open>The list after the insertion of a node: at its place by name, or at the end.\<close>

definition inserted :: "bool \<Rightarrow> (nat \<Rightarrow> NODE) \<Rightarrow> nat \<Rightarrow> nat list \<Rightarrow> nat list" where
  "inserted sorted_list ns new xs =
     (if sorted_list then insort_key (\<lambda>i. name (ns i)) new xs else xs @ [new])"

lemma set_inserted [simp]: "set (inserted s ns new xs) = insert new (set xs)"
  by (auto simp: inserted_def set_insort_key)

lemma linked_last: "linked f x xs \<Longrightarrow> xs \<noteq> [] \<Longrightarrow> f (last xs) = None"
  by (induction f x xs rule: linked.induct) auto

text \<open>The two stores that link \<open>new\<close> behind its brother \<open>a\<close>.\<close>

definition link_after :: "(nat \<Rightarrow> NODE) \<Rightarrow> nat \<Rightarrow> nat \<Rightarrow> nat \<Rightarrow> NODE" where
  "link_after ns a new =
     (let ns = ns(new := (ns new)\<lparr>brother := node_offset (brother0 ns a) (Some new)\<rparr>)
      in ns(a := (ns a)\<lparr>brother := node_offset (Some new) (Some a)\<rparr>))"

lemma linked_link_after:
  assumes l: "linked (brother0 ns) x (as @ a # bs)" and new: "new \<notin> set (as @ a # bs)"
  shows "linked (brother0 (link_after ns a new)) x (as @ a # new # bs)"
proof -
  have "linked (brother0 ns) (brother0 ns a) bs"
    using l by (induction as arbitrary: x) auto
  then have "brother0 ns a \<noteq> Some new" using new by (cases bs) auto
  then have "brother0 (link_after ns a new) = (brother0 ns)(new := brother0 ns a, a := Some new)"
    using new by (intro ext) (simp add: link_after_def follow_offset_opt)
  then show ?thesis
    using linked_insert_after [OF l linked_distinct [OF l] new] by simp
qed

text \<open>
  The interface the insertion relies on: a field of the parent that holds the link to the first
  brother, and its update, which leaves the links between brothers and the other list alone.
\<close>

locale brother_list =
  fixes first :: "NODE \<Rightarrow> int" and set_first :: "int \<Rightarrow> NODE \<Rightarrow> NODE" and other :: "NODE \<Rightarrow> int"
  assumes first_set [simp]: "first (set_first off n) = off"
    and first_brother [simp]: "first (n\<lparr>brother := off\<rparr>) = first n"
    and first_parent [simp]: "first (n\<lparr>parent := off\<rparr>) = first n"
    and other_set [simp]: "other (set_first off n) = other n"
    and other_brother [simp]: "other (n\<lparr>brother := off\<rparr>) = other n"
    and other_parent [simp]: "other (n\<lparr>parent := off\<rparr>) = other n"
    and brother_set [simp]: "brother (set_first off n) = brother n"
    and parent_set [simp]: "parent (set_first off n) = parent n"
    and name_set [simp]: "name (set_first off n) = name n"
    and usage_set [simp]: "usage (set_first off n) = usage n"
    and tag_link_set [simp]: "tag_link (set_first off n) = tag_link n"
begin

abbreviation insert_node :: "(nat \<Rightarrow> NODE) \<Rightarrow> nat \<Rightarrow> nat \<Rightarrow> bool \<Rightarrow> (nat \<Rightarrow> NODE) option" where
  "insert_node \<equiv> insert_brother first set_first"

abbreviation first0 :: "(nat \<Rightarrow> NODE) \<Rightarrow> nat \<Rightarrow> nat option" where
  "first0 ns i \<equiv> follow i (first (ns i))"

text \<open>What an insertion leaves as it was.\<close>

definition frame :: "(nat \<Rightarrow> NODE) \<Rightarrow> (nat \<Rightarrow> NODE) \<Rightarrow> nat \<Rightarrow> nat \<Rightarrow> nat list \<Rightarrow> bool" where
  "frame ns ns' p new xs \<longleftrightarrow>
     (\<forall>j. name (ns' j) = name (ns j) \<and> usage (ns' j) = usage (ns j) \<and> other (ns' j) = other (ns j)
        \<and> (j \<noteq> new \<longrightarrow> parent (ns' j) = parent (ns j))
        \<and> (j \<noteq> p \<longrightarrow> first (ns' j) = first (ns j))
        \<and> (j \<noteq> new \<longrightarrow> j \<notin> set xs \<longrightarrow> brother (ns' j) = brother (ns j)))"

lemma insert_node:
  assumes l: "linked (brother0 ns) (first0 ns p) xs"
    and new: "new \<notin> set xs" "new \<noteq> p"
    and names: "\<forall>y\<in>insert new (set xs). valid_name (name (ns y))"
  shows "\<exists>ns'. insert_node ns p new s = Some ns'
    \<and> linked (brother0 ns') (first0 ns' p) (inserted s ns new xs)
    \<and> parent0 ns' new = Some p \<and> frame ns ns' p new xs"
proof -
  define ms where "ms = ns(new := (ns new)\<lparr>parent := node_offset (Some p) (Some new), brother := 0\<rparr>)"
  have bro: "brother0 ms j = (if j = new then None else brother0 ns j)" for j
    by (simp add: ms_def)
  have p: "ms p = ns p" using new by (simp add: ms_def)
  have l: "linked (brother0 ms) (first0 ns p) xs"
    using l by (rule linked_cong [THEN iffD1, rotated]) (use new bro in auto)
  have names: "valid_name (name (ms new))" "\<forall>y\<in>set xs. valid_name (name (ms y))"
    and key: "(\<lambda>i. name (ns i)) = (\<lambda>i. name (ms i))"
    using names by (auto simp: ms_def)
  have goal: "?thesis" if "insert_node ns p new s = Some ns'"
    and "linked (brother0 ns') (first0 ns' p) (inserted s ms new xs)" and "frame ms ns' p new xs"
    and "parent (ns' new) = parent (ms new)" for ns'
  proof (intro exI [of _ ns'] conjI)
    show "insert_node ns p new s = Some ns'" by (rule that)
    show "linked (brother0 ns') (first0 ns' p) (inserted s ns new xs)"
      using that(2) by (simp only: inserted_def key)
    show "parent0 ns' new = Some p" using that(4) new by (simp add: ms_def)
    show "frame ns ns' p new xs"
      unfolding frame_def
    proof
      fix j
      show "name (ns' j) = name (ns j) \<and> usage (ns' j) = usage (ns j) \<and> other (ns' j) = other (ns j)
        \<and> (j \<noteq> new \<longrightarrow> parent (ns' j) = parent (ns j))
        \<and> (j \<noteq> p \<longrightarrow> first (ns' j) = first (ns j))
        \<and> (j \<noteq> new \<longrightarrow> j \<notin> set xs \<longrightarrow> brother (ns' j) = brother (ns j))"
        using that(3) [unfolded frame_def, THEN spec [of _ j]] by (cases "j = new") (simp_all add: ms_def)
    qed
  qed
  note def = insert_brother_def Let_def ms_def [symmetric]
  show ?thesis
  proof (cases xs)
    case Nil
    then have "first (ns p) = 0" using l by simp
    then show ?thesis
      using Nil p new(2) bro
      by (intro goal [of "ms(p := set_first (node_offset (Some new) (Some p)) (ns p))"])
        (simp_all add: def frame_def inserted_def)
  next
    case (Cons x r)
    then have x: "follow p (first (ns p)) = Some x" and "first (ns p) \<noteq> 0"
      using l by (auto simp: follow_def split: if_splits)
    note defs = def p x \<open>first (ns p) \<noteq> 0\<close>
    have after: ?thesis if "insert_node ns p new s = Some (link_after ms a new)"
      and "xs = as @ a # bs" and "inserted s ms new xs = as @ a # new # bs" for as a bs
    proof (rule goal [OF that(1)])
      have "first0 (link_after ms a new) p = first0 ns p"
        using new that(2) p by (auto simp: link_after_def Let_def)
      then show "linked (brother0 (link_after ms a new)) (first0 (link_after ms a new) p)
          (inserted s ms new xs)"
        using linked_link_after [of ms "first0 ns p" as a bs new] l new that by simp
    qed (use new that(2) in \<open>auto simp: frame_def link_after_def Let_def\<close>)
    show ?thesis
    proof (cases s)
      case True
      note find = find_place_linked [OF l names, of None, unfolded x]
      let ?as = "takeWhile (\<lambda>y. name (ms y) < name (ms new)) xs"
      show ?thesis
      proof (cases ?as rule: rev_cases)
        case Nil
        then have ins: "inserted s ms new xs = new # xs"
          using True takeWhile_insort_key [of "\<lambda>i. name (ms i)" new xs]
          by (simp add: inserted_def) (metis append_Nil takeWhile_dropWhile_id)
        let ?ns = "(ms(new := (ms new)\<lparr>brother := node_offset (Some x) (Some new)\<rparr>))
          (p := set_first (node_offset (Some new) (Some p)) (ms p))"
        have "linked (brother0 ms) (Some x) xs = linked (brother0 ?ns) (Some x) xs"
          using new p by (intro linked_cong) auto
        moreover have "x \<noteq> new" using new Cons by auto
        ultimately show ?thesis
          using new Nil True find l x p ins by (intro goal [of ?ns]) (simp_all add: defs frame_def)
      next
        case (snoc as a)
        let ?bs = "dropWhile (\<lambda>y. name (ms y) < name (ms new)) xs"
        have xs: "xs = as @ a # ?bs"
          using takeWhile_dropWhile_id [of "\<lambda>y. name (ms y) < name (ms new)" xs] snoc by simp
        show ?thesis
        proof (rule after [OF _ xs])
          show "inserted s ms new xs = as @ a # new # ?bs"
            using True takeWhile_insort_key [of "\<lambda>i. name (ms i)" new xs] snoc
            by (simp add: inserted_def)
          show "insert_node ns p new s = Some (link_after ms a new)"
            using True find snoc by (simp add: defs link_after_def)
        qed
      qed
    next
      case False
      have "last_brother ms x = Some (last xs)" using last_brother_linked l x by simp
      moreover have at: "at_offset p (first (ns p)) = x"
        using x by (simp add: follow_def split: if_splits)
      moreover have "ms(new := (ms new)\<lparr>brother := 0\<rparr>) = ms"
        by (simp add: ms_def)
      moreover have "brother0 ms (last xs) = None" using linked_last [OF l] Cons by blast
      ultimately have "insert_node ns p new s = Some (link_after ms (last xs) new)"
        using False by (simp add: defs link_after_def)
      then show ?thesis
        using False Cons by (intro after [of "last xs" "butlast xs" "[]"]) (simp_all add: inserted_def)
    qed
  qed
qed

text \<open>The lists of all nodes: linked brothers, each with its parent.\<close>

definition lists :: "(nat \<Rightarrow> NODE) \<Rightarrow> nat set \<Rightarrow> (nat \<Rightarrow> nat list) \<Rightarrow> bool" where
  "lists ns L C \<longleftrightarrow>
     (\<forall>i\<in>L. linked (brother0 ns) (first0 ns i) (C i) \<and> (\<forall>k\<in>set (C i). k \<in> L \<and> parent0 ns k = Some i))"

lemma lists_insert:
  assumes L: "lists ns L C" "p \<in> L" "new \<notin> L" "first (ns new) = 0"
    and linked: "linked (brother0 ns') (first0 ns' p) (inserted s ns new (C p))"
    and par: "parent0 ns' new = Some p" and fr: "frame ns ns' p new (C p)"
  shows "lists ns' (insert new L) (C(new := [], p := inserted s ns new (C p)))"
  unfolding lists_def
proof
  fix i assume i: "i \<in> insert new L"
  have parents: "parent0 ns' k = parent0 ns k" if "k \<in> L" for k
    using fr that L by (auto simp: frame_def)
  show "linked (brother0 ns') (first0 ns' i) ((C(new := [], p := inserted s ns new (C p))) i) \<and>
    (\<forall>k\<in>set ((C(new := [], p := inserted s ns new (C p))) i). k \<in> insert new L \<and> parent0 ns' k = Some i)"
  proof (cases "i = p")
    case True
    then show ?thesis using L linked par parents by (auto simp: lists_def)
  next
    case p: False
    then have fi: "first (ns' i) = first (ns i)" using fr by (simp add: frame_def)
    show ?thesis
    proof (cases "i = new")
      case True
      then show ?thesis using p fi L by simp
    next
      case False
      then have iL: "i \<in> L" using i by simp
      then have ci: "linked (brother0 ns) (first0 ns i) (C i)" "\<forall>k\<in>set (C i). k \<in> L \<and> parent0 ns k = Some i"
        and cp: "\<forall>k\<in>set (C p). parent0 ns k = Some p"
        using L by (auto simp: lists_def)
      then have "brother (ns' k) = brother (ns k)" if "k \<in> set (C i)" for k
        using fr that p L by (force simp: frame_def)
      then have "linked (brother0 ns') (first0 ns i) (C i)"
        using ci linked_cong [of "C i" "brother0 ns" "brother0 ns'"] by simp
      then show ?thesis using False p fi ci parents by auto
    qed
  qed
qed

text \<open>The same for the other list of each node; the two lists of a node share no node.\<close>

definition other_lists :: "(nat \<Rightarrow> NODE) \<Rightarrow> nat set \<Rightarrow> (nat \<Rightarrow> nat list) \<Rightarrow> bool" where
  "other_lists ns L M \<longleftrightarrow>
     (\<forall>i\<in>L. linked (brother0 ns) (follow i (other (ns i))) (M i)
       \<and> (\<forall>k\<in>set (M i). k \<in> L \<and> parent0 ns k = Some i))"

lemma lists_apart:
  assumes "lists ns L C" "other_lists ns L M" "\<forall>i\<in>L. set (C i) \<inter> set (M i) = {}" "i \<in> L" "p \<in> L"
  shows "set (M i) \<inter> set (C p) = {}"
proof (rule equals0I)
  fix k assume k: "k \<in> set (M i) \<inter> set (C p)"
  then have "parent0 ns k = Some i" "parent0 ns k = Some p"
    using assms(1) [unfolded lists_def] assms(2) [unfolded other_lists_def] assms(4,5) by blast+
  then have "i = p" by simp
  then show False using k assms(3,4) by auto
qed

lemma other_lists_insert:
  assumes C: "lists ns L C" and M: "other_lists ns L M"
    and apart: "\<forall>i\<in>L. set (C i) \<inter> set (M i) = {}"
    and p: "p \<in> L" "new \<notin> L" "other (ns new) = 0" and fr: "frame ns ns' p new (C p)"
  shows "other_lists ns' (insert new L) (M(new := []))"
  unfolding other_lists_def
proof
  fix i assume i: "i \<in> insert new L"
  show "linked (brother0 ns') (follow i (other (ns' i))) ((M(new := [])) i) \<and>
    (\<forall>k\<in>set ((M(new := [])) i). k \<in> insert new L \<and> parent0 ns' k = Some i)"
  proof (cases "i = new")
    case True
    then show ?thesis using fr p by (simp add: frame_def)
  next
    case False
    then have iL: "i \<in> L" using i by simp
    have "k \<notin> insert new (set (C p))" if "k \<in> set (M i)" for k
      using that lists_apart [OF C M apart iL p(1)] M iL p by (auto simp: other_lists_def)
    then have same: "brother (ns' k) = brother (ns k) \<and> parent (ns' k) = parent (ns k)"
      if "k \<in> set (M i)" for k
      using that fr by (auto simp: frame_def)
    then have "linked (brother0 ns') x (M i) = linked (brother0 ns) x (M i)" for x
      by (intro linked_cong) simp
    then have "linked (brother0 ns') (follow i (other (ns i))) (M i)"
      using M iL by (simp add: other_lists_def)
    then show ?thesis
      using False M iL same fr by (simp add: other_lists_def frame_def)
  qed
qed

text \<open>An insertion in a well-formed tree.\<close>

definition well_formed ::
    "(nat \<Rightarrow> NODE) \<Rightarrow> nat set \<Rightarrow> (nat \<Rightarrow> nat list) \<Rightarrow> (nat \<Rightarrow> nat list) \<Rightarrow> bool" where
  "well_formed ns L C M \<longleftrightarrow> lists ns L C \<and> other_lists ns L M
     \<and> (\<forall>i\<in>L. set (C i) \<inter> set (M i) = {} \<and> valid_name (name (ns i)))"

lemma insert_well_formed:
  assumes wf: "well_formed ns L C M" and p: "p \<in> L" "new \<notin> L"
    and zero: "first (ns new) = 0" "other (ns new) = 0" and name: "valid_name (name (ns new))"
  shows "\<exists>ns'. insert_node ns p new s = Some ns'
    \<and> well_formed ns' (insert new L) (C(new := [], p := inserted s ns new (C p))) (M(new := []))
    \<and> frame ns ns' p new (C p)"
proof -
  have C: "lists ns L C" and M: "other_lists ns L M" using wf by (simp_all add: well_formed_def)
  have "linked (brother0 ns) (first0 ns p) (C p)" "new \<notin> set (C p)" "new \<noteq> p"
    "\<forall>y\<in>insert new (set (C p)). valid_name (name (ns y))"
    using assms by (auto simp: well_formed_def lists_def)
  from insert_node [OF this, of s] obtain ns' where
    ins: "insert_node ns p new s = Some ns'"
    and l: "linked (brother0 ns') (first0 ns' p) (inserted s ns new (C p))"
    and par: "parent0 ns' new = Some p" and fr: "frame ns ns' p new (C p)"
    by auto
  have apart: "\<forall>i\<in>L. set (C i) \<inter> set (M i) = {}" using wf by (simp add: well_formed_def)
  have "valid_name (name (ns' i))" if "i \<in> insert new L" for i
    using that fr wf name by (auto simp: frame_def well_formed_def)
  moreover have "new \<notin> set (M p)" using M p by (auto simp: other_lists_def)
  ultimately have "well_formed ns' (insert new L) (C(new := [], p := inserted s ns new (C p))) (M(new := []))"
    using lists_insert [OF C p zero(1) l par fr] other_lists_insert [OF C M apart p zero(2) fr] apart
    by (auto simp: well_formed_def)
  then show ?thesis using ins fr by blast
qed

end

interpretation children: brother_list child "\<lambda>off n. n\<lparr>child := off\<rparr>" member
  by unfold_locales simp_all

interpretation members: brother_list member "\<lambda>off n. n\<lparr>member := off\<rparr>" child
  by unfold_locales simp_all


section \<open>The hierarchy of a tree\<close>

text \<open>
  The abstract view: the nodes \<open>L\<close> of the tree, the children \<open>C i\<close> and the members \<open>M i\<close> of node \<open>i\<close>.
\<close>

definition hierarchy ::
    "(nat \<Rightarrow> NODE) \<Rightarrow> nat set \<Rightarrow> (nat \<Rightarrow> nat list) \<Rightarrow> (nat \<Rightarrow> nat list) \<Rightarrow> bool" where
  "hierarchy ns L C M \<longleftrightarrow>
     children.lists ns L C \<and> members.lists ns L M
     \<and> (\<forall>i\<in>L. set (C i) \<inter> set (M i) = {} \<and> valid_name (name (ns i)))"

definition in_order :: "(nat \<Rightarrow> NODE) \<Rightarrow> nat set \<Rightarrow> (nat \<Rightarrow> nat list) \<Rightarrow> bool" where
  "in_order ns L C \<longleftrightarrow> (\<forall>i\<in>L. sorted (map (\<lambda>j. name (ns j)) (C i)))"

lemma in_order_insert:
  assumes "in_order ns L C" "p \<in> L" "\<forall>j. name (ns' j) = name (ns j)"
  shows "in_order ns' (insert new L) (C(new := [], p := inserted True ns new (C p)))"
  using assms by (auto simp: in_order_def inserted_def sorted_insort_key)

lemma hierarchy_children: "hierarchy ns L C M \<longleftrightarrow> children.well_formed ns L C M"
  by (simp add: hierarchy_def children.well_formed_def children.other_lists_def members.lists_def)

lemma hierarchy_members: "hierarchy ns L C M \<longleftrightarrow> members.well_formed ns L M C"
  by (auto simp: hierarchy_def members.well_formed_def members.other_lists_def children.lists_def)

text \<open>
  C7: \<open>TreeInsertChild\<close> implements the insertion into the hierarchy: on a well-formed tree it ends,
  the new node becomes a child of its parent, at its place by name when children are sorted and
  at the end when they are not, the other lists keep their nodes, and sorted lists stay sorted.
\<close>

theorem TreeInsertChild_hierarchy:
  assumes "hierarchy ns L C M" "p \<in> L" "new \<notin> L" "child (ns new) = 0" "member (ns new) = 0"
    "valid_name (name (ns new))"
  shows "\<exists>ns'. TreeInsertChild ns p new s = Some ns'
    \<and> hierarchy ns' (insert new L) (C(new := [], p := inserted s ns new (C p))) (M(new := []))
    \<and> (s \<and> in_order ns L C \<longrightarrow> in_order ns' (insert new L) (C(new := [], p := inserted s ns new (C p))))"
proof -
  obtain ns' where "TreeInsertChild ns p new s = Some ns'"
    and "children.well_formed ns' (insert new L) (C(new := [], p := inserted s ns new (C p))) (M(new := []))"
    and fr: "children.frame ns ns' p new (C p)"
    using children.insert_well_formed [of ns L C M p new s] assms
    unfolding hierarchy_children TreeInsertChild_def by blast
  moreover have "\<forall>j. name (ns' j) = name (ns j)" using fr by (simp add: children.frame_def)
  ultimately show ?thesis
    using in_order_insert [of ns L C p ns' new] assms(2) unfolding hierarchy_children by (intro exI [of _ ns']) auto
qed

text \<open>
  C26: \<open>TreeInsertMember\<close> implements the insertion into the members of a node in the same way:
  it ends, puts the new node at its place by name or at the end, keeps all other lists, and
  sorted lists stay sorted.
\<close>

theorem TreeInsertMember_hierarchy:
  assumes "hierarchy ns L C M" "p \<in> L" "new \<notin> L" "child (ns new) = 0" "member (ns new) = 0"
    "valid_name (name (ns new))"
  shows "\<exists>ns'. TreeInsertMember ns p new s = Some ns'
    \<and> hierarchy ns' (insert new L) (C(new := [])) (M(new := [], p := inserted s ns new (M p)))
    \<and> (s \<and> in_order ns L M \<longrightarrow> in_order ns' (insert new L) (M(new := [], p := inserted s ns new (M p))))"
proof -
  obtain ns' where "TreeInsertMember ns p new s = Some ns'"
    and "members.well_formed ns' (insert new L) (M(new := [], p := inserted s ns new (M p))) (C(new := []))"
    and fr: "members.frame ns ns' p new (M p)"
    using members.insert_well_formed [of ns L M C p new s] assms
    unfolding hierarchy_members TreeInsertMember_def by blast
  moreover have "\<forall>j. name (ns' j) = name (ns j)" using fr by (simp add: members.frame_def)
  ultimately show ?thesis
    using in_order_insert [of ns L M p ns' new] assms(2) unfolding hierarchy_members by (intro exI [of _ ns']) auto
qed


text \<open>A tree of the node 0 with the child 1, called B, and a new node 2, called A.\<close>

definition two_nodes :: "nat \<Rightarrow> NODE" where
  "two_nodes = (\<lambda>_. zero_node)
     (0 := zero_node\<lparr>name := ''TOP         '', child := node_offset (Some 1) (Some 0)\<rparr>,
      1 := zero_node\<lparr>name := ''B           '', parent := node_offset (Some 0) (Some 1)\<rparr>,
      2 := zero_node\<lparr>name := ''A           ''\<rparr>)"

lemma two_nodes_hierarchy: "hierarchy two_nodes {0, 1} ((\<lambda>_. [])(0 := [1])) (\<lambda>_. [])"
  by (simp add: hierarchy_def children.lists_def members.lists_def two_nodes_def valid_name_def zero_node_def)

lemma two_nodes_new:
  "child (two_nodes 2) = 0" "member (two_nodes 2) = 0" "valid_name (name (two_nodes 2))"
  by (simp_all add: two_nodes_def valid_name_def zero_node_def)

lemma TreeInsertChild_hierarchy_witness:
  "\<exists>ns'. TreeInsertChild two_nodes 0 2 True = Some ns' \<and> linked (brother0 ns') (child0 ns' 0) [2, 1]"
proof -
  have "inserted True two_nodes 2 [1] = [2, 1]"
    by (simp add: inserted_def two_nodes_def zero_node_def less_char_def)
  then show ?thesis
    using TreeInsertChild_hierarchy [OF two_nodes_hierarchy, of 0 2 True] two_nodes_new
    by (fastforce simp: hierarchy_def children.lists_def)
qed

lemma TreeInsertMember_hierarchy_witness:
  "\<exists>ns'. TreeInsertMember two_nodes 0 2 True = Some ns' \<and> linked (brother0 ns') (member0 ns' 0) [2]
     \<and> linked (brother0 ns') (child0 ns' 0) [1]"
  using TreeInsertMember_hierarchy [OF two_nodes_hierarchy, of 0 2 True] two_nodes_new
  by (fastforce simp: hierarchy_def children.lists_def members.lists_def inserted_def)

end
