(* ===== verification/TreeState.thy ===== *)
theory TreeState
  imports TreeInsert
begin

text \<open>
  Reading and writing the characteristics of a node, and the switches of a tree
  (\<open>TreeSetNci.c\<close>). A node is switched off by itself, bit \<open>NciM_STATE\<close>, or by its parent, bit
  \<open>NciM_PARENT_STATE\<close>. \<open>TreeTurnOff\<close> and \<open>TreeTurnOn\<close> change the first bit of one node and pass the
  change on to the second bit of its descendants, as far as they are not off by themselves.

  The characteristics of a node are in the file, record by record, or in the memory of the edit
  block when they have not been written yet. The file is open and its locks are granted; a record
  that is not there whole is the read error of the code. The recursion of the code is a
  \<open>partial_function\<close>; that it ends on a tree is part of the theorems.
\<close>

section \<open>Characteristics\<close>

definition in_file :: "TREE_INFO \<Rightarrow> nat \<Rightarrow> bool" where
  "in_file info i \<longleftrightarrow> edit info = None \<or> i < first_in_mem (the (edit info))"

text \<open>The structure that is read into is a local variable of the callers, whose padding nothing reads.\<close>

definition tree_get_and_lock_nci :: "TREE_INFO \<Rightarrow> nat \<Rightarrow> status + NCI" where
  "tree_get_and_lock_nci info i =
     (if readonly (header info) then Inl TreeREADONLY_TREE
      else if in_file info i
      then if length (nci_file info i) = 42 then Inr (TreeSerializeNciIn (nci_file info i) empty_nci)
           else Inl TreeNCIREAD
      else Inr (nci (the (edit info)) (i - first_in_mem (the (edit info)))))"

definition tree_put_nci :: "TREE_INFO \<Rightarrow> nat \<Rightarrow> NCI \<Rightarrow> TREE_INFO" where
  "tree_put_nci info i n =
     (if in_file info i then info\<lparr>nci_file := (nci_file info)(i := TreeSerializeNciOut n)\<rparr>
      else let ed = the (edit info)
           in info\<lparr>edit := Some (ed\<lparr>nci := (nci ed)(i - first_in_mem ed := n)\<rparr>)\<rparr>)"

definition NciM_STATE :: u32 where "NciM_STATE = 1"
definition NciM_PARENT_STATE :: u32 where "NciM_PARENT_STATE = 2"

definition bitassign :: "bool \<Rightarrow> u32 \<Rightarrow> u32 \<Rightarrow> u32" where
  "bitassign b v m = (if b then v OR m else v AND NOT m)"

section \<open>Switches\<close>

text \<open>The database with another content of one tree block.\<close>

definition set_info :: "PINO_DATABASE \<Rightarrow> nat \<Rightarrow> TREE_INFO \<Rightarrow> PINO_DATABASE" where
  "set_info db t info =
     (if t = 0 then db\<lparr>tree_info := info\<rparr> else db\<lparr>next_info := (next_info db)[t - 1 := info]\<rparr>)"

definition set_node_parent_state :: "PINO_DATABASE \<Rightarrow> node_ptr \<Rightarrow> bool \<Rightarrow> (status + NCI) \<times> PINO_DATABASE" where
  "set_node_parent_state db p state =
     (case find_tree (infos db) 0 p of
        None \<Rightarrow> (Inl TreeNNF, db)
      | Some t \<Rightarrow>
          let info = infos db ! t
          in case tree_get_and_lock_nci info (snd p) of
               Inl status \<Rightarrow> (Inl status, db)
             | Inr n \<Rightarrow>
                 let n = n\<lparr>flags := bitassign state (flags n) NciM_PARENT_STATE\<rparr>
                 in (Inr n, set_info db t (tree_put_nci info (snd p) n)))"

text \<open>
  The loop along the brothers of a node, with the status of the round before; the recursive calls of the
  code start with \<open>TreeSUCCESS\<close>.
\<close>

partial_function (option) set_parent_states ::
    "PINO_DATABASE \<Rightarrow> node_ptr option \<Rightarrow> bool \<Rightarrow> status \<Rightarrow> (status \<times> PINO_DATABASE) option" where
  "set_parent_states db lnode state status =
     (if lnode = None \<or> \<not> STATUS_OK status then Some (status, db)
      else let p = the lnode; r = set_node_parent_state db p state;
               on = (case fst r of Inl _ \<Rightarrow> False | Inr n \<Rightarrow> flags n AND NciM_STATE = 0);
               status = (case fst r of Inl status \<Rightarrow> status | Inr _ \<Rightarrow> TreeSUCCESS); db = snd r
           in Option.bind
                (if on \<and> child (node_at db p) \<noteq> 0
                 then set_parent_states db (child_of db (Some p)) state TreeSUCCESS else Some (status, db))
                (\<lambda>r. Option.bind
                  (if STATUS_OK (fst r) \<and> on \<and> member (node_at (snd r) p) \<noteq> 0
                   then set_parent_states (snd r) (member_of (snd r) (Some p)) state TreeSUCCESS else Some r)
                  (\<lambda>r. set_parent_states (snd r) (brother_of (snd r) (Some p)) state (fst r))))"

definition tree_set_parent_state ::
    "PINO_DATABASE \<Rightarrow> node_ptr option \<Rightarrow> bool \<Rightarrow> (status \<times> PINO_DATABASE) option" where
  "tree_set_parent_state db p state = set_parent_states db p state TreeSUCCESS"

text \<open>The descendants of a node, its children first; the status of the members counts when it has any.\<close>

definition descendants_state ::
    "PINO_DATABASE \<Rightarrow> node_ptr \<Rightarrow> bool \<Rightarrow> (status \<times> PINO_DATABASE) option" where
  "descendants_state db p state =
     Option.bind
       (if child (node_at db p) \<noteq> 0 then tree_set_parent_state db (child_of db (Some p)) state
        else Some (TreeSUCCESS, db))
       (\<lambda>(status, db).
          if member (node_at db p) \<noteq> 0 then tree_set_parent_state db (member_of db (Some p)) state
          else Some (status, db))"

definition TreeTurnOn :: "PINO_DATABASE \<Rightarrow> u32 \<Rightarrow> (status \<times> PINO_DATABASE) option" where
  "TreeTurnOn db nid =
     (if \<not> open_tree db then Some (TreeNOT_OPEN, db)
      else case nid_to_tree_idx db nid of
        (None, _) \<Rightarrow> Some (TreeNNF, db)
      | (Some t, i) \<Rightarrow>
          (case tree_get_and_lock_nci (infos db ! t) i of
             Inl status \<Rightarrow> Some (status, db)
           | Inr n \<Rightarrow>
               if flags n AND NciM_STATE \<noteq> 0
               then let n = n\<lparr>flags := bitassign False (flags n) NciM_STATE\<rparr>;
                        db = set_info db t (tree_put_nci (infos db ! t) i n)
                    in if flags n AND NciM_PARENT_STATE = 0 then descendants_state db (t, i) False
                       else Some (TreePARENT_OFF, db)
               else Some (TreeALREADY_ON, db)))"

definition TreeTurnOff :: "PINO_DATABASE \<Rightarrow> u32 \<Rightarrow> (status \<times> PINO_DATABASE) option" where
  "TreeTurnOff db nid =
     (if \<not> open_tree db then Some (TreeNOT_OPEN, db)
      else case nid_to_tree_idx db nid of
        (None, _) \<Rightarrow> Some (TreeNNF, db)
      | (Some t, i) \<Rightarrow>
          (case tree_get_and_lock_nci (infos db ! t) i of
             Inl status \<Rightarrow> Some (status, db)
           | Inr n \<Rightarrow>
               if flags n AND NciM_STATE = 0
               then let n = n\<lparr>flags := bitassign True (flags n) NciM_STATE\<rparr>;
                        db = set_info db t (tree_put_nci (infos db ! t) i n)
                    in if flags n AND NciM_PARENT_STATE = 0 then descendants_state db (t, i) True
                       else Some (TreeSUCCESS, db)
               else Some (TreeALREADY_OFF, db)))"


section \<open>Reading what has been written\<close>

definition flags_at :: "TREE_INFO \<Rightarrow> nat \<Rightarrow> u32" where
  "flags_at info i = (case tree_get_and_lock_nci info i of Inr n \<Rightarrow> flags n | Inl _ \<Rightarrow> 0)"

definition readable :: "TREE_INFO \<Rightarrow> nat \<Rightarrow> bool" where
  "readable info i \<longleftrightarrow> (\<exists>n. tree_get_and_lock_nci info i = Inr n)"

definition off :: "TREE_INFO \<Rightarrow> nat \<Rightarrow> bool" where "off info i \<longleftrightarrow> flags_at info i AND NciM_STATE \<noteq> 0"
definition parent_off :: "TREE_INFO \<Rightarrow> nat \<Rightarrow> bool" where
  "parent_off info i \<longleftrightarrow> flags_at info i AND NciM_PARENT_STATE \<noteq> 0"

lemma state_bit: "f AND NciM_STATE = 0 \<longleftrightarrow> \<not> bit f 0" "f AND NciM_PARENT_STATE = 0 \<longleftrightarrow> \<not> bit f 1"
  using and_exp_eq_0_iff_not_bit [of f 0] and_exp_eq_0_iff_not_bit [of f 1]
  by (simp_all add: NciM_STATE_def NciM_PARENT_STATE_def)

lemma off_bit: "off info i \<longleftrightarrow> bit (flags_at info i) 0" "parent_off info i \<longleftrightarrow> bit (flags_at info i) 1"
  by (simp_all add: off_def parent_off_def state_bit)

lemma bitassign_bits [simp]:
  "bit (bitassign b f NciM_STATE) 0 = b" "bit (bitassign b f NciM_STATE) (Suc 0) = bit f 1"
  "bit (bitassign b f NciM_PARENT_STATE) 0 = bit f 0" "bit (bitassign b f NciM_PARENT_STATE) (Suc 0) = b"
  by (auto simp: bitassign_def NciM_STATE_def NciM_PARENT_STATE_def bit_simps)

lemma bitassign_twice [simp]: "bitassign b (bitassign b f m) m = bitassign b f m"
  by (auto simp: bitassign_def intro!: bit_word_eqI simp: bit_simps)

lemma nci_record: "length (TreeSerializeNciOut n) = 42" "flags (TreeSerializeNciIn (TreeSerializeNciOut n) out) = flags n"
  by (simp_all add: TreeSerializeNciOut_def TreeSerializeNciIn_def nci_io nci_union Let_def del: le_word.simps)

text \<open>What stays when the characteristics of a tree change.\<close>

definition same_tree :: "TREE_INFO \<Rightarrow> TREE_INFO \<Rightarrow> bool" where
  "same_tree info info' \<longleftrightarrow> info'\<lparr>nci_file := nci_file info, edit := edit info\<rparr> = info"

lemma same_treeD:
  assumes "same_tree info info'"
  shows "node info' = node info" "header info' = header info" "treenam info' = treenam info"
    "tag_index info' = tag_index info" "tag_info info' = tag_info info" "external info' = external info"
    "root info' = root info"
  using assms by (cases info; cases info'; simp add: same_tree_def)+

lemma same_tree_refl [simp]: "same_tree info info"
  by (simp add: same_tree_def)

lemma same_tree_trans: "same_tree a b \<Longrightarrow> same_tree b c \<Longrightarrow> same_tree a c"
  by (cases a; cases b; cases c) (simp add: same_tree_def)

lemma tree_put_nci_laws:
  fixes info i n defines "info' \<equiv> tree_put_nci info i n"
  shows "same_tree info info'" "j \<noteq> i \<Longrightarrow> tree_get_and_lock_nci info' j = tree_get_and_lock_nci info j"
    "readable info i \<Longrightarrow> readable info' i" "readable info i \<Longrightarrow> flags_at info' i = flags n"
proof -
  show "same_tree info info'" by (simp add: info'_def same_tree_def tree_put_nci_def Let_def)
  have f: "in_file info' j = in_file info j" "header info' = header info" for j
    by (auto simp: info'_def in_file_def tree_put_nci_def Let_def)
  show "j \<noteq> i \<Longrightarrow> tree_get_and_lock_nci info' j = tree_get_and_lock_nci info j"
    unfolding tree_get_and_lock_nci_def f
    by (auto simp: info'_def tree_put_nci_def in_file_def Let_def)
  assume r: "readable info i"
  then have w: "\<not> readonly (header info)" by (auto simp: readable_def tree_get_and_lock_nci_def)
  then have "\<exists>m. tree_get_and_lock_nci info' i = Inr m \<and> flags m = flags n"
    unfolding tree_get_and_lock_nci_def f
    by (auto simp: info'_def tree_put_nci_def in_file_def Let_def nci_record)
  then show "readable info' i" "flags_at info' i = flags n" by (auto simp: readable_def flags_at_def)
qed

lemma readable_put: "readable info j \<Longrightarrow> readable (tree_put_nci info i n) j"
  using tree_put_nci_laws(2) [of j i info n] tree_put_nci_laws(3) [of info i n] by (cases "j = i") (auto simp: readable_def)

lemma flags_put:
  "readable info i \<Longrightarrow> flags_at (tree_put_nci info i n) j = (if j = i then flags n else flags_at info j)"
  using tree_put_nci_laws(2) [of j i info n] tree_put_nci_laws(4) [of info i n] by (auto simp: flags_at_def)

lemma infos_set_info [simp]: "t < length (infos db) \<Longrightarrow> infos (set_info db t info) = (infos db)[t := info]"
  by (cases t) (simp_all add: infos_def set_info_def)

lemma set_info_twice [simp]: "set_info (set_info db t a) t b = set_info db t b"
  by (simp add: set_info_def)

lemma set_info_same: "t < length (infos db) \<Longrightarrow> set_info db t (infos db ! t) = db"
  by (cases t) (simp_all add: infos_def set_info_def)


section \<open>Passing a state on\<close>

text \<open>
  The nodes a change reaches from the nodes \<open>J\<close>: these, and the children and members of those
  that are not off by themselves.
\<close>

inductive_set below :: "(nat \<Rightarrow> bool) \<Rightarrow> (nat \<Rightarrow> nat set) \<Rightarrow> nat set \<Rightarrow> nat set"
  for is_off S J where
  start: "j \<in> J \<Longrightarrow> j \<in> below is_off S J"
| down: "p \<in> below is_off S J \<Longrightarrow> \<not> is_off p \<Longrightarrow> j \<in> S p \<Longrightarrow> j \<in> below is_off S J"

lemma below_mono: "J \<subseteq> K \<Longrightarrow> below is_off S J \<subseteq> below is_off S K"
proof
  fix x assume "x \<in> below is_off S J" "J \<subseteq> K"
  then show "x \<in> below is_off S K" by induction (auto intro: below.intros)
qed

lemma below_empty [simp]: "below is_off S {} = {}"
proof -
  have "x \<notin> below is_off S {}" for x
  proof
    assume "x \<in> below is_off S {}" then show False by induction auto
  qed
  then show ?thesis by blast
qed

lemma below_Un: "below is_off S (A \<union> B) = below is_off S A \<union> below is_off S B"
proof
  show "below is_off S (A \<union> B) \<subseteq> below is_off S A \<union> below is_off S B"
  proof
    fix x assume "x \<in> below is_off S (A \<union> B)"
    then show "x \<in> below is_off S A \<union> below is_off S B" by induction (auto intro: below.intros)
  qed
qed (use below_mono [of A "A \<union> B"] below_mono [of B "A \<union> B"] in blast)

lemma below_insert:
  "below is_off S (insert j J) = insert j (if is_off j then {} else below is_off S (S j)) \<union> below is_off S J"
proof -
  have "below is_off S {j} = insert j (if is_off j then {} else below is_off S (S j))" (is "?A = ?B")
  proof
    show "?A \<subseteq> ?B"
    proof
      fix x assume "x \<in> ?A"
      then show "x \<in> ?B" by induction (auto intro: below.intros split: if_splits)
    qed
    have "x \<in> ?A" if "\<not> is_off j" "x \<in> below is_off S (S j)" for x
      using that(2)
    proof induction
      case (start k)
      then show ?case using below.down [of j is_off S "{j}" k] below.start [of j "{j}"] that(1) by simp
    next
      case (down p k)
      show ?case by (rule below.down [OF down.IH down.hyps(2,3)])
    qed
    then show "?B \<subseteq> ?A" by (auto intro: below.start)
  qed
  then show ?thesis using below_Un [of is_off S "{j}" J] by simp
qed

text \<open>All that is below, however it is switched.\<close>

abbreviation reach :: "(nat \<Rightarrow> nat set) \<Rightarrow> nat set \<Rightarrow> nat set" where
  "reach \<equiv> below (\<lambda>_. False)"

text \<open>
  A change of the flags of a set of nodes: what \<open>set_parent_states\<close> does, seen from the tree block.
\<close>

definition flags_set :: "nat set \<Rightarrow> bool \<Rightarrow> nat set \<Rightarrow> TREE_INFO \<Rightarrow> TREE_INFO \<Rightarrow> bool" where
  "flags_set L b D info info' \<longleftrightarrow> same_tree info info' \<and> (\<forall>i\<in>L. readable info' i)
     \<and> (\<forall>i\<in>L. flags_at info' i =
           (if i \<in> D then bitassign b (flags_at info i) NciM_PARENT_STATE else flags_at info i))"

lemma flags_set_refl: "\<forall>i\<in>L. readable info i \<Longrightarrow> flags_set L b {} info info"
  by (simp add: flags_set_def)

lemma flags_set_trans: "flags_set L b D x y \<Longrightarrow> flags_set L b E y z \<Longrightarrow> flags_set L b (D \<union> E) x z"
  by (auto simp: flags_set_def intro: same_tree_trans)

lemma flags_set_off: "flags_set L b D info info' \<Longrightarrow> i \<in> L \<Longrightarrow> off info' i = off info i"
  by (auto simp: flags_set_def off_bit)

lemma set_node_flags:
  assumes "t < length (infos db)" "infos db ! t = info" "i \<le> nodes (header info)" "i \<in> L" "\<forall>j\<in>L. readable info j"
  shows "\<exists>info' n. set_node_parent_state db (t, i) b = (Inr n, set_info db t info')
    \<and> flags_set L b {i} info info' \<and> (flags n AND NciM_STATE = 0 \<longleftrightarrow> \<not> off info i)"
proof -
  have f: "find_tree (infos db) 0 (t, i) = Some t" using assms by (simp add: find_tree_Some)
  obtain n where n: "tree_get_and_lock_nci info i = Inr n" using assms by (auto simp: readable_def)
  let ?n = "n\<lparr>flags := bitassign b (flags n) NciM_PARENT_STATE\<rparr>"
  have "set_node_parent_state db (t, i) b = (Inr ?n, set_info db t (tree_put_nci info i ?n))"
    using f n assms(2) by (simp add: set_node_parent_state_def Let_def)
  moreover have "flags_set L b {i} info (tree_put_nci info i ?n)"
  proof -
    have "flags_at info i = flags n" using n by (simp add: flags_at_def)
    then show ?thesis
      using tree_put_nci_laws(1) [of info i ?n] assms(4,5)
      by (auto simp: flags_set_def flags_put readable_put)
  qed
  moreover have "flags ?n AND NciM_STATE = 0 \<longleftrightarrow> \<not> off info i"
    using n by (simp add: state_bit off_bit flags_at_def)
  ultimately show ?thesis by blast
qed

definition ranked :: "nat set \<Rightarrow> (nat \<Rightarrow> nat set) \<Rightarrow> (nat \<Rightarrow> nat) \<Rightarrow> bool" where
  "ranked L S r \<longleftrightarrow> (\<forall>p\<in>L. \<forall>j\<in>S p. r j < r p)"


lemma set_parent_states_None [simp]: "set_parent_states db None b status = Some (status, db)"
  by (subst set_parent_states.simps) simp

lemma hierarchy_lists:
  assumes "hierarchy ns L C M" "p \<in> L"
  shows "linked (brother0 ns) (child0 ns p) (C p)" "set (C p) \<subseteq> L"
    "linked (brother0 ns) (member0 ns p) (M p)" "set (M p) \<subseteq> L"
    "j \<in> set (C p) \<union> set (M p) \<Longrightarrow> parent0 ns j = Some p"
proof -
  have c: "linked (brother0 ns) (child0 ns p) (C p) \<and> (\<forall>k\<in>set (C p). k \<in> L \<and> parent0 ns k = Some p)"
    and m: "linked (brother0 ns) (member0 ns p) (M p) \<and> (\<forall>k\<in>set (M p). k \<in> L \<and> parent0 ns k = Some p)"
    using assms unfolding hierarchy_def children.lists_def members.lists_def by blast+
  show "linked (brother0 ns) (child0 ns p) (C p)" "linked (brother0 ns) (member0 ns p) (M p)"
    using c m by blast+
  show "set (C p) \<subseteq> L" "set (M p) \<subseteq> L" using c m by blast+
  show "j \<in> set (C p) \<union> set (M p) \<Longrightarrow> parent0 ns j = Some p" using c m by blast
qed

text \<open>The loop on a list of brothers, in a tree without subtrees that has no cycle.\<close>

lemma set_parent_states_ok:
  assumes h: "hierarchy ns L C M" and S: "S = (\<lambda>p. set (C p) \<union> set (M p))" and r: "ranked L S r"
    and n: "\<forall>i\<in>L. i \<le> nodes hdr" and t: "t < length (infos db)" and plain: "\<forall>i. plain_usage (ns i)"
  shows "\<forall>j\<in>set js. r j < k \<Longrightarrow> set js \<subseteq> L \<Longrightarrow> linked (brother0 ns) x js \<Longrightarrow> node info = ns \<Longrightarrow>
    header info = hdr \<Longrightarrow> \<forall>i\<in>L. readable info i \<and> off info i = is_off i \<Longrightarrow>
    \<exists>info'. set_parent_states (set_info db t info) (map_option (Pair t) x) b TreeSUCCESS
        = Some (TreeSUCCESS, set_info db t info')
      \<and> flags_set L b (below is_off S (set js)) info info'"
proof (induction k arbitrary: js x info)
  case 0
  then have "js = []" by (cases js) auto
  then show ?case using 0 by (auto intro: flags_set_refl)
next
  case (Suc k)
  from Suc.prems show ?case
  proof (induction js arbitrary: x info)
    case Nil
    then show ?case by (auto intro: flags_set_refl)
  next
    case (Cons j js)
    have j: "j \<in> L" "x = Some j" "linked (brother0 ns) (brother0 ns j) js" using Cons.prems by auto
    have Cj: "linked (brother0 ns) (child0 ns j) (C j)" "set (C j) \<subseteq> L"
      and Mj: "linked (brother0 ns) (member0 ns j) (M j)" "set (M j) \<subseteq> L"
      using hierarchy_lists [OF h j(1)] by simp_all
    have ranks: "\<forall>i\<in>set (C j). r i < k" "\<forall>i\<in>set (M j). r i < k"
    proof -
      have "\<forall>i\<in>S j. r i < r j" "r j < Suc k" using r j(1) Cons.prems(1) by (simp_all add: ranked_def)
      then have "\<forall>i\<in>set (C j) \<union> set (M j). r i < k" unfolding S by (metis less_antisym less_trans)
      then show "\<forall>i\<in>set (C j). r i < k" "\<forall>i\<in>set (M j). r i < k" by blast+
    qed
    obtain info1 n where set: "set_node_parent_state (set_info db t info) (t, j) b = (Inr n, set_info db t info1)"
      and f1: "flags_set L b {j} info info1" and on: "flags n AND NciM_STATE = 0 \<longleftrightarrow> \<not> is_off j"
    proof -
      have "t < length (infos (set_info db t info))" "infos (set_info db t info) ! t = info"
        "j \<le> nodes (header info)" "\<forall>l\<in>L. readable info l" "off info j = is_off j"
        using t n j(1) Cons.prems(5,6) by simp_all
      from set_node_flags [OF this(1-3) j(1) this(4), of b] this(5) that show thesis by auto
    qed
    have links: "node_at (set_info db t i) (t, j) = ns j"
      "child_of (set_info db t i) (Some (t, j)) = map_option (Pair t) (child0 ns j)"
      "member_of (set_info db t i) (Some (t, j)) = map_option (Pair t) (member0 ns j)"
      "brother_of (set_info db t i) (Some (t, j)) = map_option (Pair t) (brother0 ns j)"
      if "node i = ns" for i
    proof -
      have "plain_tree (set_info db t i) t" using plain t that by (simp add: plain_tree_def)
      then show "node_at (set_info db t i) (t, j) = ns j"
        "child_of (set_info db t i) (Some (t, j)) = map_option (Pair t) (child0 ns j)"
        "member_of (set_info db t i) (Some (t, j)) = map_option (Pair t) (member0 ns j)"
        "brother_of (set_info db t i) (Some (t, j)) = map_option (Pair t) (brother0 ns j)"
        using t that by (simp_all add: node_at_def)
    qed
    have step: "\<exists>i'. (if \<not> is_off j \<and> y \<noteq> None
          then set_parent_states (set_info db t i) (map_option (Pair t) y) b TreeSUCCESS
          else Some (TreeSUCCESS, set_info db t i)) = Some (TreeSUCCESS, set_info db t i')
        \<and> flags_set L b (if is_off j then {} else below is_off S (set ls)) i i'"
      if "linked (brother0 ns) y ls" "set ls \<subseteq> L" "\<forall>l\<in>set ls. r l < k" "node i = ns" "header i = hdr"
        "\<forall>l\<in>L. readable i l \<and> off i l = is_off l" for y ls i
    proof (cases "is_off j \<or> y = None")
      case True
      then have "is_off j \<or> ls = []" using that(1) by auto
      then show ?thesis using True that(6) flags_set_refl [of L i b] by auto
    next
      case False
      then show ?thesis using Suc.IH [of ls y i] that by auto
    qed
    have keep: "node i' = ns \<and> header i' = hdr \<and> (\<forall>l\<in>L. readable i' l \<and> off i' l = is_off l)"
      if "flags_set L b D i i'" "node i = ns" "header i = hdr" "\<forall>l\<in>L. readable i l \<and> off i l = is_off l" for D i i'
      using that flags_set_off [OF that(1)] by (auto simp: flags_set_def same_treeD)
    have k1: "node info1 = ns" "header info1 = hdr" "\<forall>l\<in>L. readable info1 l \<and> off info1 l = is_off l"
      using keep [OF f1] Cons.prems by auto
    obtain info2 where r2: "(if \<not> is_off j \<and> child0 ns j \<noteq> None
          then set_parent_states (set_info db t info1) (map_option (Pair t) (child0 ns j)) b TreeSUCCESS
          else Some (TreeSUCCESS, set_info db t info1)) = Some (TreeSUCCESS, set_info db t info2)"
      and f2: "flags_set L b (if is_off j then {} else below is_off S (set (C j))) info1 info2"
      using step [OF Cj ranks(1) k1] by blast
    have k2: "node info2 = ns" "header info2 = hdr" "\<forall>l\<in>L. readable info2 l \<and> off info2 l = is_off l"
      using keep [OF f2] k1 by auto
    obtain info3 where r3: "(if \<not> is_off j \<and> member0 ns j \<noteq> None
          then set_parent_states (set_info db t info2) (map_option (Pair t) (member0 ns j)) b TreeSUCCESS
          else Some (TreeSUCCESS, set_info db t info2)) = Some (TreeSUCCESS, set_info db t info3)"
      and f3: "flags_set L b (if is_off j then {} else below is_off S (set (M j))) info2 info3"
      using step [OF Mj ranks(2) k2] by blast
    have k3: "node info3 = ns" "header info3 = hdr" "\<forall>l\<in>L. readable info3 l \<and> off info3 l = is_off l"
      using keep [OF f3] k2 by auto
    obtain info4 where r4: "set_parent_states (set_info db t info3) (map_option (Pair t) (brother0 ns j)) b TreeSUCCESS
        = Some (TreeSUCCESS, set_info db t info4)"
      and f4: "flags_set L b (below is_off S (set js)) info3 info4"
      using Cons.IH [OF _ _ j(3) k3] Cons.prems by auto
    have "set_parent_states (set_info db t info) (map_option (Pair t) x) b TreeSUCCESS
        = Some (TreeSUCCESS, set_info db t info4)"
      using set on r2 r3 r4 links [OF k1(1)] links [OF k2(1)] links [OF k3(1)]
      by (cases "is_off j"; cases "child (ns j) = 0"; cases "member (ns j) = 0"; subst set_parent_states.simps;
          simp add: j(2) Let_def del: member_of_pool)
    moreover have "flags_set L b (below is_off S (set (j # js))) info info4"
    proof -
      have "below is_off S (set (j # js)) = {j} \<union> (if is_off j then {} else below is_off S (set (C j)))
          \<union> (if is_off j then {} else below is_off S (set (M j))) \<union> below is_off S (set js)"
        by (auto simp: below_insert below_Un S)
      then show ?thesis
        using flags_set_trans [OF flags_set_trans [OF flags_set_trans [OF f1 f2] f3] f4] by simp
    qed
    ultimately show ?case by blast
  qed
qed


section \<open>Switching a node\<close>

text \<open>
  The invariant of the second bit: a node is off by its parent exactly when its parent is off, by
  itself or by its own parent.
\<close>

definition states_ok :: "TREE_INFO \<Rightarrow> nat set \<Rightarrow> (nat \<Rightarrow> nat set) \<Rightarrow> bool" where
  "states_ok info L S \<longleftrightarrow> (\<forall>p\<in>L. \<forall>j\<in>S p. parent_off info j \<longleftrightarrow> off info p \<or> parent_off info p)"

lemma below_rank:
  assumes "ranked L S r" "i \<in> L" "\<forall>p\<in>L. S p \<subseteq> L" "j \<in> below is_off S (S i)"
  shows "j \<in> L \<and> r j < r i"
  using assms(4)
proof induction
  case (start j)
  then show ?case using assms(1-3) by (auto simp: ranked_def)
next
  case (down p j)
  then have "r j < r p" "j \<in> L" using assms(1,3) by (auto simp: ranked_def)
  then show ?case using down.IH by simp
qed

lemma below_parent:
  assumes "\<forall>p\<in>L. \<forall>q\<in>L. S p \<inter> S q \<noteq> {} \<longrightarrow> p = q" "ranked L S r" "i \<in> L" "\<forall>p\<in>L. S p \<subseteq> L" "p \<in> L" "j \<in> S p"
  shows "j \<in> below is_off S (S i) \<longleftrightarrow> p = i \<or> p \<in> below is_off S (S i) \<and> \<not> is_off p"
proof
  assume "j \<in> below is_off S (S i)"
  then show "p = i \<or> p \<in> below is_off S (S i) \<and> \<not> is_off p"
  proof cases
    case start
    then show ?thesis using assms(1,3,5,6) by blast
  next
    case (down q)
    then have "q \<in> L" using below_rank [OF assms(2-4)] by blast
    then have "q = p" using down(3) assms(1,5,6) by blast
    then show ?thesis using down by blast
  qed
qed (use assms(6) in \<open>auto intro: below.intros\<close>)

lemma states_ok_switch:
  assumes uniq: "\<forall>p\<in>L. \<forall>q\<in>L. S p \<inter> S q \<noteq> {} \<longrightarrow> p = q" and r: "ranked L S r" and L: "i \<in> L" "\<forall>p\<in>L. S p \<subseteq> L"
    and ok: "states_ok info L S" and i: "\<not> parent_off info i"
    and one: "\<forall>j\<in>L. parent_off info1 j = parent_off info j \<and> off info1 j = (if j = i then b else off info j)"
    and set: "flags_set L b (below (off info1) S (S i)) info1 info'"
  shows "states_ok info' L S"
  unfolding states_ok_def
proof (intro ballI)
  fix p j assume p: "p \<in> L" "j \<in> S p"
  let ?D = "below (off info1) S (S i)"
  have jL: "j \<in> L" using p L by blast
  have new: "parent_off info' k = (if k \<in> ?D then b else parent_off info k)" "off info' k = off info1 k"
    if "k \<in> L" for k
    using set that one by (auto simp: flags_set_def off_bit)
  have "i \<notin> ?D" using below_rank [OF r L, of i "off info1"] by blast
  moreover have "j \<in> ?D \<longleftrightarrow> p = i \<or> p \<in> ?D \<and> \<not> off info1 p"
    by (rule below_parent [OF uniq r L p])
  moreover have "parent_off info j \<longleftrightarrow> off info p \<or> parent_off info p"
    using ok p by (simp add: states_ok_def)
  ultimately show "parent_off info' j \<longleftrightarrow> off info' p \<or> parent_off info' p"
    using new [OF p(1)] new [OF jL] one p(1) i by auto
qed

lemma descendants_ok:
  assumes h: "hierarchy ns L C M" and S: "S = (\<lambda>p. set (C p) \<union> set (M p))" and r: "ranked L S r"
    and t: "t < length (infos db)" and plain: "\<forall>i. plain_usage (ns i)" and i: "i \<in> L"
    and info: "node info = ns" "\<forall>j\<in>L. j \<le> nodes (header info) \<and> readable info j"
  shows "\<exists>info'. descendants_state (set_info db t info) (t, i) b = Some (TreeSUCCESS, set_info db t info')
    \<and> flags_set L b (below (off info) S (S i)) info info'"
proof -
  note C = hierarchy_lists(1,2) [OF h i] and M = hierarchy_lists(3,4) [OF h i]
  have run: "\<exists>a'. set_parent_states (set_info db t a) (map_option (Pair t) y) b TreeSUCCESS
        = Some (TreeSUCCESS, set_info db t a') \<and> flags_set L b (below (off info) S (set js)) a a'"
    if "linked (brother0 ns) y js" "set js \<subseteq> L" "node a = ns" "header a = header info"
      "\<forall>l\<in>L. readable a l \<and> off a l = off info l" for y js a
  proof -
    have "\<forall>l\<in>set js. r l < Suc (Max (insert 0 (r ` set js)))"
      by (auto simp: less_Suc_eq_le intro!: Max_ge)
    moreover have "\<forall>l\<in>L. l \<le> nodes (header info)" using info(2) by blast
    ultimately show ?thesis using set_parent_states_ok [OF h S r _ t plain _ that(2,1,3,4,5)] by blast
  qed
  have links: "node_at (set_info db t a) (t, i) = ns i"
    "child_of (set_info db t a) (Some (t, i)) = map_option (Pair t) (child0 ns i)"
    "member_of (set_info db t a) (Some (t, i)) = map_option (Pair t) (member0 ns i)" if "node a = ns" for a
  proof -
    have "plain_tree (set_info db t a) t" using plain t that by (simp add: plain_tree_def)
    then show "node_at (set_info db t a) (t, i) = ns i"
      "child_of (set_info db t a) (Some (t, i)) = map_option (Pair t) (child0 ns i)"
      "member_of (set_info db t a) (Some (t, i)) = map_option (Pair t) (member0 ns i)"
      using t that by (simp_all add: node_at_def)
  qed
  obtain info1 where r1: "set_parent_states (set_info db t info) (map_option (Pair t) (child0 ns i)) b TreeSUCCESS
      = Some (TreeSUCCESS, set_info db t info1)" and f1: "flags_set L b (below (off info) S (set (C i))) info info1"
    using run [OF C info(1)] info(2) by blast
  have k1: "node info1 = ns" "header info1 = header info" "\<forall>l\<in>L. readable info1 l \<and> off info1 l = off info l"
  proof -
    have "same_tree info info1" using f1 by (simp add: flags_set_def)
    then show "node info1 = ns" "header info1 = header info" using info(1) by (simp_all add: same_treeD)
    show "\<forall>l\<in>L. readable info1 l \<and> off info1 l = off info l"
      using f1 flags_set_off [OF f1] by (simp add: flags_set_def)
  qed
  obtain info2 where r2: "set_parent_states (set_info db t info1) (map_option (Pair t) (member0 ns i)) b TreeSUCCESS
      = Some (TreeSUCCESS, set_info db t info2)" and f2: "flags_set L b (below (off info) S (set (M i))) info1 info2"
    using run [OF M k1] by blast
  have "descendants_state (set_info db t info) (t, i) b = Some (TreeSUCCESS, set_info db t info2)"
    using r1 r2 links [OF info(1)] links [OF k1(1)]
    by (cases "child (ns i) = 0"; cases "member (ns i) = 0")
      (simp_all add: descendants_state_def tree_set_parent_state_def del: member_of_pool)
  then show ?thesis
    using flags_set_trans [OF f1 f2] by (auto simp: S below_Un)
qed

text \<open>Setting the first bit of a node, and what follows from it for the second bits.\<close>

lemma switch_ok:
  assumes h: "hierarchy ns L C M" and S: "S = (\<lambda>p. set (C p) \<union> set (M p))" and r: "ranked L S r"
    and t: "t < length (infos db)" and plain: "\<forall>i. plain_usage (ns i)" and i: "i \<in> L"
    and info: "node info = ns" "\<forall>j\<in>L. j \<le> nodes (header info) \<and> readable info j" and ok: "states_ok info L S"
    and n: "tree_get_and_lock_nci info i = Inr n" and on: "\<not> parent_off info i"
    and info1: "info1 = tree_put_nci info i (n\<lparr>flags := bitassign b (flags n) NciM_STATE\<rparr>)"
  shows "\<exists>info'. descendants_state (set_info db t info1) (t, i) b = Some (TreeSUCCESS, set_info db t info')
    \<and> same_tree info info' \<and> states_ok info' L S
    \<and> (\<forall>j\<in>L. off info' j = (if j = i then b else off info j))"
proof -
  have one: "\<forall>j\<in>L. parent_off info1 j = parent_off info j \<and> off info1 j = (if j = i then b else off info j)"
    using info(2) i n by (simp add: info1 off_bit flags_put) (simp add: flags_at_def)
  have st: "same_tree info info1" using tree_put_nci_laws(1) by (simp add: info1)
  then have info1': "node info1 = ns" "\<forall>j\<in>L. j \<le> nodes (header info1) \<and> readable info1 j"
    using info by (simp_all add: same_treeD info1 readable_put)
  obtain info' where run: "descendants_state (set_info db t info1) (t, i) b = Some (TreeSUCCESS, set_info db t info')"
    and set: "flags_set L b (below (off info1) S (S i)) info1 info'"
    using descendants_ok [OF h S r t plain i info1'] by blast
  have SL: "\<forall>p\<in>L. S p \<subseteq> L" using hierarchy_lists(2,4) [OF h] by (simp add: S)
  have uniq: "\<forall>p\<in>L. \<forall>q\<in>L. S p \<inter> S q \<noteq> {} \<longrightarrow> p = q"
  proof (intro ballI impI)
    fix p q assume "p \<in> L" "q \<in> L" "S p \<inter> S q \<noteq> {}"
    then obtain j where "j \<in> S p" "j \<in> S q" by blast
    then have "parent0 ns j = Some p" "parent0 ns j = Some q"
      using hierarchy_lists(5) [OF h \<open>p \<in> L\<close>, of j] hierarchy_lists(5) [OF h \<open>q \<in> L\<close>, of j] by (auto simp: S)
    then show "p = q" by simp
  qed
  have "same_tree info info'" using set st same_tree_trans unfolding flags_set_def by blast
  then show ?thesis
    using run states_ok_switch [OF uniq r i SL ok on one set] flags_set_off [OF set] one by auto
qed

lemma states_ok_below_off:
  assumes h: "hierarchy ns L C M" and S: "S = (\<lambda>p. set (C p) \<union> set (M p))" and ok: "states_ok info L S"
    and one: "\<forall>j\<in>L. parent_off info1 j = parent_off info j \<and> off info1 j = (if j = i then b else off info j)"
    and i: "parent_off info i"
  shows "states_ok info1 L S"
  unfolding states_ok_def
proof (intro ballI)
  fix p j assume p: "p \<in> L" "j \<in> S p"
  then have "j \<in> L" using hierarchy_lists(2,4) [OF h p(1)] by (auto simp: S)
  moreover have "parent_off info j \<longleftrightarrow> off info p \<or> parent_off info p" using ok p by (simp add: states_ok_def)
  ultimately show "parent_off info1 j \<longleftrightarrow> off info1 p \<or> parent_off info1 p" using one p(1) i by simp
qed

text \<open>
  C10: \<open>_TreeTurnOff\<close> ends, switches the node off and no other, and keeps the invariant of a tree:
  afterwards, too, a node is off by its parent exactly when some node above it is off. The
  recursion may stop at a node that is off by itself, since all below it are off by their
  parents already.
\<close>

theorem TreeTurnOff_state:
  assumes "hierarchy ns L C M" and "S = (\<lambda>p. set (C p) \<union> set (M p))" and "ranked L S r"
    and "\<forall>i. plain_usage (ns i)" and "open_tree db" and "nid_to_tree_idx db nid = (Some t, i)" and "i \<in> L"
    and "info = infos db ! t" and "node info = ns" and "\<forall>j\<in>L. j \<le> nodes (header info) \<and> readable info j"
    and "states_ok info L S"
  shows "\<exists>info'. TreeTurnOff db nid =
        Some (if off info i then TreeALREADY_OFF else TreeSUCCESS, set_info db t info')
    \<and> same_tree info info' \<and> states_ok info' L S \<and> (\<forall>j\<in>L. off info' j \<longleftrightarrow> j = i \<or> off info j)"
proof -
  have t: "t < length (infos db)" using assms(6) by (auto simp: nid_to_tree_idx_def split: if_splits)
  have same: "set_info db t info = db" using set_info_same [OF t] assms(8) by simp
  obtain n where n: "tree_get_and_lock_nci info i = Inr n" using assms(7,10) by (auto simp: readable_def)
  then have fl: "flags_at info i = flags n" by (simp add: flags_at_def)
  let ?n = "n\<lparr>flags := bitassign True (flags n) NciM_STATE\<rparr>"
  let ?info1 = "tree_put_nci info i ?n"
  show ?thesis
  proof (cases "off info i")
    case True
    then have "TreeTurnOff db nid = Some (TreeALREADY_OFF, db)"
      using n assms(5,6,8) fl by (simp add: TreeTurnOff_def off_def)
    then show ?thesis using True same assms(11) by (intro exI [of _ info]) auto
  next
    case False
    then have run: "TreeTurnOff db nid = (if parent_off info i then Some (TreeSUCCESS, set_info db t ?info1)
        else descendants_state (set_info db t ?info1) (t, i) True)"
      using n assms(5,6,8) fl by (simp add: TreeTurnOff_def Let_def off_def parent_off_def state_bit)
    show ?thesis
    proof (cases "parent_off info i")
      case True
      have one: "\<forall>j\<in>L. parent_off ?info1 j = parent_off info j \<and> off ?info1 j = (if j = i then True else off info j)"
        using assms(7,10) fl by (simp add: off_bit flags_put)
      moreover have "states_ok ?info1 L S"
        by (rule states_ok_below_off [OF assms(1,2,11) one True])
      moreover have "TreeTurnOff db nid = Some (TreeSUCCESS, set_info db t ?info1)" using run True by simp
      ultimately show ?thesis
        using False tree_put_nci_laws(1) [of info i ?n] by (intro exI [of _ ?info1]) simp
    next
      case on: False
      from switch_ok [OF assms(1-3) t assms(4,7,9,10,11) n on refl, of True]
      obtain info' where i': "descendants_state (set_info db t ?info1) (t, i) True = Some (TreeSUCCESS, set_info db t info')"
        "same_tree info info'" "states_ok info' L S" "\<forall>j\<in>L. off info' j = (if j = i then True else off info j)"
        by blast
      have "TreeTurnOff db nid = Some (TreeSUCCESS, set_info db t info')" using run on i'(1) by simp
      then show ?thesis using False i'(2-4) by (intro exI [of _ info']) simp
    qed
  qed
qed


text \<open>
  C24: \<open>_TreeTurnOn\<close> ends, takes the node's own switch back and no other, and keeps the invariant: a node
  below becomes on only when no other node above it is off. Under a parent that is off the node
  stays off, and the status says so.
\<close>

theorem TreeTurnOn_state:
  assumes "hierarchy ns L C M" and "S = (\<lambda>p. set (C p) \<union> set (M p))" and "ranked L S r"
    and "\<forall>i. plain_usage (ns i)" and "open_tree db" and "nid_to_tree_idx db nid = (Some t, i)" and "i \<in> L"
    and "info = infos db ! t" and "node info = ns" and "\<forall>j\<in>L. j \<le> nodes (header info) \<and> readable info j"
    and "states_ok info L S"
  shows "\<exists>info'. TreeTurnOn db nid =
        Some (if \<not> off info i then TreeALREADY_ON else if parent_off info i then TreePARENT_OFF else TreeSUCCESS,
              set_info db t info')
    \<and> same_tree info info' \<and> states_ok info' L S \<and> (\<forall>j\<in>L. off info' j \<longleftrightarrow> j \<noteq> i \<and> off info j)"
proof -
  have t: "t < length (infos db)" using assms(6) by (auto simp: nid_to_tree_idx_def split: if_splits)
  have same: "set_info db t info = db" using set_info_same [OF t] assms(8) by simp
  obtain n where n: "tree_get_and_lock_nci info i = Inr n" using assms(7,10) by (auto simp: readable_def)
  then have fl: "flags_at info i = flags n" by (simp add: flags_at_def)
  let ?n = "n\<lparr>flags := bitassign False (flags n) NciM_STATE\<rparr>"
  let ?info1 = "tree_put_nci info i ?n"
  show ?thesis
  proof (cases "off info i")
    case False
    then have "TreeTurnOn db nid = Some (TreeALREADY_ON, db)"
      using n assms(5,6,8) fl by (simp add: TreeTurnOn_def off_def)
    then show ?thesis using False same assms(11) by (intro exI [of _ info]) auto
  next
    case True
    then have run: "TreeTurnOn db nid = (if parent_off info i then Some (TreePARENT_OFF, set_info db t ?info1)
        else descendants_state (set_info db t ?info1) (t, i) False)"
      using n assms(5,6,8) fl by (simp add: TreeTurnOn_def Let_def off_def parent_off_def state_bit)
    show ?thesis
    proof (cases "parent_off info i")
      case parent: True
      have one: "\<forall>j\<in>L. parent_off ?info1 j = parent_off info j \<and> off ?info1 j = (if j = i then False else off info j)"
        using assms(7,10) fl by (simp add: off_bit flags_put)
      moreover have "states_ok ?info1 L S"
        by (rule states_ok_below_off [OF assms(1,2,11) one parent])
      moreover have "TreeTurnOn db nid = Some (TreePARENT_OFF, set_info db t ?info1)" using run parent by simp
      ultimately show ?thesis
        using True parent tree_put_nci_laws(1) [of info i ?n] by (intro exI [of _ ?info1]) simp
    next
      case on: False
      from switch_ok [OF assms(1-3) t assms(4,7,9,10,11) n on refl, of False]
      obtain info' where i': "descendants_state (set_info db t ?info1) (t, i) False = Some (TreeSUCCESS, set_info db t info')"
        "same_tree info info'" "states_ok info' L S" "\<forall>j\<in>L. off info' j = (if j = i then False else off info j)"
        by blast
      have "TreeTurnOn db nid = Some (TreeSUCCESS, set_info db t info')" using run on i'(1) by simp
      then show ?thesis using True on i'(2-4) by (intro exI [of _ info']) simp
    qed
  qed
qed

text \<open>The tree of \<open>two_nodes\<close>, whose characteristics are in memory, all on or the top off.\<close>

definition switches :: "bool \<Rightarrow> TREE_INFO" where
  "switches b = (zero_info ''MAIN'')\<lparr>header := zero_header\<lparr>nodes := 3\<rparr>, node := two_nodes,
     edit := Some (zero_edit\<lparr>nci := (\<lambda>i. empty_nci
       \<lparr>flags := if b then if i = 0 then NciM_STATE else NciM_PARENT_STATE else 0\<rparr>)\<rparr>)\<rparr>"

abbreviation one_child :: "nat \<Rightarrow> nat set" where
  "one_child \<equiv> (\<lambda>p. set (((\<lambda>_. [])(0 := [1])) p) \<union> set ((\<lambda>_. []) p))"

lemma two_nodes_shape: "ranked {0, 1} one_child (\<lambda>i. 1 - i)" "\<forall>i. plain_usage (two_nodes i)"
  by (simp_all add: ranked_def plain_usage_def two_nodes_def zero_node_def TreeUSAGE_SUBTREE_REF_def
      TreeUSAGE_SUBTREE_TOP_def)

lemma switches_hyps:
  shows "nid_to_tree_idx (edit_slot (switches b)) 0 = (Some 0, 0)" "open_tree (edit_slot (switches b))"
    "switches b = infos (edit_slot (switches b)) ! 0" "node (switches b) = two_nodes"
    "\<forall>j\<in>{0, 1}. j \<le> nodes (header (switches b)) \<and> readable (switches b) j" "states_ok (switches b) {0, 1} one_child"
    "off (switches b) 0 = b" "\<not> off (switches b) 1" "\<not> parent_off (switches b) 0"
proof -
  have get: "tree_get_and_lock_nci (switches b) i = Inr (empty_nci
       \<lparr>flags := if b then if i = 0 then NciM_STATE else NciM_PARENT_STATE else 0\<rparr>)" for i
    by (simp add: tree_get_and_lock_nci_def switches_def zero_info_def zero_header_def in_file_def zero_edit_def)
  have bits: "off (switches b) i = (b \<and> i = 0)" "parent_off (switches b) i = (b \<and> i \<noteq> 0)" for i
    by (simp_all add: off_bit flags_at_def get NciM_STATE_def NciM_PARENT_STATE_def)
  show "states_ok (switches b) {0, 1} one_child"
    by (simp add: states_ok_def bits)
  show "\<forall>j\<in>{0, 1}. j \<le> nodes (header (switches b)) \<and> readable (switches b) j"
    by (simp add: readable_def get) (simp add: switches_def)
  show "nid_to_tree_idx (edit_slot (switches b)) 0 = (Some 0, 0)"
    by (simp add: nid_to_tree_idx_def nid_tree_def nid_node_def infos_def edit_slot_def switches_def)
  show "off (switches b) 0 = b" "\<not> off (switches b) 1" "\<not> parent_off (switches b) 0" by (simp_all add: bits)
qed (simp_all add: edit_slot_def infos_def switches_def)

lemma TreeTurnOff_state_witness:
  "\<exists>info'. TreeTurnOff (edit_slot (switches False)) 0 = Some (TreeSUCCESS, set_info (edit_slot (switches False)) 0 info')
     \<and> off info' 0 \<and> parent_off info' 1"
proof -
  note h = switches_hyps [of False]
  from TreeTurnOff_state [OF two_nodes_hierarchy refl two_nodes_shape h(2,1) _ h(3-6)]
  obtain info' where i: "TreeTurnOff (edit_slot (switches False)) 0 =
      Some (TreeSUCCESS, set_info (edit_slot (switches False)) 0 info')"
    "states_ok info' {0, 1} one_child"
    "\<forall>j\<in>{0, 1}. off info' j \<longleftrightarrow> j = 0 \<or> off (switches False) j"
    using h(7) by auto
  then have "off info' 0" "parent_off info' 1" by (simp_all add: states_ok_def)
  then show ?thesis using i(1) by blast
qed

lemma TreeTurnOn_state_witness:
  "\<exists>info'. TreeTurnOn (edit_slot (switches True)) 0 = Some (TreeSUCCESS, set_info (edit_slot (switches True)) 0 info')
     \<and> \<not> off info' 0"
proof -
  note h = switches_hyps [of True]
  from TreeTurnOn_state [OF two_nodes_hierarchy refl two_nodes_shape h(2,1) _ h(3-6)] show ?thesis
    using h(7,9) by auto
qed

end
