(* ===== verification/TreeTags.thy ===== *)
theory TreeTags
  imports TreeInsert
begin

text \<open>
  The tags of a tree (\<open>TreeAddTag.c\<close>, \<open>TreeFindTag.c\<close>, \<open>TreeRemoveNodesTags.c\<close>): a table of names of
  nodes. The blocks of the table (\<open>tag_info\<close>) are in the order in which the tags were added, the
  tags of one node are linked through numbers that count the blocks from 1, and an index of the
  blocks (\<open>tag_index\<close>) is kept in the order of the names for a binary search.
  The abstract view is the map from tag names to nodes (\<open>tag_map\<close>).

  A result is \<open>None\<close> where the code follows a null pointer, leaves an array or does not end.
\<close>

section \<open>Adding a tag\<close>

text \<open>The name of a tag in upper case, with blanks up to 24 characters.\<close>

definition tag_text :: "string \<Rightarrow> string" where
  "tag_text tagnam = map toupper tagnam @ replicate (24 - length tagnam) CHR '' ''"

definition letter :: "char \<Rightarrow> bool" where
  "letter c \<longleftrightarrow> \<not> (code c < code CHR ''A'' \<or> code c > code CHR ''Z'')"

definition digit :: "char \<Rightarrow> bool" where
  "digit c \<longleftrightarrow> \<not> (code c < code CHR ''0'' \<or> code c > code CHR ''9'')"

definition legal_tag :: "nat \<Rightarrow> string \<Rightarrow> bool" where
  "legal_tag n tag \<longleftrightarrow>
     letter (tag ! 0)
     \<and> list_all (\<lambda>c. letter c \<or> digit c \<or> c = CHR ''_'') (take (n - 1) (drop 1 tag))"

text \<open>
  The place of a new tag in the index from position \<open>tidx\<close> on. In the code \<open>newtag_idx = 0\<close> after the
  loop stands both for a place at the front and for no place found; the counter \<open>tidx\<close>, which
  it is then set to, is the place in both cases.
\<close>

fun tag_slot :: "TAG_INFO list \<Rightarrow> string \<Rightarrow> nat list \<Rightarrow> nat \<Rightarrow> status + nat" where
  "tag_slot infs tag [] tidx = Inr tidx"
| "tag_slot infs tag (idx # ts) tidx =
     (let cmp = strncmp tag (tag_name (infs ! idx))
      in if cmp = 0 then Inl TreeDUPTAG
         else if cmp < 0 then Inr tidx
         else tag_slot infs tag ts (Suc tidx))"

definition TAG_INFO_SIZE :: nat where "TAG_INFO_SIZE = 32"

definition pages_for :: "nat \<Rightarrow> nat \<Rightarrow> nat" where
  "pages_for n bytes = (n * bytes + 511) div 512"

text \<open>
  The second half: the block of the tag after the others, its number in the node and the count of the tags.
  \<open>None\<close> stands for the return with \<open>TreeMEMERR\<close>; the index has the new entry by then.
\<close>

definition add_tag_info :: "bool \<Rightarrow> TREE_INFO \<Rightarrow> string \<Rightarrow> nat \<Rightarrow> TREE_INFO option" where
  "add_tag_info info_mem info tag i =
     (let n = tags (header info); ed = the (edit info);
          new = \<lparr>tag_name = tag, node_idx = i, next_tag = tag_link (node info i)\<rparr>;
          needed = pages_for (n + 1) TAG_INFO_SIZE;
          grow = needed > max (pages_for n TAG_INFO_SIZE) (tag_info_pages ed)
      in if grow \<and> \<not> info_mem then None
         else Some (info\<lparr>tag_info := take n (tag_info info) @ [new],
                         edit := Some (ed\<lparr>tag_info_pages := (if grow then needed + 31 else tag_info_pages ed)\<rparr>),
                         node := (node info)(i := (node info i)\<lparr>tag_link := int (n + 1)\<rparr>),
                         header := (header info)\<lparr>tags := n + 1\<rparr>\<rparr>))"

text \<open>
  \<open>_TreeAddTag\<close>; \<open>index_mem\<close> and \<open>info_mem\<close> say whether \<open>calloc\<close> finds memory for a larger index and for
  more blocks. A node of another tree is \<open>None\<close>: its distance to the nodes of the main tree is not
  defined.
\<close>

definition TreeAddTag ::
    "bool \<Rightarrow> bool \<Rightarrow> PINO_DATABASE \<Rightarrow> u32 \<Rightarrow> string \<Rightarrow> (status \<times> PINO_DATABASE) option" where
  "TreeAddTag index_mem info_mem db nid tagnam =
     (let info = tree_info db; n = tags (header info); ed = the (edit info); tag = tag_text tagnam
      in if \<not> IS_OPEN_FOR_EDIT db then Some (TreeNOEDIT, db)
         else if length tagnam < 1 \<or> length tagnam > 24 then Some (TreeTAGNAMLEN, db)
         else if \<not> legal_tag (length tagnam) tag then Some (TreeINVTAG, db)
         else case tag_slot (tag_info info) tag (take n (tag_index info)) 0 of
           Inl status \<Rightarrow> Some (status, db)
         | Inr slot \<Rightarrow>
             let needed = pages_for (n + 1) 4; grow = needed > max (pages_for n 4) (tags_pages ed)
             in if grow \<and> \<not> index_mem then Some (TreeMEMERR, db)
                else
                  let info = info\<lparr>tag_index := take slot (tag_index info) @ [n]
                                                @ drop slot (take n (tag_index info)),
                                  edit := Some (ed\<lparr>tags_pages := (if grow then needed else tags_pages ed)\<rparr>)\<rparr>
                  in case nid_to_node db nid of
                       None \<Rightarrow> None
                     | Some (t, i) \<Rightarrow>
                         if t \<noteq> 0 then None
                         else case add_tag_info info_mem info tag i of
                                None \<Rightarrow> Some (TreeMEMERR, db\<lparr>tree_info := info\<rparr>)
                              | Some info \<Rightarrow> Some (TreeSUCCESS, db\<lparr>tree_info := info, modified := True\<rparr>))"

section \<open>Finding a tag\<close>

definition BsearchCompare :: "TAG_INFO list \<Rightarrow> string \<Rightarrow> nat \<Rightarrow> int" where
  "BsearchCompare infs tag idx = strncmp tag (tag_name (infs ! idx))"

text \<open>The \<open>bsearch\<close> of the C library on the elements of an array from \<open>l\<close> to before \<open>u\<close>.\<close>

function bsearch :: "('a \<Rightarrow> int) \<Rightarrow> 'a list \<Rightarrow> nat \<Rightarrow> nat \<Rightarrow> 'a option" where
  "bsearch cmp xs l u =
     (if l < u
      then let m = (l + u) div 2; c = cmp (xs ! m)
           in if c < 0 then bsearch cmp xs l m
              else if c > 0 then bsearch cmp xs (Suc m) u
              else Some (xs ! m)
      else None)"
  by pat_completeness auto
termination by (relation "measure (\<lambda>(cmp, xs, l, u). u - l)") auto

declare bsearch.simps [simp del]

text \<open>The search of the table of one tree: the number of the block, from 1.\<close>

definition search_tags :: "TREE_INFO \<Rightarrow> string \<Rightarrow> nat option" where
  "search_tags info tag =
     (case tags (header info) of
        0 \<Rightarrow> None
      | Suc 0 \<Rightarrow>
          if BsearchCompare (tag_info info) tag (tag_index info ! 0) = 0 then Some 1 else None
      | n \<Rightarrow> map_option Suc (bsearch (BsearchCompare (tag_info info) tag) (tag_index info) 0 n))"

text \<open>The tree a search is in: by its name, or the tree the default node is in.\<close>

fun search_tree :: "string option \<Rightarrow> node_ptr \<Rightarrow> TREE_INFO list \<Rightarrow> nat \<Rightarrow> nat option" where
  "search_tree tree defnode [] t = None"
| "search_tree tree defnode (info # rest) t =
     (if (case tree of
            Some nm \<Rightarrow> length (treenam info) = length nm \<and> strncmp (treenam info) nm = 0
          | None \<Rightarrow> fst defnode = t \<and> snd defnode < nodes (header info))
      then Some t else search_tree tree defnode rest (Suc t))"

text \<open>
  \<open>_TreeFindTag\<close>: the status, the node, and the number of the tag, which stays unset (\<open>None\<close>) when the
  tag is found by the search of all trees, the argument \<open>wild\<close> (\<open>_TreeFindTagWild\<close>).
\<close>

definition TreeFindTag ::
    "(string \<Rightarrow> u32 option) \<Rightarrow> PINO_DATABASE \<Rightarrow> node_ptr \<Rightarrow> string option \<Rightarrow> string
     \<Rightarrow> status \<times> node_ptr option \<times> nat option" where
  "TreeFindTag wild db defnode tree tagnam =
     (let tag = map toupper (take 24 tagnam) @ replicate (24 - length (take 24 tagnam)) CHR '' ''
      in case search_tree tree defnode (infos db) 0 of
           None \<Rightarrow> (TreeTNF, None, None)
         | Some t \<Rightarrow>
             let info = infos db ! t
             in if length tagnam = 3 \<and> strncmp tagnam ''TOP'' = 0
                then (TreeSUCCESS, Some (t, root info), Some 0)
                else case search_tags info tag of
                       Some k \<Rightarrow> (TreeSUCCESS, Some (t, node_idx (tag_info info ! (k - 1))), Some k)
                     | None \<Rightarrow>
                         if tree = None
                         then case wild (takeWhile (\<lambda>c. c \<noteq> CHR '' '') tag) of
                                Some nid \<Rightarrow> (TreeSUCCESS, nid_to_node db nid, None)
                              | None \<Rightarrow> (TreeTNF, None, None)
                         else (TreeTNF, None, None))"

text \<open>
  \<open>_TreeFindNodeTags\<close>: the next tag of a node, and the context for the call after: 0 to start, -1 after
  the last tag.
\<close>

definition TreeFindNodeTags :: "PINO_DATABASE \<Rightarrow> u32 \<Rightarrow> int \<Rightarrow> (string option \<times> int) option" where
  "TreeFindNodeTags db nid ctx =
     (if \<not> open_tree db then Some (None, ctx)
      else case nid_to_tree_idx db nid of
             (None, _) \<Rightarrow> Some (None, 0)
           | (Some t, i) \<Rightarrow>
               let info = infos db ! t;
                   ctx = (if ctx = 0 then tag_link (node info i) else if ctx = -1 then 0 else ctx)
               in if ctx > 0 \<and> ctx \<le> int (tags (header info))
                  then let block = tag_info info ! (nat ctx - 1)
                       in Some (Some (takeWhile (\<lambda>c. c \<noteq> CHR '' '') (take 24 (tag_name block))),
                                if next_tag block = 0 then -1 else next_tag block)
                  else Some (None, 0))"

section \<open>Removing tags\<close>

definition dec :: "int \<Rightarrow> int \<Rightarrow> int" where
  "dec t x = (if x \<ge> t then x - 1 else x)"

text \<open>The block before the one that is removed, in the list of the tags of a node.\<close>

partial_function (option) find_pred :: "TAG_INFO list \<Rightarrow> int \<Rightarrow> nat \<Rightarrow> nat option" where
  "find_pred infs t k =
     (if next_tag (infs ! k) \<noteq> t \<and> next_tag (infs ! k) > 0
      then find_pred infs t (nat (next_tag (infs ! k)) - 1) else Some k)"

fun position :: "nat \<Rightarrow> nat list \<Rightarrow> nat \<Rightarrow> nat option \<Rightarrow> nat option" where
  "position k [] i found = found"
| "position k (x # xs) i found = position k xs (Suc i) (if x = k then Some i else found)"

definition unlink_tag :: "TREE_INFO \<Rightarrow> nat \<Rightarrow> TREE_INFO option" where
  "unlink_tag info t =
     (let infs = tag_info info; block = infs ! (t - 1); i = node_idx block; link = tag_link (node info i)
      in if link = int t
         then Some (info\<lparr>node := (node info)(i := (node info i)\<lparr>tag_link := next_tag block\<rparr>)\<rparr>)
         else if link \<le> 0 then None
         else map_option
                (\<lambda>k. if next_tag (infs ! k) = int t
                     then info\<lparr>tag_info := infs[k := (infs ! k)\<lparr>next_tag := next_tag block\<rparr>]\<rparr>
                     else info)
                (find_pred infs (int t) (nat link - 1)))"

definition renumber_tags :: "TREE_INFO \<Rightarrow> nat \<Rightarrow> TREE_INFO" where
  "renumber_tags info t =
     info\<lparr>tag_info := map (\<lambda>b. b\<lparr>next_tag := dec (int t) (next_tag b)\<rparr>) (tag_info info),
          node := (\<lambda>j. if j < nodes (header info)
                       then (node info j)\<lparr>tag_link := dec (int t) (tag_link (node info j))\<rparr>
                       else node info j),
          tag_index := map (\<lambda>x. if x \<ge> t then x - 1 else x) (tag_index info)\<rparr>"

definition RemoveTagIdx :: "TREE_INFO \<Rightarrow> nat \<Rightarrow> TREE_INFO option" where
  "RemoveTagIdx info t =
     (if tags (header info) = 0 then Some info
      else if t = 0 \<or> t > tags (header info) then None
      else map_option
             (\<lambda>info.
                let at = position (t - 1) (tag_index info) 0 None; info = renumber_tags info t;
                    info = (case at of
                              Some p \<Rightarrow>
                                info\<lparr>tag_index := take p (tag_index info) @ drop (Suc p) (tag_index info),
                                     tag_info := take (t - 1) (tag_info info) @ drop t (tag_info info)\<rparr>
                            | None \<Rightarrow> info)
                in info\<lparr>header := (header info)\<lparr>tags := tags (header info) - 1\<rparr>\<rparr>)
             (unlink_tag info t))"

definition TreeRemoveTag :: "PINO_DATABASE \<Rightarrow> string \<Rightarrow> (status \<times> PINO_DATABASE) option" where
  "TreeRemoveTag db tagnam =
     (if \<not> IS_OPEN_FOR_EDIT db then Some (TreeNOEDIT, db)
      else case TreeFindTag (\<lambda>_. None) db (0, 0) (Some (treenam (tree_info db))) tagnam of
             (status, _, Some idx) \<Rightarrow>
               if STATUS_OK status
               then map_option
                      (\<lambda>info. (status, db\<lparr>tree_info := info,
                                         modified := (if tags (header (tree_info db)) = 0 then modified db else True)\<rparr>))
                      (RemoveTagIdx (tree_info db) idx)
               else Some (status, db)
           | (status, _, None) \<Rightarrow> Some (status, db))"

partial_function (option) remove_tags :: "TREE_INFO \<Rightarrow> int \<Rightarrow> TREE_INFO option" where
  "remove_tags info t =
     (if t = 0 then Some info
      else Option.bind (RemoveTagIdx info (nat t))
             (\<lambda>info'. remove_tags info' (next_tag (tag_info info ! (nat t - 1)))))"

definition TreeRemoveNodesTags :: "PINO_DATABASE \<Rightarrow> u32 \<Rightarrow> (status \<times> PINO_DATABASE) option" where
  "TreeRemoveNodesTags db nid =
     (if \<not> IS_OPEN_FOR_EDIT db then Some (TreeNOEDIT, db)
      else case nid_to_node db nid of
             Some (0, i) \<Rightarrow>
               map_option
                 (\<lambda>info. (TreeSUCCESS,
                          db\<lparr>tree_info := info,
                             modified := (if tag_link (node (tree_info db) i) = 0 \<or> tags (header (tree_info db)) = 0
                                         then modified db else True)\<rparr>))
                 (remove_tags (tree_info db) (tag_link (node (tree_info db) i)))
           | _ \<Rightarrow> None)"


section \<open>The table of tags\<close>

definition valid_tag :: "string \<Rightarrow> bool" where
  "valid_tag s \<longleftrightarrow> length s = 24 \<and> CHR 0x00 \<notin> set s"

abbreviation tag_key :: "TAG_INFO list \<Rightarrow> nat \<Rightarrow> string" where
  "tag_key infs k \<equiv> tag_name (infs ! k)"

text \<open>The numbers of the tags of node \<open>i\<close>, the newest first.\<close>

definition tag_nums :: "TAG_INFO list \<Rightarrow> nat \<Rightarrow> nat list" where
  "tag_nums infs i = rev (filter (\<lambda>t. node_idx (infs ! (t - 1)) = i) [1..<Suc (length infs)])"

fun tag_chain :: "TAG_INFO list \<Rightarrow> int \<Rightarrow> nat list \<Rightarrow> bool" where
  "tag_chain infs x [] \<longleftrightarrow> x = 0"
| "tag_chain infs x (t # ts) \<longleftrightarrow> x = int t \<and> tag_chain infs (next_tag (infs ! (t - 1))) ts"

text \<open>
  The invariant: the index lists all blocks in the order of their names, and each node is linked to
  its tags, the newest first.
\<close>

definition tags_ok :: "TREE_INFO \<Rightarrow> bool" where
  "tags_ok info \<longleftrightarrow>
     length (tag_info info) = tags (header info) \<and> length (tag_index info) = tags (header info)
     \<and> set (tag_index info) = {..<tags (header info)}
     \<and> sorted_wrt (<) (map (tag_key (tag_info info)) (tag_index info))
     \<and> (\<forall>b\<in>set (tag_info info). valid_tag (tag_name b) \<and> node_idx b < nodes (header info))
     \<and> (\<forall>i<nodes (header info). tag_chain (tag_info info) (tag_link (node info i)) (tag_nums (tag_info info) i))"

text \<open>The table as a map from names to nodes.\<close>

definition tag_map :: "TREE_INFO \<Rightarrow> string \<Rightarrow> nat option" where
  "tag_map info = map_of (map (\<lambda>b. (tag_name b, node_idx b)) (tag_info info))"

lemma tag_cmp:
  assumes "valid_tag a" "valid_tag b"
  shows "strncmp a b < 0 \<longleftrightarrow> a < b" "strncmp a b = 0 \<longleftrightarrow> a = b"
  using assms strncmp_less [of a b] strncmp_eq [of a b] by (simp_all add: valid_tag_def)

lemma tags_ok_distinct:
  assumes "tags_ok info"
  shows "distinct (tag_index info)" "distinct (map tag_name (tag_info info))"
proof -
  have d: "distinct (map (tag_key (tag_info info)) (tag_index info))"
    using assms by (auto simp: tags_ok_def strict_sorted_iff)
  then show "distinct (tag_index info)" by (simp add: distinct_map)
  have "inj_on (tag_key (tag_info info)) {..<length (tag_info info)}"
    using d assms by (simp add: distinct_map tags_ok_def)
  then show "distinct (map tag_name (tag_info info))"
    by (auto simp: distinct_conv_nth inj_on_def)
qed

lemma tag_index_less: "tags_ok info \<Longrightarrow> k \<in> set (tag_index info) \<Longrightarrow> k < length (tag_info info)"
  by (simp add: tags_ok_def)

lemma tag_name_nth: "tags_ok info \<Longrightarrow> k < length (tag_info info) \<Longrightarrow> valid_tag (tag_key (tag_info info) k)"
  by (simp add: tags_ok_def)

section \<open>A tag added\<close>

lemma legal_text: "legal_tag (length s) (tag_text s) \<Longrightarrow> length s \<le> 24 \<Longrightarrow> 1 \<le> length s \<Longrightarrow> valid_tag (tag_text s)"
proof -
  assume l: "legal_tag (length s) (tag_text s)" and n: "length s \<le> 24" "1 \<le> length s"
  have pos: "c \<noteq> CHR 0x00" if "letter c \<or> digit c \<or> c = CHR ''_''" for c
    using that by (auto simp: letter_def digit_def code_def)
  obtain c r where s: "s = c # r" using n by (cases s) auto
  have "letter (toupper c)" "\<forall>d\<in>set r. letter (toupper d) \<or> digit (toupper d) \<or> toupper d = CHR ''_''"
    using l by (simp_all add: legal_tag_def tag_text_def s list_all_iff)
  then have "\<forall>d\<in>set (map toupper s). letter d \<or> digit d \<or> d = CHR ''_''"
    by (simp add: s)
  then have "CHR 0x00 \<notin> set (map toupper s)" using pos by blast
  then show ?thesis using n by (auto simp: valid_tag_def tag_text_def)
qed

lemma tag_slot_sorted:
  assumes "valid_tag tag" "\<forall>k\<in>set ts. valid_tag (tag_key infs k)" "sorted_wrt (<) (map (tag_key infs) ts)"
  shows "tag_slot infs tag ts i =
    (if tag \<in> tag_key infs ` set ts then Inl TreeDUPTAG
     else Inr (i + length (takeWhile (\<lambda>k. tag_key infs k < tag) ts)))"
  using assms
proof (induction ts arbitrary: i)
  case (Cons k ts)
  have cmp: "strncmp tag (tag_key infs k) = 0 \<longleftrightarrow> tag = tag_key infs k"
    "strncmp tag (tag_key infs k) < 0 \<longleftrightarrow> tag < tag_key infs k"
    using Cons.prems tag_cmp by auto
  have "tag \<notin> tag_key infs ` set ts" if "tag < tag_key infs k"
    using that Cons.prems(3) by auto
  then show ?case using Cons cmp by (auto simp: Let_def)
qed simp

lemma sorted_insert_at:
  fixes f :: "'a \<Rightarrow> 'b::linorder"
  assumes "sorted_wrt (<) (map f ts)" "x \<notin> f ` set ts" "f k = x"
  shows "sorted_wrt (<) (map f (takeWhile (\<lambda>j. f j < x) ts @ k # dropWhile (\<lambda>j. f j < x) ts))"
  using assms
proof (induction ts)
  case (Cons j ts)
  show ?case
  proof (cases "f j < x")
    case True
    then show ?thesis using Cons by (auto dest: set_takeWhileD set_dropWhileD)
  next
    case False
    then have "x < f j" using Cons.prems by auto
    then show ?thesis using Cons.prems by auto
  qed
qed simp

lemma tag_chain_cong:
  "(\<And>t. t \<in> set ts \<Longrightarrow> next_tag (infs ! (t - 1)) = next_tag (infs' ! (t - 1))) \<Longrightarrow>
   tag_chain infs x ts = tag_chain infs' x ts"
  by (induction ts arbitrary: x) auto

lemma set_tag_nums: "t \<in> set (tag_nums infs i) \<longleftrightarrow> 1 \<le> t \<and> t \<le> length infs \<and> node_idx (infs ! (t - 1)) = i"
  by (auto simp: tag_nums_def)

lemma tag_nums_append:
  "tag_nums (infs @ [b]) i = (if node_idx b = i then [Suc (length infs)] else []) @ tag_nums infs i"
proof -
  have "filter (\<lambda>t. node_idx ((infs @ [b]) ! (t - 1)) = i) [1..<Suc (length infs)]
      = filter (\<lambda>t. node_idx (infs ! (t - 1)) = i) [1..<Suc (length infs)]"
    by (rule filter_cong) (auto simp: nth_append)
  then show ?thesis by (simp add: tag_nums_def)
qed


lemma tag_map_dom: "dom (tag_map info) = tag_name ` set (tag_info info)"
  by (force simp: tag_map_def dom_map_of_conv_image_fst)

text \<open>The table with a new block at the end and its number at a place of the index.\<close>

definition tag_added :: "TREE_INFO \<Rightarrow> nat \<Rightarrow> string \<Rightarrow> nat \<Rightarrow> TREE_EDIT option \<Rightarrow> TREE_INFO" where
  "tag_added info slot tag i e =
     (let n = tags (header info)
      in info\<lparr>tag_index := take slot (tag_index info) @ [n] @ drop slot (tag_index info), edit := e,
              tag_info := tag_info info @ [\<lparr>tag_name = tag, node_idx = i, next_tag = tag_link (node info i)\<rparr>],
              node := (node info)(i := (node info i)\<lparr>tag_link := int (n + 1)\<rparr>),
              header := (header info)\<lparr>tags := n + 1\<rparr>\<rparr>)"

lemma add_tag_ok:
  assumes ok: "tags_ok info" and tag: "valid_tag tag" "tag \<notin> tag_name ` set (tag_info info)"
    and i: "i < nodes (header info)"
    and slot: "slot = length (takeWhile (\<lambda>k. tag_key (tag_info info) k < tag) (tag_index info))"
  shows "tags_ok (tag_added info slot tag i e)"
    and "tag_map (tag_added info slot tag i e) = (tag_map info)(tag \<mapsto> i)"
proof -
  let ?is = "tag_info info" and ?ts = "tag_index info" and ?info' = "tag_added info slot tag i e"
  define n where "n = tags (header info)"
  define new where "new = \<lparr>tag_name = tag, node_idx = i, next_tag = tag_link (node info i)\<rparr>"
  have info'_def: "?info' = info\<lparr>tag_index := take slot ?ts @ [n] @ drop slot ?ts, edit := e,
      tag_info := ?is @ [new], node := (node info)(i := (node info i)\<lparr>tag_link := int (n + 1)\<rparr>),
      header := (header info)\<lparr>tags := n + 1\<rparr>\<rparr>"
    by (simp add: tag_added_def n_def new_def Let_def)
  have len: "length ?is = n" "length ?ts = n" "set ?ts = {..<n}" using ok by (simp_all add: tags_ok_def n_def)
  have key: "tag_key (?is @ [new]) k = (if k = n then tag else tag_key ?is k)" if "k \<le> n" for k
    using that len by (auto simp: new_def nth_append)
  have ts: "take slot ?ts @ [n] @ drop slot ?ts =
      takeWhile (\<lambda>k. tag_key (?is @ [new]) k < tag) ?ts @ n # dropWhile (\<lambda>k. tag_key (?is @ [new]) k < tag) ?ts"
  proof -
    have "takeWhile (\<lambda>k. tag_key (?is @ [new]) k < tag) ?ts = takeWhile (\<lambda>k. tag_key ?is k < tag) ?ts"
      "dropWhile (\<lambda>k. tag_key (?is @ [new]) k < tag) ?ts = dropWhile (\<lambda>k. tag_key ?is k < tag) ?ts"
      using key len by (auto intro!: takeWhile_cong dropWhile_cong)
    then show ?thesis by (simp add: slot takeWhile_eq_take [symmetric] dropWhile_eq_drop [symmetric])
  qed
  have same: "map (tag_key (?is @ [new])) ?ts = map (tag_key ?is) ?ts"
    using key len by auto
  have "sorted_wrt (<) (map (tag_key (?is @ [new])) (take slot ?ts @ [n] @ drop slot ?ts))"
    unfolding ts
  proof (rule sorted_insert_at)
    show "sorted_wrt (<) (map (tag_key (?is @ [new])) ?ts)"
      unfolding same using ok by (simp add: tags_ok_def)
    show "tag \<notin> tag_key (?is @ [new]) ` set ?ts"
      using tag(2) len key by (auto simp: image_iff)
    show "tag_key (?is @ [new]) n = tag" using key by simp
  qed
  moreover have "set (take slot ?ts @ [n] @ drop slot ?ts) = {..<n + 1}"
  proof -
    have "set (take slot ?ts) \<union> set (drop slot ?ts) = set ?ts"
      by (metis append_take_drop_id set_append)
    then have "set (take slot ?ts @ [n] @ drop slot ?ts) = insert n {..<n}" using len(3) by auto
    then show ?thesis by (simp only: lessThan_Suc Suc_eq_plus1 [symmetric])
  qed
  moreover have "tag_chain (?is @ [new]) (tag_link (node ?info' j)) (tag_nums (?is @ [new]) j)"
    if j: "j < nodes (header info)" for j
  proof -
    have "tag_chain ?is (tag_link (node info j)) (tag_nums ?is j)" using ok j by (simp add: tags_ok_def)
    moreover have "tag_chain ?is (tag_link (node info j)) (tag_nums ?is j) =
        tag_chain (?is @ [new]) (tag_link (node info j)) (tag_nums ?is j)"
    proof (rule tag_chain_cong)
      fix t assume "t \<in> set (tag_nums ?is j)"
      then have "t - 1 < length ?is" by (auto simp: set_tag_nums)
      then show "next_tag (?is ! (t - 1)) = next_tag ((?is @ [new]) ! (t - 1))" by (simp add: nth_append)
    qed
    ultimately have old: "tag_chain (?is @ [new]) (tag_link (node info j)) (tag_nums ?is j)" by simp
    show ?thesis
    proof (cases "j = i")
      case True
      then show ?thesis using old len by (simp add: new_def tag_nums_append info'_def nth_append)
    next
      case False
      then show ?thesis using old by (simp add: new_def tag_nums_append info'_def)
    qed
  qed
  moreover have "valid_tag (tag_name b) \<and> node_idx b < nodes (header info)" if "b \<in> set (?is @ [new])" for b
    using that ok tag i by (auto simp: tags_ok_def new_def)
  ultimately show "tags_ok ?info'"
    using len unfolding tags_ok_def by (simp add: info'_def)
  have "map_of (map (\<lambda>b. (tag_name b, node_idx b)) ?is) tag = None"
    using tag(2) by (simp add: map_of_eq_None_iff image_image)
  then show "tag_map ?info' = (tag_map info)(tag \<mapsto> i)"
    by (auto simp: tag_map_def info'_def new_def map_add_def split: option.splits)
qed


lemma tag_key_image: "tag_key infs ` {..<length infs} = tag_name ` set infs"
  by (auto simp: set_conv_nth)

text \<open>
  C9: \<open>_TreeAddTag\<close> refines the update of the map from names to nodes. Where memory is found, an
  illegal or known name is refused with the status the code names and nothing changes, any other name
  is entered for the node, and the table stays in order.
\<close>

theorem TreeAddTag_refines:
  assumes "tags_ok (tree_info db)" and "IS_OPEN_FOR_EDIT db"
    and "nid_tree nid = 0" and "nid_node nid < nodes (header (tree_info db))"
  shows "\<exists>status db'. TreeAddTag True True db nid s = Some (status, db') \<and> tags_ok (tree_info db')
    \<and> (if length s < 1 \<or> length s > 24 then status = TreeTAGNAMLEN \<and> db' = db
       else if \<not> legal_tag (length s) (tag_text s) then status = TreeINVTAG \<and> db' = db
       else if tag_text s \<in> dom (tag_map (tree_info db)) then status = TreeDUPTAG \<and> db' = db
       else status = TreeSUCCESS \<and> modified db'
         \<and> tag_map (tree_info db') = (tag_map (tree_info db))(tag_text s \<mapsto> nid_node nid))"
proof -
  let ?info = "tree_info db" and ?tag = "tag_text s"
  define slot where "slot = length (takeWhile (\<lambda>k. tag_key (tag_info ?info) k < ?tag) (tag_index ?info))"
  show ?thesis
  proof (cases "length s < 1 \<or> length s > 24 \<or> \<not> legal_tag (length s) ?tag")
    case True
    then show ?thesis using assms by (auto simp: TreeAddTag_def Let_def)
  next
    case False
    then have v: "valid_tag ?tag" using legal_text [of s] by (simp add: Suc_le_eq)
    have len: "length (tag_info ?info) = tags (header ?info)" "length (tag_index ?info) = tags (header ?info)"
      using assms(1) by (simp_all add: tags_ok_def)
    have slot: "tag_slot (tag_info ?info) ?tag (take (tags (header ?info)) (tag_index ?info)) 0 =
      (if ?tag \<in> dom (tag_map ?info) then Inl TreeDUPTAG else Inr slot)"
    proof -
      have "tag_key (tag_info ?info) ` set (tag_index ?info) = dom (tag_map ?info)"
        using assms(1) len tag_key_image [of "tag_info ?info"] by (simp add: tag_map_dom tags_ok_def)
      moreover have "\<forall>k\<in>set (tag_index ?info). valid_tag (tag_key (tag_info ?info) k)"
        using assms(1) tag_index_less tag_name_nth by blast
      ultimately show ?thesis
        using tag_slot_sorted [OF v, of "tag_index ?info" "tag_info ?info" 0] assms(1) len
        by (simp add: slot_def tags_ok_def)
    qed
    have node: "nid_to_node db nid = Some (0, nid_node nid)"
      using assms by (simp add: nid_to_node_def infos_def)
    show ?thesis
    proof (cases "?tag \<in> dom (tag_map ?info)")
      case True
      then show ?thesis using False assms slot by (auto simp: TreeAddTag_def Let_def)
    next
      case new: False
      then have "?tag \<notin> tag_name ` set (tag_info ?info)" by (simp add: tag_map_dom)
      note ok = add_tag_ok [OF assms(1) v this assms(4) slot_def]
      define n where "n = tags (header ?info)"
      define e where "e = Some ((the (edit ?info))
        \<lparr>tags_pages := (if pages_for (n + 1) 4 > max (pages_for n 4) (tags_pages (the (edit ?info)))
                        then pages_for (n + 1) 4 else tags_pages (the (edit ?info))),
         tag_info_pages :=
           (if pages_for (n + 1) TAG_INFO_SIZE
               > max (pages_for n TAG_INFO_SIZE) (tag_info_pages (the (edit ?info)))
            then pages_for (n + 1) TAG_INFO_SIZE + 31 else tag_info_pages (the (edit ?info)))\<rparr>)"
      have "TreeAddTag True True db nid s =
        Some (TreeSUCCESS, db\<lparr>tree_info := tag_added ?info slot ?tag (nid_node nid) e, modified := True\<rparr>)"
        using False new assms(2) slot node len by (simp add: TreeAddTag_def add_tag_info_def tag_added_def Let_def e_def n_def)
      then show ?thesis using False new ok by auto
    qed
  qed
qed


text \<open>A tree of one node without tags.\<close>

definition one_node :: TREE_INFO where
  "one_node = (zero_info ''MAIN'')\<lparr>header := zero_header\<lparr>nodes := 1\<rparr>, edit := Some zero_edit\<rparr>"

lemma tags_ok_one_node: "tags_ok one_node" "tags_ok (tree_info (edit_slot one_node))" "tag_map one_node = Map.empty"
  by (simp_all add: tags_ok_def one_node_def zero_info_def zero_header_def zero_node_def tag_nums_def
      edit_slot_def tag_map_def)

lemma legal_letters: "legal_tag 5 (tag_text ''alpha'')"
  by (simp add: legal_tag_def tag_text_def letter_def digit_def toupper_def code_def)

lemma TreeAddTag_refines_witness:
  "\<exists>db. (\<exists>db'. TreeAddTag True True db 0 ''alpha'' = Some (TreeSUCCESS, db')
          \<and> tag_map (tree_info db') = [tag_text ''alpha'' \<mapsto> 0])
    \<and> (\<exists>db'. TreeAddTag True True db 0 '''' = Some (TreeTAGNAMLEN, db'))"
proof -
  let ?db = "edit_slot one_node"
  have hyp: "IS_OPEN_FOR_EDIT ?db" "nid_tree 0 = 0" "nid_node 0 < nodes (header (tree_info ?db))"
    by (simp_all add: IS_OPEN_FOR_EDIT_def edit_slot_def nid_tree_def nid_node_def one_node_def)
  have info: "tag_map (tree_info ?db) = Map.empty" "nid_node 0 = 0"
    using tags_ok_one_node(3) by (simp_all add: edit_slot_def nid_node_def)
  have five: "length ''alpha'' = 5" by simp
  have "\<exists>db'. TreeAddTag True True ?db 0 ''alpha'' = Some (TreeSUCCESS, db')
      \<and> tag_map (tree_info db') = [tag_text ''alpha'' \<mapsto> 0]"
    using TreeAddTag_refines [OF tags_ok_one_node(2) hyp, of "''alpha''"]
    unfolding five info by (auto simp: legal_letters)
  moreover have "\<exists>db'. TreeAddTag True True ?db 0 '''' = Some (TreeTAGNAMLEN, db')"
    using TreeAddTag_refines [OF tags_ok_one_node(2) hyp, of "''''"] by auto
  ultimately show ?thesis by blast
qed

section \<open>A tag found\<close>

lemma bsearch_sorted:
  assumes "\<And>k. k \<in> set xs \<Longrightarrow> (cmp k < 0 \<longleftrightarrow> x < f k) \<and> (cmp k = 0 \<longleftrightarrow> x = f k)"
    and "sorted_wrt (<) (map f xs)" "u \<le> length xs"
  shows "bsearch cmp xs l u = Some k \<longleftrightarrow> (\<exists>m. l \<le> m \<and> m < u \<and> xs ! m = k \<and> f k = (x :: 'b :: linorder))"
  using assms
proof (induction cmp xs l u rule: bsearch.induct)
  case (1 cmp xs l u)
  have less: "f (xs ! a) < f (xs ! b)" if "a < b" "b < length xs" for a b
    using 1(4) that by (simp add: sorted_wrt_iff_nth_less)
  show ?case
  proof (cases "l < u")
    case True
    define m where "m = (l + u) div 2"
    have m: "l \<le> m" "m < u" "m < length xs" using True 1(5) by (auto simp: m_def)
    have step: "bsearch cmp xs l u = (if cmp (xs ! m) < 0 then bsearch cmp xs l m
        else if cmp (xs ! m) > 0 then bsearch cmp xs (Suc m) u else Some (xs ! m))"
      using True by (subst bsearch.simps) (simp add: Let_def m_def)
    have c: "cmp (xs ! m) < 0 \<longleftrightarrow> x < f (xs ! m)" "cmp (xs ! m) = 0 \<longleftrightarrow> x = f (xs ! m)"
      using 1(3) [of "xs ! m"] m(3) by simp_all
    consider "x < f (xs ! m)" | "f (xs ! m) < x" | "x = f (xs ! m)" using linorder_less_linear by blast
    then show ?thesis
    proof cases
      case lt: 1
      have "bsearch cmp xs l m = Some k \<longleftrightarrow> (\<exists>j. l \<le> j \<and> j < m \<and> xs ! j = k \<and> f k = x)"
        using "1.IH"(1) [OF True m_def refl] c lt 1(3-5) m by simp
      moreover have "j < m" if "j < u" "f (xs ! j) = x" for j
        using less [of m j] that lt 1(5) by (cases j m rule: linorder_cases) auto
      ultimately show ?thesis using step c lt m by auto
    next
      case gt: 2
      then have pos: "\<not> cmp (xs ! m) < 0" "cmp (xs ! m) > 0" using c by auto
      have right: "bsearch cmp xs (Suc m) u = Some k \<longleftrightarrow> (\<exists>j. Suc m \<le> j \<and> j < u \<and> xs ! j = k \<and> f k = x)"
        using "1.IH"(2) [OF True m_def refl pos] 1(3-5) by simp
      have above: "Suc m \<le> j" if "f (xs ! j) = x" for j
        using less [of j m] that gt m by (cases j m rule: linorder_cases) auto
      have range: "(Suc m \<le> j \<and> j < u \<and> xs ! j = k \<and> f k = x) \<longleftrightarrow> (l \<le> j \<and> j < u \<and> xs ! j = k \<and> f k = x)" for j
        using above [of j] m by auto
      have "bsearch cmp xs (Suc m) u = Some k \<longleftrightarrow> (\<exists>j. l \<le> j \<and> j < u \<and> xs ! j = k \<and> f k = x)"
        by (simp only: right range)
      then show ?thesis using step pos by simp
    next
      case eq: 3
      have only: "j = m" if "j < u" "f (xs ! j) = x" for j
        using less [of j m] less [of m j] that eq m 1(5) by (cases j m rule: linorder_cases) auto
      have "(l \<le> j \<and> j < u \<and> xs ! j = k \<and> f k = x) \<longleftrightarrow> (j = m \<and> xs ! m = k)" for j
        using only [of j] eq m(1,2) by metis
      then show ?thesis using step c eq by simp
    qed
  next
    case False
    then show ?thesis by (subst bsearch.simps) auto
  qed
qed


lemma tag_map_eq:
  assumes "tags_ok info" "k < length (tag_info info)"
  shows "tag_map info (tag_key (tag_info info) k) = Some (node_idx (tag_info info ! k))"
  unfolding tag_map_def
  by (rule map_of_is_SomeI) (use assms tags_ok_distinct(2) [OF assms(1)] in \<open>auto simp: comp_def image_iff\<close>)

lemma search_tags_iff:
  assumes ok: "tags_ok info" and v: "valid_tag tag"
  shows "search_tags info tag = Some k \<longleftrightarrow>
    1 \<le> k \<and> k \<le> tags (header info) \<and> tag_key (tag_info info) (k - 1) = tag"
proof -
  let ?is = "tag_info info" and ?ts = "tag_index info" and ?n = "tags (header info)"
  have len: "length ?is = ?n" "length ?ts = ?n" "set ?ts = {..<?n}" using ok by (simp_all add: tags_ok_def)
  have cmp: "(BsearchCompare ?is tag j < 0 \<longleftrightarrow> tag < tag_key ?is j) \<and> (BsearchCompare ?is tag j = 0 \<longleftrightarrow> tag = tag_key ?is j)"
    if "j \<in> set ?ts" for j
    using tag_cmp [OF v tag_name_nth [OF ok tag_index_less [OF ok that]]] by (simp add: BsearchCompare_def)
  consider "?n = 0" | "?n = Suc 0" | m where "?n = Suc (Suc m)" by (metis nat.exhaust)
  then show ?thesis
  proof cases
    case 2
    then have "?ts ! 0 = 0" using len by (metis lessThan_iff less_Suc0 nth_mem zero_less_Suc)
    moreover have "0 \<in> set ?ts" using len(3) 2 by simp
    ultimately show ?thesis using 2 cmp [of 0] by (auto simp: search_tags_def)
  next
    case 3
    have "bsearch (BsearchCompare ?is tag) ?ts 0 ?n = Some j \<longleftrightarrow> j < ?n \<and> tag_key ?is j = tag" for j
    proof -
      have "(\<exists>m. 0 \<le> m \<and> m < ?n \<and> ?ts ! m = j \<and> tag_key ?is j = tag) \<longleftrightarrow> j \<in> set ?ts \<and> tag_key ?is j = tag"
        using len(2) by (auto simp: in_set_conv_nth)
      then show ?thesis
        using bsearch_sorted [of ?ts "BsearchCompare ?is tag" tag "tag_key ?is" ?n 0 j] cmp ok len
        by (simp add: tags_ok_def)
    qed
    moreover have "search_tags info tag = map_option Suc (bsearch (BsearchCompare ?is tag) ?ts 0 ?n)"
      using 3 by (simp add: search_tags_def)
    ultimately have s: "search_tags info tag = Some k \<longleftrightarrow> (\<exists>j. k = Suc j \<and> j < ?n \<and> tag_key ?is j = tag)"
      by (auto simp: map_option_eq_Some)
    show ?thesis unfolding s by (cases k) (simp_all add: Suc_le_eq)
  qed (simp add: search_tags_def)
qed

lemma search_tags_None:
  assumes ok: "tags_ok info" and v: "valid_tag tag"
  shows "search_tags info tag = None \<longleftrightarrow> tag_map info tag = None"
proof
  assume n: "search_tags info tag = None"
  show "tag_map info tag = None"
  proof (rule ccontr)
    assume "tag_map info tag \<noteq> None"
    then have "tag \<in> tag_name ` set (tag_info info)" using tag_map_dom by blast
    then obtain j where "j < tags (header info)" "tag_key (tag_info info) j = tag"
      using ok by (auto simp: in_set_conv_nth tags_ok_def)
    then have "search_tags info tag = Some (Suc j)" using search_tags_iff [OF ok v, of "Suc j"] by simp
    then show False using n by simp
  qed
next
  assume n: "tag_map info tag = None"
  show "search_tags info tag = None"
  proof (cases "search_tags info tag")
    case (Some k)
    then have "1 \<le> k" "k \<le> length (tag_info info)" "tag_key (tag_info info) (k - 1) = tag"
      using search_tags_iff [OF ok v, of k] ok by (simp_all add: tags_ok_def)
    moreover have "k - 1 < length (tag_info info)" using calculation by linarith
    ultimately show ?thesis using tag_map_eq [OF ok, of "k - 1"] n by simp
  qed
qed

lemma TreeFindTag_found:
  assumes "search_tree tree defnode (infos db) 0 = Some t" and "info = infos db ! t" and "tags_ok info"
    and "CHR 0x00 \<notin> set s" and "tag = tag_text (take 24 s)" and "valid_tag tag"
  shows "if s = ''TOP'' then TreeFindTag wild db defnode tree s = (TreeSUCCESS, Some (t, root info), Some 0)
    else case tag_map info tag of
      Some i \<Rightarrow> \<exists>k. 1 \<le> k \<and> k \<le> tags (header info) \<and> tag_key (tag_info info) (k - 1) = tag
        \<and> TreeFindTag wild db defnode tree s = (TreeSUCCESS, Some (t, i), Some k)
    | None \<Rightarrow> TreeFindTag wild db defnode tree s =
        (case if tree = None then wild (takeWhile (\<lambda>c. c \<noteq> CHR '' '') tag) else None of
           Some nid \<Rightarrow> (TreeSUCCESS, nid_to_node db nid, None) | None \<Rightarrow> (TreeTNF, None, None))"
proof -
  have TOP: "length s = 3 \<and> strncmp s ''TOP'' = 0 \<longleftrightarrow> s = ''TOP''"
    using strncmp_eq [of s "''TOP''"] assms(4) by auto
  have tag: "map toupper (take 24 s) @ replicate (24 - length (take 24 s)) CHR '' '' = tag"
    by (simp add: assms(5) tag_text_def)
  show ?thesis
  proof (cases "tag_map info tag")
    case None
    then show ?thesis
      using assms(1,2) search_tags_None [OF assms(3,6)]
      by (simp only: TreeFindTag_def TOP tag Let_def option.case if_distrib) (simp split: option.split)
  next
    case (Some i)
    then obtain k where k: "search_tags info tag = Some k"
      using search_tags_None [OF assms(3,6)] by (cases "search_tags info tag") auto
    then have kt: "1 \<le> k" "k \<le> tags (header info)" "tag_key (tag_info info) (k - 1) = tag"
      using search_tags_iff [OF assms(3,6), of k] by simp_all
    then have "node_idx (tag_info info ! (k - 1)) = i"
      using tag_map_eq [OF assms(3), of "k - 1"] Some assms(3) by (simp add: tags_ok_def)
    then have "TreeFindTag wild db defnode tree s =
        (if s = ''TOP'' then (TreeSUCCESS, Some (t, root info), Some 0) else (TreeSUCCESS, Some (t, i), Some k))"
      using assms(1,2) k by (simp only: TreeFindTag_def TOP tag Let_def option.case)
    then show ?thesis using Some kt by auto
  qed
qed


text \<open>
  C25: \<open>_TreeFindTag\<close> is the lookup of a name, in upper case, in the map of the tree that is searched:
  the linear table of the code is read by a binary search, a name of one tag by one comparison.
  \<open>TOP\<close> names the root of the tree, and only a name that has no tree before it is searched
  for in all trees when it is not there.
\<close>

theorem TreeFindTag_lookup:
  assumes "search_tree tree defnode (infos db) 0 = Some t" and "info = infos db ! t" and "tags_ok info"
    and "CHR 0x00 \<notin> set s" and "tag = tag_text (take 24 s)" and "valid_tag tag"
  shows "if s = ''TOP'' then TreeFindTag wild db defnode tree s = (TreeSUCCESS, Some (t, root info), Some 0)
    else case tag_map info tag of
      Some i \<Rightarrow> \<exists>k. 1 \<le> k \<and> k \<le> tags (header info) \<and> tag_key (tag_info info) (k - 1) = tag
        \<and> TreeFindTag wild db defnode tree s = (TreeSUCCESS, Some (t, i), Some k)
    | None \<Rightarrow> TreeFindTag wild db defnode tree s =
        (case if tree = None then wild (takeWhile (\<lambda>c. c \<noteq> CHR '' '') tag) else None of
           Some nid \<Rightarrow> (TreeSUCCESS, nid_to_node db nid, None) | None \<Rightarrow> (TreeTNF, None, None))"
  by (rule TreeFindTag_found [OF assms])

text \<open>The tree of one node with a tag.\<close>

definition one_tag :: TREE_INFO where
  "one_tag = tag_added one_node 0 (tag_text ''ALPHA'') 0 None"

lemma valid_alpha: "valid_tag (tag_text ''ALPHA'')"
  by (simp add: valid_tag_def tag_text_def toupper_def code_def)

lemma tags_ok_one_tag:
  "tags_ok one_tag" "tag_map one_tag = [tag_text ''ALPHA'' \<mapsto> 0]" "nodes (header one_tag) = 1" "tags (header one_tag) = 1"
proof -
  have "tag_text ''ALPHA'' \<notin> tag_name ` set (tag_info one_node)" "0 < nodes (header one_node)"
    "0 = length (takeWhile (\<lambda>k. tag_key (tag_info one_node) k < tag_text ''ALPHA'') (tag_index one_node))"
    by (simp_all add: one_node_def zero_info_def)
  then show "tags_ok one_tag" "tag_map one_tag = [tag_text ''ALPHA'' \<mapsto> 0]"
    using add_tag_ok [OF tags_ok_one_node(1) valid_alpha] tags_ok_one_node(3) by (simp_all add: one_tag_def)
qed (simp_all add: one_tag_def tag_added_def one_node_def zero_info_def zero_header_def Let_def)

lemma TreeFindTag_lookup_witness:
  "TreeFindTag (\<lambda>_. None) (edit_slot one_tag) (0, 0) None ''alpha'' = (TreeSUCCESS, Some (0, 0), Some 1)"
proof -
  let ?db = "edit_slot one_tag"
  have same: "tag_text (take 24 ''alpha'') = tag_text ''ALPHA''"
    by code_simp
  have "search_tree None (0, 0) (infos ?db) 0 = Some 0" "infos ?db ! 0 = one_tag"
    by (simp_all add: infos_def edit_slot_def tags_ok_one_tag)
  then have "\<exists>k\<ge>1. k \<le> 1 \<and> TreeFindTag (\<lambda>_. None) ?db (0, 0) None ''alpha'' = (TreeSUCCESS, Some (0, 0), Some k)"
    using TreeFindTag_lookup [of None "(0, 0)" ?db 0 one_tag "''alpha''" "tag_text ''ALPHA''" "\<lambda>_. None"]
      same tags_ok_one_tag valid_alpha by auto
  then show ?thesis by (metis le_antisym)
qed

section \<open>A tag removed\<close>

abbreviation down :: "nat \<Rightarrow> nat \<Rightarrow> nat" where
  "down t x \<equiv> (if x \<ge> t then x - 1 else x)"

lemma tag_nums_props: "distinct (tag_nums infs i)" "\<forall>t\<in>set (tag_nums infs i). 1 \<le> t \<and> t \<le> length infs"
  by (auto simp: tag_nums_def simp del: upt_Suc)

lemma tag_nums_down: "sorted_wrt (>) (tag_nums infs i)"
  by (simp add: tag_nums_def sorted_wrt_rev sorted_wrt_filter del: upt_Suc)

lemma find_pred_chain:
  assumes "tag_chain infs (int a) (a # xs @ t # ys)" "distinct (a # xs @ t # ys)" "0 \<notin> set (a # xs @ t # ys)"
  shows "\<exists>p. find_pred infs (int t) (a - 1) = Some p \<and> next_tag (infs ! p) = int t \<and> Suc p = last (a # xs)"
  using assms
proof (induction xs arbitrary: a)
  case Nil
  then show ?case by (subst find_pred.simps) simp
next
  case (Cons b xs)
  have b: "b \<noteq> t" "0 < b" using Cons.prems by (auto intro: gr0I)
  have next_b: "next_tag (infs ! (a - 1)) = int b" using Cons.prems(1) by simp
  then have "find_pred infs (int t) (a - 1) = find_pred infs (int t) (b - 1)"
    using b by (subst find_pred.simps) simp
  moreover have "\<exists>p. find_pred infs (int t) (b - 1) = Some p \<and> next_tag (infs ! p) = int t \<and> Suc p = last (b # xs)"
    by (rule Cons.IH) (use Cons.prems next_b in auto)
  ultimately show ?case by simp
qed


lemma tag_chain_append:
  "tag_chain infs x (as @ t # bs) \<Longrightarrow> tag_chain infs (next_tag (infs ! (t - 1))) bs"
  by (induction as arbitrary: x) auto

lemma tag_chain_skip:
  assumes "tag_chain infs x (as @ t # bs)" "as \<noteq> []" "distinct (as @ t # bs)" "0 \<notin> set (as @ bs)"
    and "Suc p = last as" "p < length infs"
  shows "tag_chain (infs[p := (infs ! p)\<lparr>next_tag := next_tag (infs ! (t - 1))\<rparr>]) x (as @ bs)"
  using assms
proof (induction as arbitrary: x)
  case (Cons a as)
  let ?is = "infs[p := (infs ! p)\<lparr>next_tag := next_tag (infs ! (t - 1))\<rparr>]"
  show ?case
  proof (cases "as = []")
    case True
    have "tag_chain infs (next_tag (infs ! (t - 1))) bs = tag_chain ?is (next_tag (infs ! (t - 1))) bs"
    proof (rule tag_chain_cong)
      fix s assume "s \<in> set bs"
      then have "s \<noteq> Suc p" using Cons.prems(3,5) True by auto
      moreover have "s \<noteq> 0"
      proof
        assume "s = 0"
        then show False using \<open>s \<in> set bs\<close> Cons.prems(4) by simp
      qed
      ultimately show "next_tag (infs ! (s - 1)) = next_tag (?is ! (s - 1))" by simp
    qed
    then show ?thesis using Cons.prems True by (auto simp flip: Cons.prems(5))
  next
    case False
    have "a \<noteq> Suc p" "a \<noteq> 0" using Cons.prems False by auto
    then have "?is ! (a - 1) = infs ! (a - 1)" by simp
    moreover have "tag_chain ?is (next_tag (infs ! (a - 1))) (as @ bs)"
      by (rule Cons.IH) (use Cons.prems False in auto)
    ultimately show ?thesis using Cons.prems by simp
  qed
qed simp

lemma unlink_tag_ok:
  assumes ok: "tags_ok info" and t: "1 \<le> t" "t \<le> tags (header info)"
  shows "\<exists>info'. unlink_tag info t = Some info' \<and> header info' = header info \<and> tag_index info' = tag_index info
    \<and> map tag_name (tag_info info') = map tag_name (tag_info info)
    \<and> map node_idx (tag_info info') = map node_idx (tag_info info)
    \<and> (\<forall>j<nodes (header info). tag_chain (tag_info info') (tag_link (node info' j))
                                  (filter (\<lambda>s. s \<noteq> t) (tag_nums (tag_info info) j)))"
proof -
  let ?is = "tag_info info" and ?ns = "\<lambda>j. tag_nums (tag_info info) j"
  define i where "i = node_idx (?is ! (t - 1))"
  have bi: "node_idx (?is ! (t - Suc 0)) = i" by (simp add: i_def)
  have len: "length ?is = tags (header info)" using ok by (simp add: tags_ok_def)
  have chain: "tag_chain ?is (tag_link (node info j)) (?ns j)" if "j < nodes (header info)" for j
    using ok that by (simp add: tags_ok_def)
  have "t - 1 < length ?is" using t len by linarith
  then have i: "i < nodes (header info)" using ok by (simp add: i_def tags_ok_def)
  have others: "filter (\<lambda>s. s \<noteq> t) (?ns j) = ?ns j" if "j \<noteq> i" for j
    using that by (auto simp: filter_id_conv set_tag_nums i_def)
  have "t \<in> set (?ns i)" using t len by (simp add: set_tag_nums i_def)
  then obtain as bs where xs: "?ns i = as @ t # bs" by (meson split_list)
  have d: "distinct (as @ t # bs)" "0 \<notin> set (as @ bs)"
    using tag_nums_props [of ?is i] by (auto simp: xs)
  have f: "filter (\<lambda>s. s \<noteq> t) (?ns i) = as @ bs"
  proof -
    have "filter (\<lambda>s. s \<noteq> t) as = as" "filter (\<lambda>s. s \<noteq> t) bs = bs"
      using d by (auto intro!: filter_True)
    then show ?thesis by (simp add: xs)
  qed
  have c: "tag_chain ?is (tag_link (node info i)) (as @ t # bs)" using chain [OF i] xs by simp
  show ?thesis
  proof (cases as)
    case Nil
    then have "unlink_tag info t =
        Some (info\<lparr>node := (node info)(i := (node info i)\<lparr>tag_link := next_tag (?is ! (t - 1))\<rparr>)\<rparr>)"
      using c by (simp add: unlink_tag_def i_def Let_def)
    then show ?thesis
      using c f Nil chain others by (auto simp: fun_upd_def)
  next
    case (Cons a as')
    have link: "tag_link (node info i) = int a" "a \<noteq> t" "0 < a" using c d Cons by auto
    obtain p where p: "find_pred ?is (int t) (a - 1) = Some p" "next_tag (?is ! p) = int t" "Suc p = last as"
      using find_pred_chain [of ?is a as' t bs] c d t Cons link by auto
    have "Suc p \<in> set (?ns i)" using p(3) Cons xs by (metis UnCI last_in_set list.discI set_append)
    then have pi: "p < length ?is" "node_idx (?is ! p) = i" by (simp_all add: set_tag_nums)
    let ?is' = "?is[p := (?is ! p)\<lparr>next_tag := next_tag (?is ! (t - 1))\<rparr>]"
    have u: "unlink_tag info t = Some (info\<lparr>tag_info := ?is'\<rparr>)"
      using link p bi by (simp add: unlink_tag_def Let_def)
    have "tag_chain ?is' (tag_link (node info j)) (filter (\<lambda>s. s \<noteq> t) (?ns j))" if j: "j < nodes (header info)" for j
    proof (cases "j = i")
      case True
      then show ?thesis
        using tag_chain_skip [OF c _ d p(3) pi(1)] f Cons by simp
    next
      case False
      have "tag_chain ?is (tag_link (node info j)) (?ns j) = tag_chain ?is' (tag_link (node info j)) (?ns j)"
      proof (rule tag_chain_cong)
        fix s assume "s \<in> set (?ns j)"
        then have "s - 1 \<noteq> p" using False pi by (auto simp: set_tag_nums)
        then show "next_tag (?is ! (s - 1)) = next_tag (?is' ! (s - 1))" by simp
      qed
      then show ?thesis using chain [OF j] others [OF False] by simp
    qed
    moreover have "map tag_name ?is' = map tag_name ?is" "map node_idx ?is' = map node_idx ?is"
      using pi(1) by (simp_all add: map_update list_update_same_conv)
    ultimately show ?thesis using u by simp
  qed
qed


abbreviation del_at :: "nat \<Rightarrow> 'a list \<Rightarrow> 'a list" where
  "del_at k xs \<equiv> take k xs @ drop (Suc k) xs"

lemma del_at_nth: "k < length xs \<Longrightarrow> x < length xs \<Longrightarrow> x \<noteq> k \<Longrightarrow> del_at k xs ! (if x > k then x - 1 else x) = xs ! x"
  by (auto simp: nth_append min_def)

lemma del_at_set:
  assumes "distinct xs" "k < length xs"
  shows "set (del_at k xs) = set xs - {xs ! k}"
proof -
  have x: "xs = take k xs @ xs ! k # drop (Suc k) xs" using assms(2) by (rule id_take_nth_drop)
  then have "distinct (take k xs @ xs ! k # drop (Suc k) xs)" using assms(1) by simp
  moreover have "set xs = set (take k xs) \<union> {xs ! k} \<union> set (drop (Suc k) xs)" by (subst x) auto
  ultimately show ?thesis by auto
qed

lemma del_at_map_of:
  assumes "distinct (map fst xs)" "k < length xs"
  shows "map_of (del_at k xs) = (map_of xs)(fst (xs ! k) := None)"
proof -
  obtain key v where kv: "xs ! k = (key, v)" by fastforce
  have x: "xs = take k xs @ (key, v) # drop (Suc k) xs" using id_take_nth_drop [OF assms(2)] kv by simp
  have "distinct (map fst (take k xs @ (key, v) # drop (Suc k) xs))" using assms(1) x by metis
  then have n: "map_of (take k xs) key = None" "map_of (drop (Suc k) xs) key = None"
    by (auto simp: map_of_eq_None_iff)
  show ?thesis
  proof
    fix a
    have "map_of xs a = map_of (take k xs @ (key, v) # drop (Suc k) xs) a" using x by metis
    then show "map_of (del_at k xs) a = ((map_of xs)(fst (xs ! k) := None)) a"
      using n kv by (auto simp: map_add_def split: option.splits)
  qed
qed

lemma position_absent: "k \<notin> set xs \<Longrightarrow> position k xs i found = found"
  by (induction xs arbitrary: i) auto

lemma position_nth: "distinct xs \<Longrightarrow> p < length xs \<Longrightarrow> position (xs ! p) xs i found = Some (i + p)"
proof (induction xs arbitrary: p i found)
  case (Cons x xs)
  then show ?case by (cases p) (auto simp: position_absent)
qed simp

lemma down_upt:
  assumes "1 \<le> t" "t \<le> n"
  shows "map (down t) (filter (\<lambda>s. s \<noteq> t) [1..<Suc n]) = [1..<n]"
proof -
  have "[1..<Suc n] = [1..<t] @ t # [Suc t..<Suc n]"
    using assms upt_add_eq_append [of 1 t "Suc n - t"] by (simp add: upt_conv_Cons)
  moreover have "map (down t) [1..<t] = [1..<t]" by (rule map_idI) simp
  moreover have "map (down t) (map Suc [t..<n]) = [t..<n]"
    unfolding map_map by (rule map_idI) simp
  moreover have "filter (\<lambda>s. s \<noteq> t) [1..<t] = [1..<t]" "filter (\<lambda>s. s \<noteq> t) [Suc t..<Suc n] = [Suc t..<Suc n]"
    by (auto simp: filter_id_conv)
  moreover have "[1..<n] = [1..<t] @ [t..<n]"
    using assms upt_add_eq_append [of 1 t "n - t"] by simp
  ultimately show ?thesis by (simp del: upt_Suc add: map_Suc_upt)
qed

lemma tag_nums_del:
  assumes "1 \<le> t" "t \<le> length infs" and "map node_idx infs2 = map node_idx infs"
  shows "tag_nums (del_at (t - 1) infs2) j = map (down t) (filter (\<lambda>s. s \<noteq> t) (tag_nums infs j))"
proof -
  let ?n = "length infs" and ?is = "del_at (t - 1) infs2"
  have len: "length infs2 = ?n" using assms(3) map_eq_imp_length_eq by blast
  then have n: "Suc (length ?is) = ?n" using assms by simp
  have same: "node_idx (?is ! (down t s - 1)) = node_idx (infs ! (s - 1))" if "s \<noteq> t" "1 \<le> s" "s \<le> ?n" for s
  proof -
    have "down t s - 1 = (if s - 1 > t - 1 then s - 1 - 1 else s - 1)" using that assms by auto
    then have "?is ! (down t s - 1) = infs2 ! (s - 1)"
      using del_at_nth [of "t - 1" infs2 "s - 1"] that assms len by simp
    also have "node_idx \<dots> = node_idx (infs ! (s - 1))"
      using assms(3) len that by (metis (no_types, lifting) One_nat_def Suc_le_lessD Suc_pred le_trans less_imp_diff_less nth_map not_less_eq_eq)
    finally show ?thesis .
  qed
  have "filter (\<lambda>s. node_idx (?is ! (s - 1)) = j) [1..<?n]
      = map (down t) (filter (\<lambda>s. node_idx (?is ! (down t s - 1)) = j) (filter (\<lambda>s. s \<noteq> t) [1..<Suc ?n]))"
    using down_upt [OF assms(1,2)] by (simp only: filter_map comp_def flip: down_upt [OF assms(1,2)])
  also have "filter (\<lambda>s. node_idx (?is ! (down t s - 1)) = j) (filter (\<lambda>s. s \<noteq> t) [1..<Suc ?n])
      = filter (\<lambda>s. node_idx (infs ! (s - 1)) = j) (filter (\<lambda>s. s \<noteq> t) [1..<Suc ?n])"
    by (rule filter_cong) (use same in \<open>auto simp del: upt_Suc\<close>)
  finally have f: "filter (\<lambda>s. node_idx (?is ! (s - 1)) = j) [1..<?n]
      = map (down t) (filter (\<lambda>s. node_idx (infs ! (s - 1)) = j) (filter (\<lambda>s. s \<noteq> t) [1..<Suc ?n]))" .
  show ?thesis
    unfolding tag_nums_def n f rev_map rev_filter [symmetric] filter_filter by (simp only: conj_commute)
qed


lemma tag_chain_down:
  assumes "tag_chain infs x xs" "1 \<le> t" "t \<notin> set xs"
    and "\<And>s. s \<in> set xs \<Longrightarrow> next_tag (infs' ! (down t s - 1)) = dec (int t) (next_tag (infs ! (s - 1)))"
  shows "tag_chain infs' (dec (int t) x) (map (down t) xs)"
  using assms
proof (induction xs arbitrary: x)
  case Nil
  then show ?case by (simp add: dec_def)
next
  case (Cons s xs)
  have "tag_chain infs' (dec (int t) (next_tag (infs ! (s - 1)))) (map (down t) xs)"
    by (rule Cons.IH) (use Cons.prems in auto)
  moreover have "dec (int t) (int s) = int (down t s)"
    using Cons.prems(2,3) by (auto simp: dec_def)
  ultimately show ?case using Cons.prems by simp
qed

lemma down_image:
  assumes "1 \<le> t" "t \<le> n"
  shows "down t ` ({..<n} - {t - 1}) = {..<n - 1}"
proof
  show "{..<n - 1} \<subseteq> down t ` ({..<n} - {t - 1})"
  proof
    fix y assume "y \<in> {..<n - 1}"
    then have "y = down t (if y < t - 1 then y else Suc y)" "(if y < t - 1 then y else Suc y) \<in> {..<n} - {t - 1}"
      using assms by auto
    then show "y \<in> down t ` ({..<n} - {t - 1})" by blast
  qed
qed (use assms in auto)

lemma del_at_sorted: "sorted_wrt P xs \<Longrightarrow> sorted_wrt P (del_at p xs)"
proof (cases "p < length xs")
  case True
  assume "sorted_wrt P xs"
  then have "sorted_wrt P (take p xs @ xs ! p # drop (Suc p) xs)"
    using id_take_nth_drop [OF True] by simp
  then show ?thesis by (simp add: sorted_wrt_append)
qed simp

lemma map_pairs: "map (\<lambda>b. (tag_name b, node_idx b)) infs = zip (map tag_name infs) (map node_idx infs)"
  by (simp add: zip_map_map zip_same_conv_map)

lemma RemoveTagIdx_ok:
  assumes ok: "tags_ok info" and t: "1 \<le> t" "t \<le> tags (header info)"
  shows "\<exists>info'. RemoveTagIdx info t = Some info' \<and> tags_ok info'
    \<and> tag_map info' = (tag_map info)(tag_key (tag_info info) (t - 1) := None)
    \<and> tags (header info') = tags (header info) - 1 \<and> nodes (header info') = nodes (header info)
    \<and> (\<forall>j. tag_nums (tag_info info') j = map (down t) (filter (\<lambda>s. s \<noteq> t) (tag_nums (tag_info info) j)))"
proof -
  let ?is = "tag_info info" and ?ts = "tag_index info" and ?n = "tags (header info)"
  obtain info1 where u: "unlink_tag info t = Some info1" "header info1 = header info" "tag_index info1 = ?ts"
    "map tag_name (tag_info info1) = map tag_name ?is" "map node_idx (tag_info info1) = map node_idx ?is"
    and chain: "\<And>j. j < nodes (header info) \<Longrightarrow>
      tag_chain (tag_info info1) (tag_link (node info1 j)) (filter (\<lambda>s. s \<noteq> t) (tag_nums ?is j))"
    using unlink_tag_ok [OF ok t] by auto
  define infs2 where "infs2 = map (\<lambda>b. b\<lparr>next_tag := dec (int t) (next_tag b)\<rparr>) (tag_info info1)"
  have n2: "map tag_name infs2 = map tag_name ?is" "map node_idx infs2 = map node_idx ?is"
    using u(4,5) by (simp_all add: infs2_def comp_def)
  have len: "length ?is = ?n" "length ?ts = ?n" "set ?ts = {..<?n}" using ok by (simp_all add: tags_ok_def)
  have len2: "length infs2 = ?n" "length (tag_info info1) = ?n"
    using len map_eq_imp_length_eq [OF n2(1)] by (simp_all add: infs2_def)
  have "t - 1 \<in> set ?ts" using len(3) t by auto
  then obtain p where p: "p < ?n" "?ts ! p = t - 1" using len(2) by (metis in_set_conv_nth)
  have pos: "position (t - 1) ?ts 0 None = Some p"
    using position_nth [OF tags_ok_distinct(1) [OF ok], of p 0 None] p len by simp
  let ?is' = "del_at (t - 1) infs2" and ?ts' = "map (down t) (del_at p ?ts)"
  define info' where "info' = info1\<lparr>tag_info := ?is', tag_index := ?ts',
    node := (\<lambda>j. if j < nodes (header info)
             then (node info1 j)\<lparr>tag_link := dec (int t) (tag_link (node info1 j))\<rparr> else node info1 j),
    header := (header info)\<lparr>tags := ?n - 1\<rparr>\<rparr>"
  have run: "RemoveTagIdx info t = Some info'"
    using u t pos by (simp add: RemoveTagIdx_def renumber_tags_def Let_def info'_def infs2_def take_map drop_map)
  have key: "?is' ! down t x = infs2 ! x" "tag_key infs2 x = tag_key ?is x" if "x < ?n" "x \<noteq> t - 1" for x
  proof -
    have "down t x = (if x > t - 1 then x - 1 else x)" using that t by auto
    then show "?is' ! down t x = infs2 ! x" using del_at_nth [of "t - 1" infs2 x] that t len2 by simp
    show "tag_key infs2 x = tag_key ?is x" using n2(1) len len2 that by (metis nth_map)
  qed
  have nums: "tag_nums ?is' j = map (down t) (filter (\<lambda>s. s \<noteq> t) (tag_nums ?is j))" for j
    using tag_nums_del [OF t(1) _ n2(2)] t(2) len by simp
  have rest: "set (del_at p ?ts) = {..<?n} - {t - 1}"
    using del_at_set [OF tags_ok_distinct(1) [OF ok], of p] p len by simp
  have "set ?ts' = {..<?n - 1}"
    using down_image [OF t] rest by (simp only: set_map)
  moreover have "sorted_wrt (<) (map (tag_key ?is') ?ts')"
  proof -
    have "map (tag_key ?is') ?ts' = map (tag_key ?is) (del_at p ?ts)"
      unfolding map_map comp_def
    proof (rule map_cong [OF refl])
      fix x assume "x \<in> set (del_at p ?ts)"
      then have "x < ?n" "x \<noteq> t - 1" using rest by blast+
      with key [of x] show "tag_key ?is' (down t x) = tag_key ?is x" by metis
    qed
    moreover have "sorted_wrt (<) (map (tag_key ?is) (del_at p ?ts))"
      using del_at_sorted [of "(<)" "map (tag_key ?is) ?ts" p] ok by (simp add: tags_ok_def take_map drop_map)
    ultimately show ?thesis by (simp only:)
  qed
  moreover have "tag_chain ?is' (tag_link (node info' j)) (tag_nums ?is' j)" if j: "j < nodes (header info)" for j
  proof -
    have "next_tag (?is' ! (down t s - 1)) = dec (int t) (next_tag (tag_info info1 ! (s - 1)))"
      if s: "s \<in> set (filter (\<lambda>s. s \<noteq> t) (tag_nums ?is j))" for s
    proof -
      have s: "s \<noteq> t" "1 \<le> s" "s \<le> ?n" using s len by (auto simp: set_tag_nums)
      then have "s - 1 < ?n" "s - 1 \<noteq> t - 1" "down t s - 1 = down t (s - 1)" using t by auto
      then show ?thesis using key(1) [of "s - 1"] len2 by (simp add: infs2_def)
    qed
    then have "tag_chain ?is' (dec (int t) (tag_link (node info1 j))) (map (down t) (filter (\<lambda>s. s \<noteq> t) (tag_nums ?is j)))"
      by (intro tag_chain_down [OF chain [OF j] t(1)]) simp_all
    then show ?thesis unfolding nums using j by (simp add: info'_def)
  qed
  moreover have "valid_tag (tag_name b) \<and> node_idx b < nodes (header info)" if b: "b \<in> set ?is'" for b
  proof -
    have "b \<in> set infs2" using b by (auto dest: in_set_takeD in_set_dropD)
    then obtain k where k: "k < ?n" "b = infs2 ! k" using len2 by (auto simp: in_set_conv_nth)
    then have "tag_name b = tag_name (?is ! k)" "node_idx b = node_idx (?is ! k)"
      using n2 len len2 by (metis nth_map)+
    then show ?thesis using ok k len by (simp add: tags_ok_def)
  qed
  moreover have "length ?is' = ?n - 1" "length ?ts' = ?n - 1" using len len2 t p by auto
  ultimately have "tags_ok info'"
    unfolding tags_ok_def by (simp add: info'_def)
  moreover have "tag_map info' = (tag_map info)(tag_key ?is (t - 1) := None)"
  proof -
    let ?pair = "\<lambda>b. (tag_name b, node_idx b)"
    have "map ?pair infs2 = map ?pair ?is" by (simp only: map_pairs n2)
    then have "map ?pair ?is' = del_at (t - 1) (map ?pair ?is)"
      by (simp only: map_append take_map [symmetric] drop_map [symmetric])
    then have "tag_map info' = map_of (del_at (t - 1) (map ?pair ?is))" by (simp add: tag_map_def info'_def)
    also have "\<dots> = (map_of (map ?pair ?is))(fst (map ?pair ?is ! (t - 1)) := None)"
      by (rule del_at_map_of) (use tags_ok_distinct(2) [OF ok] t len in \<open>auto simp: comp_def\<close>)
    finally show ?thesis using t len by (simp add: tag_map_def)
  qed
  ultimately show ?thesis
    using run nums by (intro exI [of _ info']) (simp add: info'_def)
qed


lemma strncmp_same: "strncmp s s = 0"
  by (induction s) auto

text \<open>
  C14: \<open>_TreeRemoveTag\<close> deletes the name from the map from names to nodes and keeps the order of the
  table and the chains of the remaining tags, although all later tags are renumbered; an unknown
  name changes nothing. The name \<open>TOP\<close>, which is found as tag number 0, leads the code in front of
  the first block.
\<close>

theorem TreeRemoveTag_deletes:
  assumes "IS_OPEN_FOR_EDIT db" and "tags_ok (tree_info db)" and "CHR 0x00 \<notin> set s"
    and "tag = tag_text (take 24 s)" and "valid_tag tag"
  shows "(s = ''TOP'' \<and> 0 < tags (header (tree_info db)) \<longrightarrow> TreeRemoveTag db s = None)
    \<and> (s \<noteq> ''TOP'' \<longrightarrow>
        (\<exists>db'. TreeRemoveTag db s = Some (if tag \<in> dom (tag_map (tree_info db)) then TreeSUCCESS else TreeTNF, db')
           \<and> tags_ok (tree_info db') \<and> tag_map (tree_info db') = (tag_map (tree_info db))(tag := None)
           \<and> (tag \<notin> dom (tag_map (tree_info db)) \<longrightarrow> db' = db)))"
proof -
  let ?info = "tree_info db" and ?find = "TreeFindTag (\<lambda>_. None) db (0, 0) (Some (treenam (tree_info db))) s"
  have "search_tree (Some (treenam ?info)) (0, 0) (infos db) 0 = Some 0" "?info = infos db ! 0"
    by (simp_all add: infos_def strncmp_same)
  note find = TreeFindTag_found [OF this assms(2-5), of "\<lambda>_. None"]
  have TOP: "TreeRemoveTag db s = None" if "s = ''TOP''" "0 < tags (header ?info)"
    using find assms(1) that by (simp add: TreeRemoveTag_def RemoveTagIdx_def)
  have other: "\<exists>db'. TreeRemoveTag db s = Some (if tag \<in> dom (tag_map ?info) then TreeSUCCESS else TreeTNF, db')
           \<and> tags_ok (tree_info db') \<and> tag_map (tree_info db') = (tag_map ?info)(tag := None)
           \<and> (tag \<notin> dom (tag_map ?info) \<longrightarrow> db' = db)" if top: "s \<noteq> ''TOP''"
  proof (cases "tag_map ?info tag")
    case None
    then have "TreeRemoveTag db s = Some (TreeTNF, db)"
      using find assms(1) top by (simp add: TreeRemoveTag_def)
    then show ?thesis using None assms(2) by auto
  next
    case (Some i)
    then obtain k where k: "1 \<le> k" "k \<le> tags (header ?info)" "tag_key (tag_info ?info) (k - 1) = tag"
      "?find = (TreeSUCCESS, Some (0, i), Some k)"
      using find top by auto
    obtain info' where "RemoveTagIdx ?info k = Some info'" "tags_ok info'"
      "tag_map info' = (tag_map ?info)(tag := None)"
      using RemoveTagIdx_ok [OF assms(2) k(1,2)] k(3) by auto
    then show ?thesis using k assms(1) Some by (simp add: TreeRemoveTag_def domIff)
  qed
  show ?thesis
    using TOP by (intro conjI impI other) simp
qed

lemma TreeRemoveTag_deletes_witness:
  "\<exists>db'. TreeRemoveTag (edit_slot one_tag) ''alpha'' = Some (TreeSUCCESS, db')
     \<and> tag_map (tree_info db') = Map.empty"
proof -
  have hyp: "IS_OPEN_FOR_EDIT (edit_slot one_tag)" "tags_ok (tree_info (edit_slot one_tag))"
    "tag_map (tree_info (edit_slot one_tag)) = [tag_text ''ALPHA'' \<mapsto> 0]"
    using tags_ok_one_tag by (simp_all add: IS_OPEN_FOR_EDIT_def edit_slot_def)
  have same: "tag_text (take 24 ''alpha'') = tag_text ''ALPHA''" by code_simp
  show ?thesis
    using TreeRemoveTag_deletes [OF hyp(1,2), of "''alpha''" "tag_text ''ALPHA''"] same valid_alpha
    by (auto simp: hyp(3))
qed

lemma tag_chain_head: "tag_chain infs x xs \<Longrightarrow> tag_chain infs' y xs \<Longrightarrow> x = y"
  by (cases xs) auto

lemma tag_map_node:
  assumes "tag_map info s = Some i" shows "tag_nums (tag_info info) i \<noteq> []"
proof -
  obtain b where "b \<in> set (tag_info info)" "node_idx b = i"
    using map_of_SomeD [OF assms [unfolded tag_map_def]] by auto
  then obtain k where "k < length (tag_info info)" "node_idx (tag_info info ! k) = i" by (auto simp: in_set_conv_nth)
  then have "Suc k \<in> set (tag_nums (tag_info info) i)" by (simp add: set_tag_nums)
  then show ?thesis by auto
qed

lemma remove_tags_ok:
  assumes "tags_ok info" "i < nodes (header info)" "tag_nums (tag_info info) i = xs"
  shows "\<exists>info'. remove_tags info (tag_link (node info i)) = Some info' \<and> tags_ok info'
    \<and> tag_map info' = (\<lambda>s. if tag_map info s = Some i then None else tag_map info s)
    \<and> tags (header info') = tags (header info) - length xs"
  using assms
proof (induction xs arbitrary: info)
  case Nil
  then have "tag_link (node info i) = 0" by (auto simp: tags_ok_def)
  moreover have "tag_map info s \<noteq> Some i" for s using Nil(3) tag_map_node by blast
  ultimately show ?case using Nil(1) by (subst remove_tags.simps) simp
next
  case (Cons t ys)
  let ?is = "tag_info info"
  have chain: "tag_chain ?is (tag_link (node info i)) (t # ys)"
    using Cons.prems by (auto simp: tags_ok_def)
  have "t \<in> set (tag_nums ?is i)" using Cons.prems(3) by simp
  then have t: "1 \<le> t" "t \<le> tags (header info)" "node_idx (?is ! (t - 1)) = i"
    using Cons.prems(1) by (simp_all add: set_tag_nums tags_ok_def)
  obtain info1 where r: "RemoveTagIdx info t = Some info1" "tags_ok info1"
    "tag_map info1 = (tag_map info)(tag_key ?is (t - 1) := None)"
    "tags (header info1) = tags (header info) - 1" "nodes (header info1) = nodes (header info)"
    "tag_nums (tag_info info1) i = map (down t) (filter (\<lambda>s. s \<noteq> t) (tag_nums ?is i))"
    using RemoveTagIdx_ok [OF Cons.prems(1) t(1,2)] by auto
  have less: "\<forall>s\<in>set ys. s < t" using tag_nums_down [of ?is i] Cons.prems(3) by auto
  then have "filter (\<lambda>s. s \<noteq> t) (t # ys) = ys" by (auto intro!: filter_True)
  moreover have "map (down t) ys = ys" using less by (intro map_idI) auto
  ultimately have ys: "tag_nums (tag_info info1) i = ys" using r(6) Cons.prems(3) by simp
  have "tag_chain (tag_info info1) (tag_link (node info1 i)) ys"
    using r(2,5) Cons.prems(2) ys by (auto simp: tags_ok_def)
  then have link: "next_tag (?is ! (t - 1)) = tag_link (node info1 i)"
    using tag_chain_head chain by fastforce
  obtain info' where i: "remove_tags info1 (tag_link (node info1 i)) = Some info'" "tags_ok info'"
    "tag_map info' = (\<lambda>s. if tag_map info1 s = Some i then None else tag_map info1 s)"
    "tags (header info') = tags (header info1) - length ys"
    using Cons.IH [OF r(2) _ ys] r(5) Cons.prems(2) by auto
  have "remove_tags info (tag_link (node info i)) = Some info'"
    using chain t(1) r(1) i(1) link by (subst remove_tags.simps) simp
  moreover have "tag_map info (tag_key ?is (t - 1)) = Some i"
    using tag_map_eq [OF Cons.prems(1), of "t - 1"] t Cons.prems(1) by (simp add: tags_ok_def)
  then have "tag_map info' = (\<lambda>s. if tag_map info s = Some i then None else tag_map info s)"
    by (auto simp: i(3) r(3))
  ultimately show ?case using i r(4) by simp
qed


text \<open>
  C22: \<open>_TreeRemoveNodesTags\<close> ends and removes exactly the tags of the node. Its loop reads the number of
  the next tag before it removes one, and goes on with it afterwards: the number is still right because the
  tags of a node are linked from the newest to the oldest, so the removal renumbers later tags only.
\<close>

theorem TreeRemoveNodesTags_exact:
  assumes "IS_OPEN_FOR_EDIT db" and "tags_ok (tree_info db)"
    and "nid_tree nid = 0" and "nid_node nid < nodes (header (tree_info db))"
  shows "\<exists>db'. TreeRemoveNodesTags db nid = Some (TreeSUCCESS, db') \<and> tags_ok (tree_info db')
    \<and> tag_map (tree_info db') =
        (\<lambda>s. if tag_map (tree_info db) s = Some (nid_node nid) then None else tag_map (tree_info db) s)
    \<and> tags (header (tree_info db')) =
        tags (header (tree_info db)) - length (tag_nums (tag_info (tree_info db)) (nid_node nid))"
proof -
  have "nid_to_node db nid = Some (0, nid_node nid)"
    using assms(3,4) by (simp add: nid_to_node_def infos_def)
  then show ?thesis
    using remove_tags_ok [OF assms(2,4) refl] assms(1) by (auto simp: TreeRemoveNodesTags_def)
qed

lemma TreeRemoveNodesTags_exact_witness:
  "\<exists>db'. TreeRemoveNodesTags (edit_slot one_tag) 0 = Some (TreeSUCCESS, db')
     \<and> tag_map (tree_info db') = Map.empty"
proof -
  have hyp: "IS_OPEN_FOR_EDIT (edit_slot one_tag)" "tags_ok (tree_info (edit_slot one_tag))"
    "tag_map (tree_info (edit_slot one_tag)) = [tag_text ''ALPHA'' \<mapsto> 0]" "nid_tree 0 = 0" "nid_node 0 = 0"
    "nid_node 0 < nodes (header (tree_info (edit_slot one_tag)))"
    using tags_ok_one_tag by (simp_all add: IS_OPEN_FOR_EDIT_def edit_slot_def nid_tree_def nid_node_def)
  show ?thesis
    using TreeRemoveNodesTags_exact [OF hyp(1,2,4,6)] unfolding hyp(3,5) by (auto simp: fun_eq_iff)
qed

section \<open>The tags of a node, one after the other\<close>

text \<open>The calls a caller makes until there are no more tags, at most \<open>n\<close> of them, and the context after.\<close>

fun tag_calls :: "nat \<Rightarrow> PINO_DATABASE \<Rightarrow> u32 \<Rightarrow> int \<Rightarrow> (string list \<times> int) option" where
  "tag_calls 0 db nid ctx = None"
| "tag_calls (Suc n) db nid ctx =
     (case TreeFindNodeTags db nid ctx of
        None \<Rightarrow> None
      | Some (None, ctx') \<Rightarrow> Some ([], ctx')
      | Some (Some nm, ctx') \<Rightarrow> map_option (\<lambda>(nms, c). (nm # nms, c)) (tag_calls n db nid ctx'))"

definition shown :: "string \<Rightarrow> string" where
  "shown nm = takeWhile (\<lambda>c. c \<noteq> CHR '' '') (take 24 nm)"

lemma tag_calls_chain:
  assumes "open_tree db" "nid_to_tree_idx db nid = (Some t, i)" "info = infos db ! t"
    and "tag_chain (tag_info info) x xs" "\<forall>s\<in>set xs. 1 \<le> s \<and> s \<le> tags (header info)"
  shows "tag_calls (Suc (length xs)) db nid (if x = 0 then -1 else x) =
    Some (map (\<lambda>s. shown (tag_key (tag_info info) (s - 1))) xs, 0)"
  using assms(4,5)
proof (induction xs arbitrary: x)
  case Nil
  then show ?case using assms(1-3) by (simp add: TreeFindNodeTags_def Let_def)
next
  case (Cons s xs)
  let ?next = "next_tag (tag_info info ! (s - 1))"
  have s: "x = int s" "1 \<le> s" "s \<le> tags (header info)" using Cons.prems by auto
  then have "TreeFindNodeTags db nid x =
      Some (Some (shown (tag_key (tag_info info) (s - 1))), if ?next = 0 then -1 else ?next)"
    using assms(1-3) by (simp add: TreeFindNodeTags_def Let_def shown_def nat_diff_distrib)
  moreover have "tag_calls (Suc (length xs)) db nid (if ?next = 0 then -1 else ?next) =
      Some (map (\<lambda>s. shown (tag_key (tag_info info) (s - 1))) xs, 0)"
    by (rule Cons.IH) (use Cons.prems in auto)
  ultimately show ?case using s by simp
qed

lemma tag_calls_mono: "tag_calls m db nid c = Some r \<Longrightarrow> m \<le> m' \<Longrightarrow> tag_calls m' db nid c = Some r"
proof (induction m arbitrary: m' c r)
  case (Suc m)
  then obtain k where k: "m' = Suc k" "m \<le> k" by (cases m') auto
  show ?case
  proof (cases "TreeFindNodeTags db nid c")
    case (Some a)
    obtain tag c' where a: "a = (tag, c')" by fastforce
    show ?thesis
    proof (cases tag)
      case (Some nm)
      then obtain r' where "tag_calls m db nid c' = Some r'"
        using Suc.prems(1) \<open>TreeFindNodeTags db nid c = Some a\<close> a by auto
      moreover from this have "tag_calls k db nid c' = Some r'" by (rule Suc.IH [OF _ k(2)])
      ultimately show ?thesis
        using Suc.prems(1) \<open>TreeFindNodeTags db nid c = Some a\<close> a Some k(1) by simp
    qed (use Suc.prems(1) \<open>TreeFindNodeTags db nid c = Some a\<close> a k(1) in simp)
  qed (use Suc.prems(1) in simp)
qed simp

lemma tag_nums_length: "length (tag_nums infs i) \<le> length infs"
proof -
  have "card (set (tag_nums infs i)) \<le> card {1..length infs}"
    by (rule card_mono) (auto simp: set_tag_nums)
  then show ?thesis using distinct_card [OF tag_nums_props(1)] by simp
qed

text \<open>
  C34: the calls of \<open>_TreeFindNodeTags\<close> with one context return every tag of the node once, the
  newest first and without its blanks, then none, and leave the context as it was for a new start.
\<close>

theorem TreeFindNodeTags_all:
  assumes "open_tree db" and "nid_to_tree_idx db nid = (Some t, i)" and "info = infos db ! t"
    and "tags_ok info" and "i < nodes (header info)"
  shows "tag_calls (Suc (tags (header info))) db nid 0 =
    Some (map (\<lambda>s. shown (tag_key (tag_info info) (s - 1))) (tag_nums (tag_info info) i), 0)"
proof -
  let ?xs = "tag_nums (tag_info info) i" and ?x = "tag_link (node info i)"
  have chain: "tag_chain (tag_info info) ?x ?xs" and in_range: "\<forall>s\<in>set ?xs. 1 \<le> s \<and> s \<le> tags (header info)"
    using assms(4,5) tag_nums_props(2) [of "tag_info info" i] by (simp_all add: tags_ok_def)
  note all = tag_calls_chain [OF assms(1-3) chain in_range]
  have x: "?x = 0 \<longleftrightarrow> ?xs = []" "?x \<noteq> - 1" using chain in_range by (cases ?xs; force)+
  have "TreeFindNodeTags db nid 0 = TreeFindNodeTags db nid (if ?x = 0 then - 1 else ?x)"
    using assms(1-3) x(2) by (simp add: TreeFindNodeTags_def Let_def)
  then have "tag_calls (Suc n) db nid 0 = tag_calls (Suc n) db nid (if ?x = 0 then - 1 else ?x)" for n
    by simp
  then have "tag_calls (Suc (length ?xs)) db nid 0 = Some (map (\<lambda>s. shown (tag_key (tag_info info) (s - 1))) ?xs, 0)"
    using all by simp
  moreover have "length ?xs \<le> tags (header info)"
    using tag_nums_length [of "tag_info info" i] assms(4) by (simp add: tags_ok_def)
  ultimately show ?thesis using tag_calls_mono by (metis Suc_le_mono)
qed

lemma TreeFindNodeTags_all_witness:
  "tag_calls 2 (edit_slot one_tag) 0 0 = Some ([''ALPHA''], 0)"
proof -
  have hyp: "open_tree (edit_slot one_tag)" "nid_to_tree_idx (edit_slot one_tag) 0 = (Some 0, 0)"
    "one_tag = infos (edit_slot one_tag) ! 0" "0 < nodes (header one_tag)"
    using tags_ok_one_tag
    by (simp_all add: edit_slot_def nid_to_tree_idx_def nid_tree_def nid_node_def infos_def)
  have "tag_nums (tag_info one_tag) 0 = [1]" "tag_key (tag_info one_tag) 0 = tag_text ''ALPHA''"
    by (simp_all add: one_tag_def tag_added_def one_node_def zero_info_def zero_header_def tag_nums_def Let_def)
  moreover have "shown (tag_text ''ALPHA'') = ''ALPHA''" by code_simp
  ultimately show ?thesis
    using TreeFindNodeTags_all [OF hyp(1-3) tags_ok_one_tag(1) hyp(4)] tags_ok_one_tag(4)
    by (simp add: numeral_2_eq_2)
qed


section \<open>What the removal of tags leaves alone\<close>

definition same_but_tags :: "TREE_INFO \<Rightarrow> TREE_INFO \<Rightarrow> bool" where
  "same_but_tags info info' \<longleftrightarrow>
     (\<forall>j. (node info' j)\<lparr>tag_link := tag_link (node info j)\<rparr> = node info j)
     \<and> info'\<lparr>node := node info, header := header info, tag_index := tag_index info, tag_info := tag_info info\<rparr> = info
     \<and> (header info')\<lparr>tags := tags (header info)\<rparr> = header info"

lemma same_but_tags_refl [simp]: "same_but_tags info info"
  by (simp add: same_but_tags_def)

lemma same_but_tags_trans:
  assumes "same_but_tags a b" "same_but_tags b c" shows "same_but_tags a c"
proof -
  have "(node c j)\<lparr>tag_link := tag_link (node a j)\<rparr> = node a j" for j
  proof -
    have "(node b j)\<lparr>tag_link := tag_link (node a j)\<rparr> = node a j" "(node c j)\<lparr>tag_link := tag_link (node b j)\<rparr> = node b j"
      using assms by (simp_all add: same_but_tags_def)
    then show ?thesis by (cases "node a j"; cases "node b j"; cases "node c j") simp
  qed
  then show ?thesis
    using assms by (cases a; cases b; cases c; cases "header a"; cases "header b"; cases "header c")
      (simp add: same_but_tags_def)
qed

lemma unlink_tag_frame: "unlink_tag info t = Some info' \<Longrightarrow> same_but_tags info info'"
  by (auto simp: unlink_tag_def same_but_tags_def Let_def split: if_splits)

lemma RemoveTagIdx_frame: "RemoveTagIdx info t = Some info' \<Longrightarrow> same_but_tags info info'"
proof -
  assume r: "RemoveTagIdx info t = Some info'"
  show ?thesis
  proof (cases "tags (header info) = 0")
    case False
    then obtain info1 where u: "unlink_tag info t = Some info1"
      using r by (auto simp: RemoveTagIdx_def split: if_splits)
    have "same_but_tags info1 info'"
      using r False u by (auto simp: RemoveTagIdx_def Let_def renumber_tags_def same_but_tags_def
          split: if_splits option.splits)
    then show ?thesis using unlink_tag_frame [OF u] same_but_tags_trans by blast
  qed (use r in \<open>simp add: RemoveTagIdx_def\<close>)
qed

lemma remove_tags_frame: "remove_tags info x = Some info' \<Longrightarrow> same_but_tags info info'"
proof (rule remove_tags.raw_induct [where P = "\<lambda>info x info'. same_but_tags info info'"])
  fix rm info x info'
  assume IH: "\<And>info x info'. rm info x = Some info' \<Longrightarrow> same_but_tags info info'"
    and run: "(if x = 0 then Some info
       else Option.bind (RemoveTagIdx info (nat x)) (\<lambda>info'. rm info' (next_tag (tag_info info ! (nat x - 1))))) = Some info'"
  show "same_but_tags info info'"
  proof (cases "x = 0")
    case False
    then obtain info1 where "RemoveTagIdx info (nat x) = Some info1"
      "rm info1 (next_tag (tag_info info ! (nat x - 1))) = Some info'"
      using run by (auto simp: bind_eq_Some_conv)
    then show ?thesis using IH RemoveTagIdx_frame same_but_tags_trans by blast
  qed (use run in simp)
qed

lemma tags_ok_cong:
  assumes "tags_ok info" "tag_info info' = tag_info info" "tag_index info' = tag_index info"
    "tags (header info') = tags (header info)" "nodes (header info') = nodes (header info)"
    "\<And>j. tag_link (node info' j) = tag_link (node info j)"
  shows "tags_ok info'" "tag_map info' = tag_map info"
  using assms by (simp_all add: tags_ok_def tag_map_def)

end
