(* ===== verification/TreeFind.thy ===== *)
theory TreeFind
  imports TreeState TreeTags WildMatch "HOL-Library.Multiset"
begin

text \<open>
  Finding nodes by a path: the scanner of paths (\<open>TreeFindNodeWild.l\<close>) and the search of the tree
  for the terms it yields (\<open>TreeFindNode.c\<close>). A term asks for the children, the members or the ancestors
  of the nodes found so far, or for all descendants; a list of nodes is the list of the pointers,
  in which a null pointer may stand, since the code adds the missing parent of a top node.

  \<open>None\<close> stands for an access outside a string or through a null pointer, and for a loop that does not
  end. The strings have no null characters.
\<close>

section \<open>The scanner\<close>

datatype YYTOKENTYPE =
  TAG_TREE | TAG | CHILD | MEMBER | CHILD_OR_MEMBER | ANCESTOR | ANCESTOR_SEARCH | CHILD_SEARCH
| MEMBER_SEARCH | CHILD_OR_MEMBER_SEARCH | PARENT | EOLL

record SEARCH_TERM =
  search_type :: YYTOKENTYPE
  st_term :: string

text \<open>
  A pattern of the scanner as the list of the lengths with which it matches at the front of a string:
  a text, between \<open>m\<close> and \<open>n\<close> characters of a class, and the usual compositions.
\<close>

type_synonym rx = "string \<Rightarrow> nat list"

definition lit :: "string \<Rightarrow> rx" where
  "lit t s = (if take (length t) s = t then [length t] else [])"

definition chars_of :: "(char \<Rightarrow> bool) \<Rightarrow> nat \<Rightarrow> nat \<Rightarrow> rx" where
  "chars_of P m n s = filter (\<lambda>k. m \<le> k \<and> k \<le> length s \<and> list_all P (take k s)) [0..<Suc n]"

definition then_rx :: "rx \<Rightarrow> rx \<Rightarrow> rx" where
  "then_rx r r' s = concat (map (\<lambda>k. map (\<lambda>j. k + j) (r' (drop k s))) (r s))"

definition or_rx :: "rx \<Rightarrow> rx \<Rightarrow> rx" where
  "or_rx r r' s = r s @ r' s"

definition maybe_rx :: "rx \<Rightarrow> rx" where
  "maybe_rx r s = 0 # r s"

definition alphaplus :: "char \<Rightarrow> bool" where
  "alphaplus c \<longleftrightarrow> code CHR ''a'' \<le> code c \<and> code c \<le> code CHR ''z'' \<or> letter c \<or> digit c
     \<or> c \<in> {CHR ''_'', CHR ''*'', CHR ''?'', CHR ''%''}"

text \<open>
  The rules in their order. The first two hold at the beginning of a line. In the rule for
  \<open>CHILD_OR_MEMBER_SEARCH\<close> the bar is between the optional dot and the rest.
\<close>

datatype action = Token YYTOKENTYPE | Return int

definition rules :: "bool \<Rightarrow> (action \<times> rx) list" where
  "rules bol =
     (if bol
      then [(Token TAG_TREE, then_rx (lit [CHR 0x5C]) (then_rx (chars_of alphaplus 1 12)
               (then_rx (lit ''::'') (chars_of alphaplus 1 24)))),
            (Token TAG, then_rx (lit [CHR 0x5C]) (chars_of alphaplus 1 24))] else []) @
     [(Token CHILD_SEARCH, lit ''...''),
      (Token MEMBER_SEARCH, lit '':::''),
      (Token ANCESTOR_SEARCH, then_rx (maybe_rx (lit ''.'')) (then_rx (lit ''^^^'') (chars_of alphaplus 0 12))),
      (Token CHILD_OR_MEMBER_SEARCH,
         or_rx (maybe_rx (lit ''.'')) (or_rx (then_rx (maybe_rx (lit '':'')) (lit ''~~~'')) (lit ''***''))),
      (Token PARENT, then_rx (maybe_rx (lit ''.'')) (lit ''-'')),
      (Token ANCESTOR, then_rx (maybe_rx (lit ''.'')) (then_rx (lit ''^'') (chars_of alphaplus 0 12))),
      (Token MEMBER, then_rx (maybe_rx (lit '':'')) (chars_of alphaplus 1 12)),
      (Token CHILD, then_rx (lit ''.'') (chars_of alphaplus 1 12)),
      (Token CHILD_OR_MEMBER, then_rx (lit ''~'') (chars_of alphaplus 1 12)),
      (Return 0, lit [CHR 0x0A]),
      (Return (-1), chars_of (\<lambda>c. c \<noteq> CHR 0x0A) 1 1)]"

text \<open>The longest match, of several rules the first.\<close>

definition longest :: "rx \<Rightarrow> string \<Rightarrow> nat" where
  "longest r s = foldr max (r s) 0"

fun best_match :: "(action \<times> nat) option \<Rightarrow> (action \<times> rx) list \<Rightarrow> string \<Rightarrow> (action \<times> nat) option" where
  "best_match best [] s = best"
| "best_match best ((a, r) # rs) s =
     (let n = longest r s
      in best_match (if n > (case best of Some (_, m) \<Rightarrow> m | None \<Rightarrow> 0) then Some (a, n) else best) rs s)"

definition isPunctuation :: "char \<Rightarrow> bool" where
  "isPunctuation c \<longleftrightarrow> c \<in> {CHR ''.'', CHR '':'', CHR ''-'', CHR ''~'', CHR ''^''}"

definition isspace :: "char \<Rightarrow> bool" where
  "isspace c \<longleftrightarrow> c = CHR '' '' \<or> 9 \<le> code c \<and> code c \<le> 13"

definition upcaseAndTrim :: "string \<Rightarrow> string" where
  "upcaseAndTrim s = map toupper (takeWhile (\<lambda>c. \<not> isspace c) s)"

definition addSearchTerm :: "YYTOKENTYPE \<Rightarrow> string \<Rightarrow> SEARCH_TERM" where
  "addSearchTerm t str = \<lparr>search_type = t, st_term = upcaseAndTrim (dropWhile isPunctuation str)\<rparr>"

text \<open>The terms of a path, or \<open>None\<close> for a character that no rule allows.\<close>

function scan_path :: "bool \<Rightarrow> string \<Rightarrow> SEARCH_TERM list option" where
  "scan_path bol s =
     (if s = [] then Some []
      else case best_match None (rules bol) s of
        Some (Token t, n) \<Rightarrow>
          map_option (\<lambda>ts. addSearchTerm t (take n s) # ts) (scan_path False (drop (max 1 n) s))
      | Some (Return st, _) \<Rightarrow> if st = 0 then Some [] else None
      | None \<Rightarrow> None)"
  by pat_completeness auto
termination by (relation "measure (\<lambda>(bol, s). length s)") auto

declare scan_path.simps [simp del]

text \<open>A search followed by a term of its kind becomes the search for that term.\<close>

definition merges :: "SEARCH_TERM \<Rightarrow> SEARCH_TERM \<Rightarrow> bool" where
  "merges a b \<longleftrightarrow> (search_type a, search_type b) \<in>
     {(CHILD_SEARCH, CHILD), (MEMBER_SEARCH, MEMBER), (CHILD_OR_MEMBER_SEARCH, CHILD_OR_MEMBER)}"

fun SquishSearches :: "SEARCH_TERM list \<Rightarrow> SEARCH_TERM list" where
  "SquishSearches (a # b # ts) =
     (if merges a b then a\<lparr>st_term := st_term a @ st_term b\<rparr> # SquishSearches ts
      else a # SquishSearches (b # ts))"
| "SquishSearches ts = ts"

definition strtrim :: "string \<Rightarrow> string" where
  "strtrim s = take 1 s @ rev (dropWhile isspace (rev (drop 1 s)))"

fun old_searches :: "string \<Rightarrow> string" where
  "old_searches (a # b # c # s) =
     (if [a, b, c] = ''***'' then ''~~~'' @ old_searches s else a # old_searches (b # c # s))"
| "old_searches s = s"

definition strstr :: "string \<Rightarrow> string \<Rightarrow> bool" where
  "strstr s t = list_ex (\<lambda>k. take (length t) (drop k s) = t) [0..<Suc (length s)]"

definition wild_path :: "string \<Rightarrow> bool" where
  "wild_path s \<longleftrightarrow> CHR ''*'' \<in> set s \<or> CHR ''%'' \<in> set s
     \<or> strstr s ''~~~'' \<or> strstr s ''...'' \<or> strstr s '':::'' \<or> strstr s ''^^^''"

definition WildParse :: "string \<Rightarrow> status \<times> SEARCH_TERM list \<times> bool" where
  "WildParse path =
     (let s = old_searches (strtrim path)
      in if path = [] then (TreeINVPATH, [], False)
         else case scan_path True s of
           Some ts \<Rightarrow> (TreeSUCCESS, SquishSearches ts, wild_path s)
         | None \<Rightarrow> (TreeINVPATH, [], False))"

section \<open>Names\<close>

definition trim_cpy :: "string \<Rightarrow> string" where
  "trim_cpy s = takeWhile (\<lambda>c. c \<noteq> CHR '' '') s"

definition is_wild2 :: "string \<Rightarrow> bool" where
  "is_wild2 s \<longleftrightarrow> CHR ''*'' \<in> set s \<or> CHR ''%'' \<in> set s"

definition is_wild3 :: "string \<Rightarrow> bool" where
  "is_wild3 s \<longleftrightarrow> CHR ''*'' \<in> set s \<or> CHR ''?'' \<in> set s \<or> CHR ''%'' \<in> set s"

text \<open>A single wildcard at the end of the name leads past its terminator.\<close>

fun match :: "string \<Rightarrow> string \<Rightarrow> bool option" where
  "match [] s = Some (s = [])"
| "match (a # p) [] =
     (if a = CHR ''*'' \<and> p \<noteq> [] then Some False
      else if a = CHR ''?'' \<or> a = CHR ''%'' then None
      else Some (a = CHR ''*''))"
| "match (a # p) (c # s) =
     (if a = CHR ''?'' \<or> a = CHR ''%'' \<or> a = c then match p s
      else if a = CHR ''*''
      then Option.bind (match p (c # s)) (\<lambda>b. if b then Some True else match (a # p) s)
      else Some False)"

section \<open>Lists of nodes\<close>

text \<open>The brothers from a node on, and the siblings, as the loops of the search visit them.\<close>

partial_function (option) brothers_from ::
    "PINO_DATABASE \<Rightarrow> node_ptr option \<Rightarrow> node_ptr list option" where
  "brothers_from db n =
     (if n = None then Some []
      else Option.bind (brothers_from db (brother_of db n)) (\<lambda>ns. Some (the n # ns)))"

partial_function (option) siblings_from ::
    "PINO_DATABASE \<Rightarrow> node_ptr option \<Rightarrow> node_ptr list option" where
  "siblings_from db n =
     (if n = None then Some []
      else Option.bind (sibling_of db (the n)) 
             (\<lambda>m. Option.bind (siblings_from db m) (\<lambda>ns. Some (the n # ns))))"

text \<open>The nodes of a list whose names match a term.\<close>

fun matching :: "PINO_DATABASE \<Rightarrow> string \<Rightarrow> node_ptr list \<Rightarrow> node_ptr option list option" where
  "matching db t [] = Some []"
| "matching db t (n # ns) =
     Option.bind (match t (trim_cpy (name (node_at db n))))
       (\<lambda>b. map_option (\<lambda>answer. if b then Some n # answer else answer) (matching db t ns))"

definition or_star :: "string \<Rightarrow> string" where
  "or_star t = (if t = [] then ''*'' else t)"

text \<open>
  The three searches of all descendants differ in how they go through the nodes below a node. The nodes are
  taken from a queue.
\<close>

partial_function (option) find_queue ::
    "(PINO_DATABASE \<Rightarrow> node_ptr \<Rightarrow> node_ptr list option) \<Rightarrow> PINO_DATABASE \<Rightarrow> string \<Rightarrow> node_ptr list
     \<Rightarrow> node_ptr option list option" where
  "find_queue below_of db t queue =
     (if queue = [] then Some []
      else Option.bind (below_of db (hd queue))
             (\<lambda>ns. Option.bind (matching db (or_star t) ns)
               (\<lambda>answer. Option.bind (find_queue below_of db t (tl queue @ ns)) (\<lambda>more. Some (answer @ more)))))"

definition members_below :: "PINO_DATABASE \<Rightarrow> node_ptr \<Rightarrow> node_ptr list option" where
  "members_below db n = brothers_from db (member_of db (Some n))"

definition children_below :: "PINO_DATABASE \<Rightarrow> node_ptr \<Rightarrow> node_ptr list option" where
  "children_below db n = brothers_from db (child_of db (Some n))"

definition descendants_below :: "PINO_DATABASE \<Rightarrow> node_ptr \<Rightarrow> node_ptr list option" where
  "descendants_below db n = siblings_from db (descendant_of db (Some n))"

text \<open>The search for members and children has its start among the answers; a missing start has no links.\<close>

definition FindMembers :: "PINO_DATABASE \<Rightarrow> string \<Rightarrow> node_ptr option \<Rightarrow> node_ptr option list option" where
  "FindMembers db t start = (case start of None \<Rightarrow> Some [] | Some n \<Rightarrow> find_queue members_below db t [n])"

definition FindChildren :: "PINO_DATABASE \<Rightarrow> string \<Rightarrow> node_ptr option \<Rightarrow> node_ptr option list option" where
  "FindChildren db t start = (case start of None \<Rightarrow> Some [] | Some n \<Rightarrow> find_queue children_below db t [n])"

definition FindMembersOrChildren ::
    "PINO_DATABASE \<Rightarrow> string \<Rightarrow> node_ptr option \<Rightarrow> node_ptr option list option" where
  "FindMembersOrChildren db t start =
     map_option (Cons start)
       (case start of None \<Rightarrow> Some [] | Some n \<Rightarrow> find_queue descendants_below db t [n])"

section \<open>Tags\<close>

text \<open>The node of a tag, or the top of the subtree for a reference.\<close>

definition tag_target :: "PINO_DATABASE \<Rightarrow> nat \<Rightarrow> nat \<Rightarrow> node_ptr option option" where
  "tag_target db t i =
     (case nid_to_node db (make_nid t i) of
        None \<Rightarrow> None
      | Some n \<Rightarrow> Some (if usage (node_at db n) = TreeUSAGE_SUBTREE_REF then child_of db (Some n) else Some n))"

fun tags_matching :: "PINO_DATABASE \<Rightarrow> nat \<Rightarrow> string \<Rightarrow> bool \<Rightarrow> TAG_INFO list \<Rightarrow> node_ptr option list option" where
  "tags_matching db t tagname wild [] = Some []"
| "tags_matching db t tagname wild (x # xs) =
     Option.bind (match tagname (trim_cpy (tag_name x)))
       (\<lambda>b. if \<not> b then tags_matching db t tagname wild xs
             else Option.bind (tag_target db t (node_idx x))
                    (\<lambda>n. if wild then map_option (Cons n) (tags_matching db t tagname wild xs) else Some [n]))"

definition FindTags :: "PINO_DATABASE \<Rightarrow> nat \<Rightarrow> string \<Rightarrow> node_ptr option list option" where
  "FindTags db t tagname =
     (let info = infos db ! t
      in Option.bind (match tagname ''TOP'')
           (\<lambda>top. if top then map_option (\<lambda>n. [n]) (tag_target db t 0)
                   else tags_matching db t tagname (is_wild2 tagname) (take (tags (header info)) (tag_info info))))"

text \<open>The loop over the trees for a tag with the name of a tree, and the one for a tag without.\<close>

function tags_of_trees :: "PINO_DATABASE \<Rightarrow> string \<Rightarrow> string \<Rightarrow> nat \<Rightarrow> node_ptr option list option" where
  "tags_of_trees db treename tagname t =
     (if t < length (infos db)
      then Option.bind (match (drop (if take 1 treename = [CHR 0x5C] then 1 else 0) treename) (treenam (infos db ! t)))
             (\<lambda>b. if \<not> b then tags_of_trees db treename tagname (Suc t)
                   else Option.bind (FindTags db t tagname)
                     (\<lambda>answer. if is_wild2 treename
                                then map_option ((@) answer) (tags_of_trees db treename tagname (Suc t))
                                else Some answer))
      else Some [])"
  by pat_completeness auto
termination by (relation "measure (\<lambda>(db, _, _, t). length (infos db) - t)") auto

declare tags_of_trees.simps [simp del]

function tags_elsewhere ::
    "PINO_DATABASE \<Rightarrow> nat \<Rightarrow> string \<Rightarrow> nat \<Rightarrow> node_ptr option list \<Rightarrow> node_ptr option list option" where
  "tags_elsewhere db dflt tagname t answer =
     (if t < length (infos db)
      then if t = dflt then tags_elsewhere db dflt tagname (Suc t) answer
           else Option.bind (FindTags db t tagname)
             (\<lambda>more. if answer @ more \<noteq> [] \<and> \<not> is_wild2 tagname then Some (answer @ more)
                      else tags_elsewhere db dflt tagname (Suc t) (answer @ more))
      else Some answer)"
  by pat_completeness auto
termination by (relation "measure (\<lambda>(db, _, _, t, _). length (infos db) - t)") auto

declare tags_elsewhere.simps [simp del]

definition FindTagWild :: "PINO_DATABASE \<Rightarrow> SEARCH_TERM \<Rightarrow> node_ptr option list option" where
  "FindTagWild db term =
     (let t = st_term term
      in if search_type term = TAG_TREE
         then let treename = takeWhile (\<lambda>c. c \<noteq> CHR '':'') t
              in tags_of_trees db treename (drop (length treename + 2) t) 0
         else let tagname = drop (if take 1 t = [CHR 0x5C] then 1 else 0) t;
                  dflt = nid_tree (node_to_nid db (default_node db))
              in Option.bind (FindTags db dflt tagname)
                   (\<lambda>answer. if answer = [] \<or> is_wild2 tagname then tags_elsewhere db dflt tagname 0 answer
                              else Some answer))"

section \<open>The search\<close>

definition parent_opt :: "PINO_DATABASE \<Rightarrow> node_ptr option \<Rightarrow> node_ptr list" where
  "parent_opt db n = (case parent_of db n of None \<Rightarrow> [] | Some p \<Rightarrow> [p])"

partial_function (option) ancestors :: "PINO_DATABASE \<Rightarrow> node_ptr option \<Rightarrow> node_ptr list option" where
  "ancestors db n =
     (if parent_of db n = None then Some []
      else Option.bind (ancestors db (parent_of db n)) (\<lambda>ns. Some (the (parent_of db n) # ns)))"

text \<open>
  The names of a path that are not wild are looked for among the members and then the children, whatever
  their punctuation.
\<close>

definition Find :: "PINO_DATABASE \<Rightarrow> SEARCH_TERM \<Rightarrow> node_ptr option \<Rightarrow> node_ptr option list option" where
  "Find db term start =
     (let t = st_term term;
          type = (if search_type term \<in> {CHILD, MEMBER} \<and> \<not> is_wild3 t then CHILD_OR_MEMBER else search_type term);
          named = (\<lambda>t ns. Option.bind ns (matching db t))
      in case type of
           CHILD \<Rightarrow> named t (brothers_from db (child_of db start))
         | MEMBER \<Rightarrow> named t (brothers_from db (member_of db start))
         | CHILD_OR_MEMBER \<Rightarrow>
             Option.bind (named t (brothers_from db (member_of db start)))
               (\<lambda>answer. map_option ((@) answer) (named t (brothers_from db (child_of db start))))
         | CHILD_SEARCH \<Rightarrow> FindChildren db t start
         | MEMBER_SEARCH \<Rightarrow> FindMembers db t start
         | CHILD_OR_MEMBER_SEARCH \<Rightarrow> FindMembersOrChildren db t start
         | TAG \<Rightarrow> FindTagWild db term
         | TAG_TREE \<Rightarrow> FindTagWild db term
         | PARENT \<Rightarrow> Some [parent_of db start]
         | ANCESTOR \<Rightarrow> matching db (or_star t) (parent_opt db start)
         | ANCESTOR_SEARCH \<Rightarrow> named (or_star t) (ancestors db start)
         | EOLL \<Rightarrow> Some [])"

text \<open>The answers of a function for all nodes of a list, one after the other.\<close>

fun collect :: "('a \<Rightarrow> 'b list option) \<Rightarrow> 'a list \<Rightarrow> 'b list option" where
  "collect f [] = Some []"
| "collect f (n # ns) = Option.bind (f n) (\<lambda>these. map_option ((@) these) (collect f ns))"

primrec Search :: "PINO_DATABASE \<Rightarrow> SEARCH_TERM list \<Rightarrow> node_ptr option \<Rightarrow> node_ptr option list option" where
  "Search db [] start = Some []"
| "Search db (term # ts) start =
     Option.bind (Find db term start) (\<lambda>ns. if ts = [] then Some ns else collect (Search db ts) ns)"

definition ptr_nid :: "PINO_DATABASE \<Rightarrow> node_ptr option \<Rightarrow> u32" where
  "ptr_nid db n = (case n of None \<Rightarrow> 0 | Some p \<Rightarrow> node_to_nid db p)"

definition TreeFindNodeRelative ::
    "PINO_DATABASE \<Rightarrow> string \<Rightarrow> u32 \<Rightarrow> (status \<times> u32 option) option" where
  "TreeFindNodeRelative db path startnid =
     (if \<not> open_tree db then Some (TreeNOT_OPEN, None)
      else if take 1 path = [CHR 0x0A] then Some (TreeNNF, None)
      else case WildParse path of
        (status, ts, wild) \<Rightarrow>
          if \<not> STATUS_OK status then Some (status, None)
          else if wild then Some (TreeNOWILD, None)
          else map_option (\<lambda>answer. case answer of [] \<Rightarrow> (TreeNNF, None) | n # _ \<Rightarrow> (TreeSUCCESS, Some (ptr_nid db n)))
                 (Search db ts (nid_to_node db startnid)))"

definition TreeFindNode :: "PINO_DATABASE \<Rightarrow> string \<Rightarrow> (status \<times> u32 option) option" where
  "TreeFindNode db path = TreeFindNodeRelative db path (node_to_nid db (default_node db))"

text \<open>
  The first call with a null context makes the list of the answers, each call takes one from it. The mask has a
  bit for every usage; a null pointer among the answers has no usage.
\<close>

definition usage_bit :: "PINO_DATABASE \<Rightarrow> node_ptr \<Rightarrow> nat" where
  "usage_bit db n = (if usage (node_at db n) = TreeUSAGE_SUBTREE_TOP then TreeUSAGE_SUBTREE else usage (node_at db n))"

definition Filter :: "PINO_DATABASE \<Rightarrow> u32 \<Rightarrow> node_ptr option list \<Rightarrow> node_ptr option list option" where
  "Filter db usage_mask ns =
     (if None \<in> set ns then None
      else Some (filter (\<lambda>n. push_bit (usage_bit db (the n)) 1 AND usage_mask \<noteq> 0) ns))"

definition first_answers ::
    "PINO_DATABASE \<Rightarrow> bool \<Rightarrow> node_ptr option list \<Rightarrow> node_ptr option list" where
  "first_answers db wild ns = (if wild \<and> take 1 ns = [Some (default_node db)] then tl ns else ns)"

definition take_answer ::
    "PINO_DATABASE \<Rightarrow> status \<Rightarrow> node_ptr option list \<Rightarrow> status \<times> u32 option \<times> node_ptr option list option" where
  "take_answer db none_left ns =
     (case ns of [] \<Rightarrow> (none_left, None, Some []) | n # rest \<Rightarrow> (TreeSUCCESS, Some (ptr_nid db n), Some rest))"

definition TreeFindNodeWildRelative ::
    "PINO_DATABASE \<Rightarrow> string \<Rightarrow> u32 \<Rightarrow> node_ptr option list option \<Rightarrow> u32
     \<Rightarrow> (status \<times> u32 option \<times> node_ptr option list option) option" where
  "TreeFindNodeWildRelative db path startnid ctx usage_mask =
     (if \<not> open_tree db then Some (TreeNOT_OPEN, None, ctx)
      else case ctx of
        Some ns \<Rightarrow> Some (take_answer db TreeNMN ns)
      | None \<Rightarrow>
          (case WildParse path of
             (status, ts, wild) \<Rightarrow>
               if \<not> STATUS_OK status then Some (status, None, None)
               else Option.bind (Search db ts (nid_to_node db startnid))
                      (\<lambda>answer. map_option (\<lambda>ns. take_answer db TreeNNF (first_answers db wild ns))
                                 (Filter db usage_mask answer))))"

definition TreeFindNodeWild ::
    "PINO_DATABASE \<Rightarrow> string \<Rightarrow> node_ptr option list option \<Rightarrow> u32
     \<Rightarrow> (status \<times> u32 option \<times> node_ptr option list option) option" where
  "TreeFindNodeWild db path ctx usage_mask =
     TreeFindNodeWildRelative db path (node_to_nid db (default_node db)) ctx usage_mask"

definition TreeFindNodeEnd :: "node_ptr option list option \<Rightarrow> status \<times> node_ptr option list option" where
  "TreeFindNodeEnd ctx = (TreeSUCCESS, None)"

section \<open>What the scanner makes of a path\<close>

lemma set_lit: "set (lit t s) = (if take (length t) s = t then {length t} else {})"
  by (simp add: lit_def)

lemma takeWhile_prefix: "k \<le> length s \<Longrightarrow> list_all P (take k s) \<longleftrightarrow> k \<le> length (takeWhile P s)"
proof (induction s arbitrary: k)
  case (Cons c s)
  then show ?case by (cases k) auto
qed simp

lemma set_chars_of: "set (chars_of P m n s) = {k. m \<le> k \<and> k \<le> n \<and> k \<le> length (takeWhile P s)}"
  using takeWhile_prefix [of _ s P] length_takeWhile_le [of P s] by (auto simp: chars_of_def simp del: upt_Suc)

lemma set_then_rx: "set (then_rx r r' s) = (\<Union>k\<in>set (r s). (+) k ` set (r' (drop k s)))"
  by (auto simp: then_rx_def)

lemma longest_Max: "longest r s = Max (insert 0 (set (r s)))"
proof -
  have "foldr max xs 0 = Max (insert 0 (set xs))" for xs :: "nat list"
  proof (induction xs)
    case (Cons x xs)
    then show ?case by (simp add: insert_commute [of 0])
  qed simp
  then show ?thesis by (simp add: longest_def)
qed

lemma longest_eqI: "(\<And>k. k \<in> set (r s) \<Longrightarrow> k \<le> n) \<Longrightarrow> n = 0 \<or> n \<in> set (r s) \<Longrightarrow> longest r s = n"
  unfolding longest_Max by (intro Max_eqI) auto

text \<open>The characters of a name, and the names of a path with the punctuation before them.\<close>

definition name_char :: "char \<Rightarrow> bool" where
  "name_char c \<longleftrightarrow> alphaplus c \<and> c \<notin> {CHR ''*'', CHR ''?'', CHR ''%''}"

lemma alphaplus_punct [simp]: "isPunctuation c \<Longrightarrow> \<not> alphaplus c"
  by (auto simp: alphaplus_def isPunctuation_def letter_def digit_def code_def)

lemma not_name_char:
  "\<not> name_char CHR 0x5C" "\<not> name_char CHR 0x0A" "\<not> name_char CHR '' ''" "isspace c \<Longrightarrow> \<not> name_char c"
  by (auto simp: name_char_def alphaplus_def isspace_def letter_def digit_def code_def)

lemma name_char_neq:
  assumes "name_char c"
  shows "\<not> isPunctuation c" "\<not> isspace c" "c \<noteq> CHR 0x5C" "c \<noteq> CHR 0x0A" "c \<noteq> CHR ''*''" "c \<noteq> CHR ''%''" "c \<noteq> CHR ''?''"
    "alphaplus c" "c \<noteq> CHR ''.''" "c \<noteq> CHR '':''" "c \<noteq> CHR ''-''" "c \<noteq> CHR ''~''" "c \<noteq> CHR ''^''" "c \<noteq> CHR '' ''"
proof -
  show p: "\<not> isPunctuation c" and "alphaplus c" using assms alphaplus_punct [of c] by (auto simp: name_char_def)
  show "c \<noteq> CHR ''.''" "c \<noteq> CHR '':''" "c \<noteq> CHR ''-''" "c \<noteq> CHR ''~''" "c \<noteq> CHR ''^''"
    using p by (auto simp: isPunctuation_def)
  show "c \<noteq> CHR ''*''" "c \<noteq> CHR ''%''" "c \<noteq> CHR ''?''" using assms by (auto simp: name_char_def)
qed (use assms not_name_char in \<open>blast\<close>)+

type_synonym steps = "(string \<times> string) list"

definition path_text :: "steps \<Rightarrow> string" where
  "path_text steps = concat (map (\<lambda>(p, nm). p @ nm) steps)"

definition path_name :: "string \<Rightarrow> bool" where
  "path_name nm \<longleftrightarrow> nm \<noteq> [] \<and> length nm \<le> 12 \<and> list_all name_char nm"

fun path_ok :: "steps \<Rightarrow> bool" where
  "path_ok [] = False"
| "path_ok (s # ss) \<longleftrightarrow>
     fst s \<in> {'''', ''.'', '':''} \<and> path_name (snd s)
     \<and> list_all (\<lambda>(p, nm). p \<in> {''.'', '':''} \<and> path_name nm) ss"

definition step_term :: "string \<times> string \<Rightarrow> SEARCH_TERM" where
  "step_term s = \<lparr>search_type = (if fst s = ''.'' then CHILD else MEMBER), st_term = map toupper (snd s)\<rparr>"

lemma takeWhile_name:
  assumes "path_name nm" "rest = [] \<or> isPunctuation (hd rest)"
  shows "takeWhile alphaplus (nm @ rest) = nm"
proof -
  have "\<forall>c\<in>set nm. alphaplus c" using assms(1) name_char_neq(8) by (auto simp: path_name_def list_all_iff)
  then have "takeWhile alphaplus (nm @ rest) = nm @ takeWhile alphaplus rest" by (simp add: takeWhile_append2)
  moreover have "takeWhile alphaplus rest = []" using assms(2) by (cases rest) auto
  ultimately show ?thesis by simp
qed

lemma longest_name:
  assumes "path_name nm" "rest = [] \<or> isPunctuation (hd rest)"
  shows "set (chars_of alphaplus (Suc 0) 12 (nm @ rest)) = {1..length nm}"
proof -
  have "length nm \<le> 12" using assms(1) by (simp add: path_name_def)
  then show ?thesis unfolding set_chars_of takeWhile_name [OF assms] by auto
qed

lemma best_match_less:
  "\<forall>(a, r)\<in>set rs. \<forall>k\<in>set (r s). k \<le> m \<Longrightarrow> best_match (Some (b, m)) rs s = Some (b, m)"
proof (induction rs)
  case (Cons x rs)
  obtain a r where x: "x = (a, r)" by (cases x)
  then have "longest r s \<le> m" using Cons.prems unfolding longest_Max by (intro Max.boundedI) auto
  then show ?case using Cons x by simp
qed simp

lemma best_match_longer:
  "\<forall>(a, r)\<in>set rs. \<forall>k\<in>set (r s). k < n \<Longrightarrow> case best of Some (_, m) \<Rightarrow> m < n | None \<Rightarrow> 0 < n \<Longrightarrow>
   \<exists>best'. best_match best (rs @ rs') s = best_match best' rs' s \<and> (case best' of Some (_, m) \<Rightarrow> m < n | None \<Rightarrow> 0 < n)"
proof (induction rs arbitrary: best)
  case (Cons x rs)
  obtain a r where x: "x = (a, r)" by (cases x)
  have "0 < n" using Cons.prems(2) by (auto split: option.splits)
  then have "longest r s < n" using Cons.prems(1) x unfolding longest_Max by (subst Max_less_iff) auto
  moreover define best' where "best' = (if longest r s > (case best of Some (_, m) \<Rightarrow> m | None \<Rightarrow> 0)
    then Some (a, longest r s) else best)"
  ultimately have "case best' of Some (_, m) \<Rightarrow> m < n | None \<Rightarrow> 0 < n"
    using Cons.prems(2) \<open>0 < n\<close> by (auto split: option.splits)
  moreover have "best_match best ((x # rs) @ rs') s = best_match best' (rs @ rs') s"
    by (simp add: x best'_def Let_def)
  ultimately show ?case using Cons.IH [of best'] Cons.prems(1) by simp
qed auto

lemma best_match_unique:
  assumes "rules bol = rs @ (a, r) # rs'" "n \<in> set (r s)" "\<forall>k\<in>set (r s). k \<le> n" "0 < n"
    "\<forall>(a, r)\<in>set rs. \<forall>k\<in>set (r s). k < n" "\<forall>(a, r)\<in>set rs'. \<forall>k\<in>set (r s). k \<le> n"
  shows "best_match None (rules bol) s = Some (a, n)"
proof -
  obtain best where best: "best_match None (rules bol) s = best_match best ((a, r) # rs') s"
      "case best of Some (_, m) \<Rightarrow> m < n | None \<Rightarrow> 0 < n"
    using best_match_longer [OF assms(5), of None "(a, r) # rs'"] assms(1,4) by auto
  have "longest r s = n" using assms(2,3) by (intro longest_eqI) auto
  then have "best_match best ((a, r) # rs') s = best_match (Some (a, n)) rs' s"
    using best(2) by (auto split: option.splits)
  then show ?thesis using best(1) best_match_less [OF assms(6)] by simp
qed

lemma best_match_step:
  assumes nm: "path_name nm" and rest: "rest = [] \<or> isPunctuation (hd rest)" and p: "p \<in> {'''', ''.'', '':''}"
  shows "best_match None (rules bol) (p @ nm @ rest) =
    Some (Token (if p = ''.'' then CHILD else MEMBER), length (p @ nm))"
proof -
  obtain a as where a: "nm = a # as" "name_char a" using nm by (cases nm) (auto simp: path_name_def)
  note neq = name_char_neq [OF a(2)]
  have names: "set (chars_of alphaplus (Suc 0) 12 (a # as @ rest)) = {1..Suc (length as)}"
    using longest_name [OF nm rest] a(1) by simp
  have no: "set (chars_of alphaplus (Suc 0) 12 (c # s)) = {}" if "isPunctuation c" for c s
    using that by (simp add: set_chars_of)
  have punct: "isPunctuation CHR ''.''" "isPunctuation CHR '':''" by (simp_all add: isPunctuation_def)
  have any: "k \<le> 1" if "k \<in> set (chars_of (\<lambda>c. c \<noteq> CHR 0x0A) (Suc 0) (Suc 0) s)" for k s
    using that by (simp add: set_chars_of)
  note sets = set_lit set_then_rx or_rx_def maybe_rx_def names no [OF punct(1)] no [OF punct(2)]
  let ?s = "p @ nm @ rest"
  from p consider "p = ''''" | "p = ''.''" | "p = '':''" by auto
  then show ?thesis
  proof cases
    case 1
    let ?rs = "takeWhile (\<lambda>x. fst x \<noteq> Token MEMBER) (rules bol)"
    let ?rs' = "tl (dropWhile (\<lambda>x. fst x \<noteq> Token MEMBER) (rules bol))"
    have "best_match None (rules bol) ?s = Some (Token MEMBER, length nm)"
    proof (rule best_match_unique [where rs = ?rs and rs' = ?rs' and r = "then_rx (maybe_rx (lit '':'')) (chars_of alphaplus 1 12)"])
      show "rules bol = ?rs @ (Token MEMBER, then_rx (maybe_rx (lit '':'')) (chars_of alphaplus 1 12)) # ?rs'"
        by (cases bol) (simp_all add: rules_def)
      show "\<forall>(a, r)\<in>set ?rs. \<forall>k\<in>set (r ?s). k < length nm"
        using 1 a neq by (cases bol) (simp_all add: rules_def sets)
      show "\<forall>(a, r)\<in>set ?rs'. \<forall>k\<in>set (r ?s). k \<le> length nm"
        using 1 a neq any by (cases bol) (auto simp: rules_def sets intro: le_trans)
    qed (use 1 a neq in \<open>simp_all add: sets\<close>)
    then show ?thesis using 1 by simp
  next
    case 2
    let ?rs = "takeWhile (\<lambda>x. fst x \<noteq> Token CHILD) (rules bol)"
    let ?rs' = "tl (dropWhile (\<lambda>x. fst x \<noteq> Token CHILD) (rules bol))"
    have "best_match None (rules bol) ?s = Some (Token CHILD, Suc (length nm))"
    proof (rule best_match_unique [where rs = ?rs and rs' = ?rs' and r = "then_rx (lit ''.'') (chars_of alphaplus 1 12)"])
      show "rules bol = ?rs @ (Token CHILD, then_rx (lit ''.'') (chars_of alphaplus 1 12)) # ?rs'"
        by (cases bol) (simp_all add: rules_def)
      show "\<forall>(a, r)\<in>set ?rs. \<forall>k\<in>set (r ?s). k < Suc (length nm)"
        using 2 a neq by (cases bol) (simp_all add: rules_def sets)
      show "\<forall>(a, r)\<in>set ?rs'. \<forall>k\<in>set (r ?s). k \<le> Suc (length nm)"
        using 2 a neq any by (cases bol) (auto simp: rules_def sets intro: le_trans)
    qed (use 2 a neq in \<open>auto simp: sets\<close>)
    then show ?thesis using 2 by simp
  next
    case 3
    let ?rs = "takeWhile (\<lambda>x. fst x \<noteq> Token MEMBER) (rules bol)"
    let ?rs' = "tl (dropWhile (\<lambda>x. fst x \<noteq> Token MEMBER) (rules bol))"
    have "best_match None (rules bol) ?s = Some (Token MEMBER, Suc (length nm))"
    proof (rule best_match_unique [where rs = ?rs and rs' = ?rs' and r = "then_rx (maybe_rx (lit '':'')) (chars_of alphaplus 1 12)"])
      show "rules bol = ?rs @ (Token MEMBER, then_rx (maybe_rx (lit '':'')) (chars_of alphaplus 1 12)) # ?rs'"
        by (cases bol) (simp_all add: rules_def)
      show "\<forall>(a, r)\<in>set ?rs. \<forall>k\<in>set (r ?s). k < Suc (length nm)"
        using 3 a neq by (cases bol) (simp_all add: rules_def sets)
      show "\<forall>(a, r)\<in>set ?rs'. \<forall>k\<in>set (r ?s). k \<le> Suc (length nm)"
        using 3 a neq any by (cases bol) (auto simp: rules_def sets intro: le_trans)
    qed (use 3 a neq in \<open>auto simp: sets\<close>)
    then show ?thesis using 3 by simp
  qed
qed


lemma path_name_chars: "path_name nm \<Longrightarrow> \<forall>c\<in>set nm. name_char c"
  by (simp add: path_name_def list_all_iff)

lemma addSearchTerm_step:
  assumes nm: "path_name nm" and p: "p \<in> {'''', ''.'', '':''}"
  shows "addSearchTerm t (p @ nm) = \<lparr>search_type = t, st_term = map toupper nm\<rparr>"
proof -
  obtain a as where a: "nm = a # as" using nm by (cases nm) (auto simp: path_name_def)
  have "\<not> isPunctuation a" using path_name_chars [OF nm] name_char_neq(1) a by simp
  then have "dropWhile isPunctuation nm = nm" by (simp add: a)
  then have "dropWhile isPunctuation (p @ nm) = nm" using p by (auto simp: isPunctuation_def)
  moreover have "takeWhile (\<lambda>c. \<not> isspace c) nm = nm"
    using path_name_chars [OF nm] name_char_neq(2) by (simp add: takeWhile_eq_all_conv)
  ultimately show ?thesis by (simp only: addSearchTerm_def upcaseAndTrim_def)
qed

lemma scan_path_step:
  assumes nm: "path_name nm" and rest: "rest = [] \<or> isPunctuation (hd rest)" and p: "p \<in> {'''', ''.'', '':''}"
  shows "scan_path bol (p @ nm @ rest) = map_option (Cons (step_term (p, nm))) (scan_path False rest)"
proof -
  have "nm \<noteq> []" using nm by (simp add: path_name_def)
  then have "max 1 (length (p @ nm)) = length (p @ nm)" "p @ nm @ rest \<noteq> []" by (cases nm; simp)+
  then show ?thesis
    using addSearchTerm_step [OF nm p] \<open>nm \<noteq> []\<close> by (subst scan_path.simps) (simp add: best_match_step [OF assms] step_term_def)
qed

lemma scan_path_steps:
  "list_all (\<lambda>(p, nm). p \<in> {''.'', '':''} \<and> path_name nm) ss \<Longrightarrow>
   scan_path bol (path_text ss) = Some (map step_term ss) \<and> (path_text ss = [] \<or> isPunctuation (hd (path_text ss)))"
proof (induction ss arbitrary: bol)
  case Nil
  then show ?case by (simp add: path_text_def scan_path.simps)
next
  case (Cons s ss)
  obtain p nm where s: "s = (p, nm)" by (cases s)
  then have "path_text (s # ss) = p @ nm @ path_text ss" "p \<in> {'''', ''.'', '':''}" "path_name nm"
    using Cons.prems by (auto simp: path_text_def)
  then show ?case
    using scan_path_step [of nm "path_text ss" p bol] Cons s by (auto simp: isPunctuation_def)
qed

lemma scan_path_ok:
  assumes "path_ok ss" shows "scan_path bol (path_text ss) = Some (map step_term ss)"
proof -
  obtain p nm ss' where s: "ss = (p, nm) # ss'" using assms by (cases ss) auto
  then have ok: "list_all (\<lambda>(p, nm). p \<in> {''.'', '':''} \<and> path_name nm) ss'" "p \<in> {'''', ''.'', '':''}" "path_name nm"
    using assms by auto
  have "path_text ss = p @ nm @ path_text ss'" by (simp add: s path_text_def)
  then show ?thesis
    using scan_path_step [OF ok(3) _ ok(2)] scan_path_steps [OF ok(1), of False] by (simp add: s)
qed

text \<open>A term is not merged with the one after it, and no character of a path is a blank or a wildcard.\<close>

lemma SquishSearches_id: "\<forall>t\<in>set ts. search_type t \<in> {CHILD, MEMBER} \<Longrightarrow> SquishSearches ts = ts"
  by (induction ts rule: SquishSearches.induct) (auto simp: merges_def)

lemma SquishSearches_steps: "SquishSearches (map step_term ss) = map step_term ss"
  by (rule SquishSearches_id) (simp add: step_term_def)

lemma old_searches_id: "CHR ''*'' \<notin> set s \<Longrightarrow> old_searches s = s"
  by (induction s rule: old_searches.induct) auto

lemma path_chars:
  assumes "path_ok ss" "c \<in> set (path_text ss)"
  shows "name_char c \<or> c = CHR ''.'' \<or> c = CHR '':''"
proof -
  have "\<forall>(p, nm)\<in>set ss. p \<in> {'''', ''.'', '':''} \<and> path_name nm"
    using assms(1) by (cases ss) (auto simp: list_all_iff)
  then show ?thesis using assms(2) path_name_chars by (fastforce simp: path_text_def)
qed

lemma path_no_space:
  assumes "path_ok ss" shows "\<forall>c\<in>set (path_text ss). \<not> isspace c \<and> c \<noteq> CHR ''*'' \<and> c \<noteq> CHR ''%'' \<and> c \<noteq> CHR ''~'' \<and> c \<noteq> CHR ''^''"
proof
  fix c assume "c \<in> set (path_text ss)"
  then consider "name_char c" | "c = CHR ''.''" | "c = CHR '':''" using path_chars [OF assms] by blast
  then show "\<not> isspace c \<and> c \<noteq> CHR ''*'' \<and> c \<noteq> CHR ''%'' \<and> c \<noteq> CHR ''~'' \<and> c \<noteq> CHR ''^''"
  proof cases
    case 1
    then show ?thesis by (simp add: name_char_neq)
  qed (simp_all add: isspace_def code_def)
qed

lemma strtrim_id: "\<forall>c\<in>set s. \<not> isspace c \<Longrightarrow> strtrim s = s"
proof -
  assume "\<forall>c\<in>set s. \<not> isspace c"
  then have "dropWhile isspace (rev (drop 1 s)) = rev (drop 1 s)"
    by (metis dropWhile_eq_self_iff hd_in_set in_set_dropD set_rev)
  then show ?thesis by (simp add: strtrim_def)
qed

text \<open>Punctuation does not follow punctuation.\<close>

abbreviation spaced :: "string \<Rightarrow> bool" where
  "spaced \<equiv> successively (\<lambda>a b. \<not> (isPunctuation a \<and> isPunctuation b))"

lemma spaced_names: "\<forall>c\<in>set s. \<not> isPunctuation c \<Longrightarrow> spaced s"
  by (induction s rule: induct_list012) auto

lemma spaced_path: 
  assumes "path_ok ss" shows "spaced (path_text ss)"
proof -
  have steps: "list_all (\<lambda>(p, nm). p \<in> {'''', ''.'', '':''} \<and> path_name nm) ss \<Longrightarrow> spaced (path_text ss)" for ss
  proof (induction ss)
    case (Cons s ss)
    obtain p nm where s: "s = (p, nm)" by (cases s)
    have nm: "nm \<noteq> []" "\<forall>c\<in>set nm. \<not> isPunctuation c" "p \<in> {'''', ''.'', '':''}"
      using Cons.prems s path_name_chars name_char_neq(1) by (auto simp: path_name_def)
    have "spaced (nm @ path_text ss)"
      using Cons spaced_names [OF nm(2)] nm(1,2) by (simp add: successively_append_iff)
    moreover have "path_text (s # ss) = p @ nm @ path_text ss" by (simp add: s path_text_def)
    ultimately show ?case using nm by (auto simp: successively_append_iff)
  qed (simp add: path_text_def)
  show ?thesis using assms by (intro steps, cases ss) (auto simp: list_all_iff)
qed

lemma spaced_no_search:
  assumes "spaced s" "isPunctuation c" shows "\<not> strstr s (c # c # t)"
proof
  assume "strstr s (c # c # t)"
  then obtain k where k: "take (length (c # c # t)) (drop k s) = c # c # t" by (auto simp: strstr_def list_ex_iff)
  have "spaced (drop k s)" using assms(1) append_take_drop_id [of k s] by (metis successively_append_iff)
  moreover obtain s' where "drop k s = c # c # s'" using k by (cases "drop k s"; cases "tl (drop k s)") auto
  ultimately show False using assms(2) by simp
qed

text \<open>
  A path of names of up to 12 letters, digits and underscores, with a dot or a colon before every name
  but maybe the first, is scanned into its names in upper case, and it is not wild.
\<close>

lemma WildParse_path:
  assumes "path_ok steps"
  shows "WildParse (path_text steps) = (TreeSUCCESS, map step_term steps, False)"
proof -
  note chars = path_no_space [OF assms]
  have s: "old_searches (strtrim (path_text steps)) = path_text steps"
    using chars strtrim_id [of "path_text steps"] old_searches_id [of "path_text steps"] by auto
  have "path_text steps \<noteq> []" using assms by (cases steps) (auto simp: path_text_def path_name_def)
  moreover have "\<not> wild_path (path_text steps)"
    using chars spaced_no_search [OF spaced_path [OF assms]] by (auto simp: wild_path_def isPunctuation_def)
  ultimately show ?thesis
    by (simp add: WildParse_def s scan_path_ok [OF assms] SquishSearches_steps)
qed


section \<open>Matching of names\<close>

text \<open>
  The code says that its patterns do not have two stars in a row; a star in a name would be taken
  for itself. The question mark is another percent sign.
\<close>

definition percents :: "string \<Rightarrow> string" where
  "percents p = map (\<lambda>c. if c = CHR ''?'' then CHR ''%'' else c) p"

lemma match_sound:
  assumes "successively (\<lambda>a b. \<not> (a = CHR ''*'' \<and> b = CHR ''*'')) p" "CHR ''*'' \<notin> set s" "match p s = Some b"
  shows "b = glob (percents p) s"
  using assms
proof (induction p s arbitrary: b rule: match.induct)
  case (1 s)
  then show ?case by (simp add: percents_def)
next
  case (2 a p)
  then show ?case by (cases p) (auto simp: percents_def split: if_splits)
next
  case (3 a p c s)
  have p: "successively (\<lambda>a b. \<not> (a = CHR ''*'' \<and> b = CHR ''*'')) p" "CHR ''*'' \<notin> set s"
    using "3.prems"(1,2) by (auto simp: successively_Cons)
  show ?case
  proof (cases "a = CHR ''?'' \<or> a = CHR ''%'' \<or> a = c")
    case True
    then have "b = glob (percents p) s" using "3.IH"(1) p "3.prems"(3) by simp
    then show ?thesis using True "3.prems"(2) by (auto simp: percents_def)
  next
    case False
    show ?thesis
    proof (cases "a = CHR ''*''")
      case True
      then obtain b' where b': "match p (c # s) = Some b'" "(if b' then Some True else match (a # p) s) = Some b"
        using "3.prems"(3) False by (auto simp: bind_eq_Some_conv)
      then have "b' = glob (percents p) (c # s)" using "3.IH"(2) False True p "3.prems"(2) by simp
      moreover have "\<not> b' \<Longrightarrow> b = glob (percents (a # p)) s"
        using "3.IH"(3) [of b' b] False True b' "3.prems"(1) p(2) by simp
      ultimately show ?thesis using True b'(2) by (auto simp: percents_def split: if_splits)
    qed (use False "3.prems" in \<open>auto simp: percents_def\<close>)
  qed
qed

lemma match_returns:
  "CHR ''?'' \<notin> set p \<Longrightarrow> CHR ''%'' \<notin> set p \<Longrightarrow> \<exists>b. match p s = Some b"
proof (induction p s rule: match.induct)
  case (3 a p c s)
  show ?case
  proof (cases "a = c")
    case False
    show ?thesis
    proof (cases "a = CHR ''*''")
      case True
      then obtain b where "match p (c # s) = Some b" using 3 False by auto
      then show ?thesis using 3 False True by (cases b) auto
    qed (use False 3 in auto)
  qed (use 3 in simp)
qed auto

definition plain_name :: "string \<Rightarrow> bool" where
  "plain_name p \<longleftrightarrow> CHR ''*'' \<notin> set p \<and> CHR ''?'' \<notin> set p \<and> CHR ''%'' \<notin> set p"

lemma match_plain: "plain_name p \<Longrightarrow> match p s = Some (s = p)"
  by (induction p s rule: match.induct) (auto simp: plain_name_def)

lemma plain_name_not_wild: "plain_name p \<longleftrightarrow> \<not> is_wild3 p" "plain_name p \<Longrightarrow> \<not> is_wild2 p"
  by (auto simp: plain_name_def is_wild3_def is_wild2_def)

section \<open>Looking up a path\<close>

text \<open>
  What a path means in a hierarchy: \<open>S i\<close> are the nodes under node \<open>i\<close>, \<open>nm\<close> their names. A path may lead to
  several nodes, in the order of a depth-first search, when a name occurs twice under one node.
\<close>

fun paths :: "(nat \<Rightarrow> nat list) \<Rightarrow> (nat \<Rightarrow> string) \<Rightarrow> string list \<Rightarrow> nat \<Rightarrow> nat list" where
  "paths S nm [] i = [i]"
| "paths S nm (t # ts) i = concat (map (paths S nm ts) (filter (\<lambda>j. nm j = t) (S i)))"

lemma brothers_from_linked:
  assumes "plain_tree db t" "linked (brother0 (node (infos db ! t))) x xs"
  shows "brothers_from db (map_option (Pair t) x) = Some (map (Pair t) xs)"
  using assms
proof (induction xs arbitrary: x)
  case Nil
  then show ?case by (simp add: brothers_from.simps)
next
  case (Cons i xs)
  then have "brothers_from db (brother_of db (Some (t, i))) = Some (map (Pair t) xs)" by simp
  then show ?case using Cons.prems by (subst brothers_from.simps) (simp del: plain_links)
qed

lemma matching_eq:
  assumes "\<forall>n\<in>set ns. match t (trim_cpy (name (node_at db n))) = Some (f n)"
  shows "matching db t ns = Some (map Some (filter f ns))"
  using assms by (induction ns) auto

lemma collect_eq: "\<forall>n\<in>set ns. f n = Some (g n) \<Longrightarrow> collect f ns = Some (concat (map g ns))"
  by (induction ns) auto

text \<open>The names as the search sees them, and the nodes under a node in its order.\<close>

definition node_name :: "(nat \<Rightarrow> NODE) \<Rightarrow> nat \<Rightarrow> string" where
  "node_name ns i = trim_cpy (name (ns i))"

lemma Find_name:
  assumes "hierarchy (node (infos db ! t)) L C M" "plain_tree db t" "i \<in> L"
    and "search_type term \<in> {CHILD, MEMBER}" "plain_name (st_term term)"
  shows "Find db term (Some (t, i)) =
    Some (map (\<lambda>j. Some (t, j)) (filter (\<lambda>j. node_name (node (infos db ! t)) j = st_term term) (M i @ C i)))"
proof -
  let ?ns = "node (infos db ! t)"
  have m: "brothers_from db (member_of db (Some (t, i))) = Some (map (Pair t) (M i))"
    and c: "brothers_from db (child_of db (Some (t, i))) = Some (map (Pair t) (C i))"
    using hierarchy_lists(1,3) [OF assms(1,3)] brothers_from_linked [OF assms(2)] assms(2) by simp_all
  have "matching db (st_term term) (map (Pair t) js) =
      Some (map (\<lambda>j. Some (t, j)) (filter (\<lambda>j. node_name ?ns j = st_term term) js))" for js
    using matching_eq [of "map (Pair t) js" "st_term term" db "\<lambda>n. node_name ?ns (snd n) = st_term term"]
      match_plain [OF assms(5)]
    by (auto simp: node_name_def node_at_def filter_map comp_def)
  then show ?thesis
    using assms(4,5) by (auto simp: Find_def Let_def m c plain_name_not_wild simp del: member_of_pool)
qed

lemma Search_names:
  assumes "hierarchy (node (infos db ! t)) L C M" "plain_tree db t"
  shows "i \<in> L \<Longrightarrow> ts \<noteq> [] \<Longrightarrow> \<forall>term\<in>set ts. search_type term \<in> {CHILD, MEMBER} \<and> plain_name (st_term term) \<Longrightarrow>
    Search db ts (Some (t, i)) =
      Some (map (\<lambda>j. Some (t, j)) (paths (\<lambda>i. M i @ C i) (node_name (node (infos db ! t))) (map st_term ts) i))"
proof (induction ts arbitrary: i)
  case (Cons a ts)
  let ?js = "filter (\<lambda>j. node_name (node (infos db ! t)) j = st_term a) (M i @ C i)"
  let ?paths = "paths (\<lambda>i. M i @ C i) (node_name (node (infos db ! t))) (map st_term ts)"
  have find: "Find db a (Some (t, i)) = Some (map (\<lambda>j. Some (t, j)) ?js)"
    using Find_name [OF assms Cons.prems(1)] Cons.prems(3) by simp
  show ?case
  proof (cases "ts = []")
    case False
    have "Search db ts (Some (t, j)) = Some (map (\<lambda>j. Some (t, j)) (?paths j))" if "j \<in> set ?js" for j
      using Cons.IH [of j] Cons.prems False that hierarchy_lists(2,4) [OF assms(1) Cons.prems(1)] by auto
    then have "collect (Search db ts) (map (\<lambda>j. Some (t, j)) ?js) =
        Some (concat (map (\<lambda>n. map (\<lambda>j. Some (t, j)) (?paths (snd (the n)))) (map (\<lambda>j. Some (t, j)) ?js)))"
      by (intro collect_eq) auto
    then show ?thesis using find False by (simp add: map_concat comp_def)
  next
    case True
    have "paths (\<lambda>i. M i @ C i) (node_name (node (infos db ! t))) [] = (\<lambda>i. [i])" by (rule ext) simp
    then show ?thesis using find True by simp
  qed
qed simp

lemma paths_in:
  assumes "hierarchy ns L C M" shows "i \<in> L \<Longrightarrow> set (paths (\<lambda>i. M i @ C i) nm ts i) \<subseteq> L"
proof (induction ts arbitrary: i)
  case (Cons a ts)
  have "set (M i @ C i) \<subseteq> L" using hierarchy_lists(2,4) [OF assms Cons.prems] by simp
  then show ?case using Cons.IH by auto
qed simp

lemma main_tree_nid:
  "t < length (infos db) \<Longrightarrow> t < 256 \<Longrightarrow> i \<le> nodes (header (infos db ! t)) \<Longrightarrow> i < 2 ^ 24 \<Longrightarrow>
   node_to_nid db (t, i) = make_nid t i \<and> nid_to_node db (make_nid t i) = Some (t, i)"
  using unat_tree_part [of t i] by (simp add: node_to_nid_in nid_to_node_def)

lemma toupper_plain:
  assumes "name_char c" shows "plain_name [toupper c]"
proof (cases "97 \<le> (of_char c :: nat) \<and> (of_char c :: nat) \<le> 122")
  case True
  then have "(of_char c :: nat) - 32 < 256" by linarith
  then have "of_char (toupper c) = (of_char c :: nat) - 32" using True by (simp add: toupper_def)
  then have "65 \<le> (of_char (toupper c) :: nat)" using True by linarith
  moreover have "(of_char CHR ''*'' :: nat) < 65" "(of_char CHR ''?'' :: nat) < 65" "(of_char CHR ''%'' :: nat) < 65" by simp_all
  ultimately show ?thesis unfolding plain_name_def by (metis empty_iff list.set(1) not_le set_ConsD)
next
  case False
  then have "toupper c = c" by (auto simp: toupper_def)
  then show ?thesis using name_char_neq [OF assms] by (simp add: plain_name_def)
qed

lemma path_steps_plain:
  assumes "path_ok steps" "s \<in> set steps" shows "plain_name (map toupper (snd s))"
proof -
  have "path_name (snd s)" using assms by (cases steps) (auto simp: list_all_iff)
  then show ?thesis using path_name_chars toupper_plain by (fastforce simp: plain_name_def)
qed

lemma TreeFindNode_lookup:
  assumes "open_tree db" and "path_ok steps" and "plain_tree db t" and "ns = node (infos db ! t)"
    and "hierarchy ns L C M" and "default_node db = (t, i)" and "i \<in> L"
    and "t < length (infos db)" and "t < 256" and "\<forall>j\<in>L. j \<le> nodes (header (infos db ! t)) \<and> j < 2 ^ 24"
  shows "TreeFindNode db (path_text steps) =
    Some (case paths (\<lambda>i. M i @ C i) (node_name ns) (map (\<lambda>s. map toupper (snd s)) steps) i of
            [] \<Rightarrow> (TreeNNF, None)
          | j # _ \<Rightarrow> (TreeSUCCESS, Some (make_nid t j)))"
proof -
  let ?ts = "map step_term steps" and ?names = "map (\<lambda>s. map toupper (snd s)) steps"
  let ?js = "paths (\<lambda>i. M i @ C i) (node_name ns) ?names i"
  have first: "take 1 (path_text steps) \<noteq> [CHR 0x0A]"
  proof -
    have "isspace CHR 0x0A" by (simp add: isspace_def code_def)
    then show ?thesis using path_no_space [OF assms(2)] by (cases "path_text steps") auto
  qed
  have nid: "node_to_nid db (t, j) = make_nid t j" "nid_to_node db (make_nid t j) = Some (t, j)" if "j \<in> L" for j
    using main_tree_nid [OF assms(8,9), of j] bspec [OF assms(10) that] by simp_all
  have ok: "\<forall>term\<in>set ?ts. search_type term \<in> {CHILD, MEMBER} \<and> plain_name (st_term term)"
    using path_steps_plain [OF assms(2)] by (simp add: step_term_def)
  have "?ts \<noteq> []" using assms(2) by (cases steps) simp_all
  moreover have "map st_term ?ts = ?names" by (simp add: step_term_def)
  ultimately have "Search db ?ts (Some (t, i)) = Some (map (\<lambda>j. Some (t, j)) ?js)"
    using Search_names [OF assms(5) [unfolded assms(4)] assms(3,7) _ ok] assms(4) by (simp del: map_map)
  then have "TreeFindNode db (path_text steps) =
      Some (case map (\<lambda>j. Some (t, j)) ?js of [] \<Rightarrow> (TreeNNF, None) | n # _ \<Rightarrow> (TreeSUCCESS, Some (ptr_nid db n)))"
    using assms(1) first
    by (simp add: TreeFindNode_def TreeFindNodeRelative_def assms(6) nid [OF assms(7)] WildParse_path [OF assms(2)])
  moreover have "ptr_nid db (Some (t, j)) = make_nid t j" if "?js = j # js" for j js
    using paths_in [OF assms(5,7), of "node_name ns" ?names] that nid [of j] by (simp add: ptr_nid_def)
  ultimately show ?thesis by (cases ?js) simp_all
qed

text \<open>
  C8: \<open>_TreeFindNode\<close> ends and looks up a path that is not wild in the hierarchy, from the default node: its
  names are followed among the members and the children of the nodes, dots and colons alike. The answer is
  the first node the path leads to in a depth-first search, and \<open>TreeNNF\<close> when there is none.
\<close>

theorem TreeFindNode_path:
  assumes "open_tree db" and "path_ok steps" and "plain_tree db t" and "ns = node (infos db ! t)"
    and "hierarchy ns L C M" and "default_node db = (t, i)" and "i \<in> L"
    and "t < length (infos db)" and "t < 256" and "\<forall>j\<in>L. j \<le> nodes (header (infos db ! t)) \<and> j < 2 ^ 24"
  shows "TreeFindNode db (path_text steps) =
    Some (case paths (\<lambda>i. M i @ C i) (node_name ns) (map (\<lambda>s. map toupper (snd s)) steps) i of
            [] \<Rightarrow> (TreeNNF, None)
          | j # _ \<Rightarrow> (TreeSUCCESS, Some (make_nid t j)))"
  by (rule TreeFindNode_lookup [OF assms])


section \<open>Searching all descendants\<close>

text \<open>
  The search with a queue, for a function that lists the nodes under a node. The nodes in the queue are not
  below each other, so that no node comes into it twice; the queue gets smaller in the order of the
  multisets of ranks.
\<close>

lemma reach_step: "reach S J = J \<union> reach S (\<Union>j\<in>J. S j)"
proof
  show "reach S J \<subseteq> J \<union> reach S (\<Union>j\<in>J. S j)"
  proof
    fix x assume "x \<in> reach S J"
    then show "x \<in> J \<union> reach S (\<Union>j\<in>J. S j)"
      by induction (auto intro: below.intros)
  qed
  show "J \<union> reach S (\<Union>j\<in>J. S j) \<subseteq> reach S J"
  proof
    fix x assume "x \<in> J \<union> reach S (\<Union>j\<in>J. S j)"
    moreover have "x \<in> reach S (\<Union>j\<in>J. S j) \<Longrightarrow> x \<in> reach S J"
      by (induction rule: below.induct) (auto intro: below.intros)
    ultimately show "x \<in> reach S J" by (auto intro: below.intros)
  qed
qed

lemma reach_UN: "x \<in> reach S (\<Union>i\<in>I. T i) \<longleftrightarrow> (\<exists>i\<in>I. x \<in> reach S (T i))"
proof
  show "x \<in> reach S (\<Union>i\<in>I. T i) \<Longrightarrow> \<exists>i\<in>I. x \<in> reach S (T i)"
    by (induction rule: below.induct) (auto intro: below.intros)
  show "\<exists>i\<in>I. x \<in> reach S (T i) \<Longrightarrow> x \<in> reach S (\<Union>i\<in>I. T i)"
    using below_mono [of "T _" "\<Union>i\<in>I. T i"] by blast
qed

definition queue_ok :: "(nat \<Rightarrow> nat set) \<Rightarrow> nat list \<Rightarrow> bool" where
  "queue_ok S is \<longleftrightarrow> distinct is \<and> (\<forall>a\<in>set is. \<forall>b\<in>set is. a \<notin> reach S (S b))"

text \<open>The shape of a tree: the nodes under a node once each, under one node only, and of smaller rank.\<close>

definition tree_shape :: "nat set \<Rightarrow> (nat \<Rightarrow> nat list) \<Rightarrow> (nat \<Rightarrow> nat) \<Rightarrow> bool" where
  "tree_shape L K r \<longleftrightarrow> ranked L (\<lambda>i. set (K i)) r
     \<and> (\<forall>i\<in>L. distinct (K i) \<and> set (K i) \<subseteq> L \<and> (\<forall>j\<in>L. set (K i) \<inter> set (K j) \<noteq> {} \<longrightarrow> i = j))"

lemma queue_ok_step:
  assumes shape: "tree_shape L K r" and S: "S = (\<lambda>i. set (K i))" and q: "queue_ok S (i # is)" "set (i # is) \<subseteq> L"
  shows "queue_ok S (is @ K i)"
proof -
  have L: "\<forall>p\<in>L. S p \<subseteq> L" "ranked L S r" "\<forall>p\<in>L. \<forall>q\<in>L. S p \<inter> S q \<noteq> {} \<longrightarrow> p = q" "distinct (K i)" "i \<in> L"
    using shape q(2) by (auto simp: tree_shape_def S)
  note par = below_parent [OF L(3,2) _ L(1), where is_off = "\<lambda>_. False"]
  have not: "a \<notin> reach S (S b)" "a \<noteq> i \<Longrightarrow> b \<noteq> i \<Longrightarrow> True" if "a \<in> set (i # is)" "b \<in> set (i # is)" for a b
    using q(1) that by (auto simp: queue_ok_def)
  have under: "reach S (S b) \<subseteq> reach S (S i)" if "b \<in> S i" for b
    using that below_insert [of "\<lambda>_. False" S b "S i"] insert_absorb [OF that] by auto
  have fresh: "k \<notin> set is" if "k \<in> S i" for k
    using not(1) [of k i] that by (auto intro: below.start)
  have "a \<notin> reach S (S b)" if "a \<in> set is \<union> S i" "b \<in> set is \<union> S i" for a b
  proof (cases "a \<in> S i")
    case True
    have b: "b \<in> L" using that(2) q(2) L(1,5) by auto
    have "b \<noteq> i" using that(2) q(1) not(1) [of i i] by (auto simp: queue_ok_def intro: below.start)
    moreover have "i \<notin> reach S (S b)"
    proof (cases "b \<in> S i")
      case True
      then have "reach S (S b) \<subseteq> reach S (S i)" by (rule under)
      then show ?thesis using not(1) [of i i] by auto
    qed (use that(2) not(1) [of i b] in auto)
    ultimately show ?thesis using par [OF b L(5) True] by auto
  next
    case False
    then have "a \<in> set (i # is)" using that(1) by simp
    then show ?thesis using that(2) not(1) [of a b] not(1) [of a i] under [of b] by auto
  qed
  then show ?thesis using q(1) L(4) fresh by (auto simp: queue_ok_def S)
qed

lemma queue_less:
  assumes "\<forall>k\<in>set ks. r k < r i"
  shows "(mset (map r (is @ ks)), mset (map r (i # is))) \<in> mult less_than"
proof -
  have "(mset (map r is) + mset (map r ks), mset (map r is) + {#r i#}) \<in> mult less_than"
    using assms by (intro one_step_implies_mult) auto
  then show ?thesis by simp
qed

lemma find_queue_ok:
  assumes shape: "tree_shape L K r" and S: "S = (\<lambda>i. set (K i))"
    and links: "\<forall>i\<in>L. below_of db (t, i) = Some (map (Pair t) (K i))"
    and names: "\<forall>i\<in>L. match (or_star s) (trim_cpy (name (node_at db (t, i)))) = Some (f i)"
  shows "queue_ok S is \<Longrightarrow> set is \<subseteq> L \<Longrightarrow> \<exists>ds. find_queue below_of db s (map (Pair t) is) =
      Some (map (\<lambda>j. Some (t, j)) (filter f ds)) \<and> distinct ds \<and> set ds = reach S (\<Union>i\<in>set is. S i)"
proof (induction "is" rule: wf_induct_rule [OF wf_inv_image [OF wf_mult [OF wf_less_than], of "\<lambda>is. mset (map r is)"]])
  case (1 "is")
  show ?case
  proof (cases "is")
    case Nil
    then show ?thesis by (intro exI [of _ "[]"]) (simp add: find_queue.simps)
  next
    case (Cons i js)
    have K: "\<forall>k\<in>set (K i). r k < r i" "set (K i) \<subseteq> L" "i \<in> L"
      using shape Cons "1.prems"(2) by (auto simp: tree_shape_def ranked_def)
    have ok: "queue_ok S (js @ K i)" using queue_ok_step [OF shape S] "1.prems" Cons by simp
    have "((js @ K i), is) \<in> inv_image (mult less_than) (\<lambda>is. mset (map r is))"
      using queue_less [OF K(1), of js] Cons by (simp add: inv_image_def)
    then obtain ds where ds: "find_queue below_of db s (map (Pair t) (js @ K i)) = Some (map (\<lambda>j. Some (t, j)) (filter f ds))"
        "distinct ds" "set ds = reach S (\<Union>i\<in>set (js @ K i). S i)"
      using "1.IH" [of "js @ K i"] ok "1.prems"(2) Cons K(2) by auto
    have "matching db (or_star s) (map (Pair t) (K i)) = Some (map Some (filter (\<lambda>n. f (snd n)) (map (Pair t) (K i))))"
      using names K(2) by (intro matching_eq) auto
    then have "matching db (or_star s) (map (Pair t) (K i)) = Some (map (\<lambda>j. Some (t, j)) (filter f (K i)))"
      by (simp add: filter_map comp_def)
    then have "find_queue below_of db s (map (Pair t) is) = Some (map (\<lambda>j. Some (t, j)) (filter f (K i @ ds)))"
      using ds(1) links K(3) Cons by (subst find_queue.simps) simp
    moreover have "set (K i @ ds) = reach S (\<Union>i\<in>set is. S i)"
    proof -
      have "reach S (\<Union>i\<in>set is. S i) = reach S (S i) \<union> reach S (\<Union>i\<in>set js. S i)"
        using Cons by (simp add: below_Un)
      also have "reach S (S i) = S i \<union> reach S (\<Union>k\<in>S i. S k)" by (rule reach_step)
      finally show ?thesis using ds(3) by (auto simp: S below_Un)
    qed
    moreover have "distinct (K i @ ds)"
    proof -
      have "k \<notin> set ds" if "k \<in> set (K i)" for k
        using ok that unfolding ds(3) reach_UN by (auto simp: queue_ok_def)
      then show ?thesis using ds(2) shape K(3) by (auto simp: tree_shape_def)
    qed
    ultimately show ?thesis by (intro exI [of _ "K i @ ds"]) blast
  qed
qed


text \<open>The nodes under a node as the three searches go through them.\<close>

lemma siblings_from_hierarchy:
  assumes h: "hierarchy ns L C M" and plain: "plain_tree db t" and ns: "ns = node (infos db ! t)" and p: "p \<in> L"
  shows "linked (brother0 ns) x cs \<Longrightarrow> set cs \<subseteq> set (C p) \<Longrightarrow>
      siblings_from db (map_option (Pair t) x) = Some (map (Pair t) cs)"
    and "linked (brother0 ns) x ms \<Longrightarrow> set ms \<subseteq> set (M p) \<Longrightarrow>
      siblings_from db (map_option (Pair t) (if ms = [] then child0 ns p else x)) = Some (map (Pair t) (ms @ C p))"
proof -
  note lists = hierarchy_lists [OF h p]
  have disj: "set (C p) \<inter> set (M p) = {}" using h p by (simp add: hierarchy_def)
  have sib: "sibling_of db (t, j) = Some (map_option (Pair t)
      (case brother0 ns j of Some b \<Rightarrow> Some b | None \<Rightarrow> if j \<in> set (M p) then child0 ns p else None))"
    if "j \<in> set (C p) \<union> set (M p)" for j
    using child_or_member [OF plain ns lists(5) [OF that] lists(1,3)] by simp
  show c: "linked (brother0 ns) x cs \<Longrightarrow> set cs \<subseteq> set (C p) \<Longrightarrow>
      siblings_from db (map_option (Pair t) x) = Some (map (Pair t) cs)" for x cs
  proof (induction cs arbitrary: x)
    case Nil
    then show ?case by (simp add: siblings_from.simps)
  next
    case (Cons j cs)
    then have "j \<notin> set (M p)" using disj by auto
    then have "sibling_of db (t, j) = Some (map_option (Pair t) (brother0 ns j))"
      using sib [of j] Cons.prems(2) by (auto split: option.splits)
    then show ?case using Cons by (subst siblings_from.simps) simp
  qed
  show "linked (brother0 ns) x ms \<Longrightarrow> set ms \<subseteq> set (M p) \<Longrightarrow>
      siblings_from db (map_option (Pair t) (if ms = [] then child0 ns p else x)) = Some (map (Pair t) (ms @ C p))"
  proof (induction ms arbitrary: x)
    case Nil
    then show ?case using c [OF lists(1)] by simp
  next
    case (Cons j ms)
    have "sibling_of db (t, j) = Some (map_option (Pair t) (if ms = [] then child0 ns p else brother0 ns j))"
      using sib [of j] Cons.prems by (cases ms) (auto split: option.splits)
    then show ?case using Cons by (subst siblings_from.simps) simp
  qed
qed

lemma below_functions:
  assumes h: "hierarchy (node (infos db ! t)) L C M" and plain: "plain_tree db t" and i: "i \<in> L"
  shows "members_below db (t, i) = Some (map (Pair t) (M i))" "children_below db (t, i) = Some (map (Pair t) (C i))"
    "descendants_below db (t, i) = Some (map (Pair t) (M i @ C i))"
proof -
  note lists = hierarchy_lists [OF h i]
  show "members_below db (t, i) = Some (map (Pair t) (M i))" "children_below db (t, i) = Some (map (Pair t) (C i))"
    using brothers_from_linked [OF plain lists(1)] brothers_from_linked [OF plain lists(3)] plain
    by (simp_all add: members_below_def children_below_def)
  have "descendant_of db (Some (t, i)) = map_option (Pair t)
      (if M i = [] then child0 (node (infos db ! t)) i else member0 (node (infos db ! t)) i)"
    using lists(3) plain by (cases "M i") (simp_all add: descendant_of_def)
  then show "descendants_below db (t, i) = Some (map (Pair t) (M i @ C i))"
    using siblings_from_hierarchy(2) [OF h plain refl i lists(3)] by (simp add: descendants_below_def)
qed

lemma tree_shape_part:
  assumes "tree_shape L K r" "\<forall>i\<in>L. distinct (K' i) \<and> set (K' i) \<subseteq> set (K i)" shows "tree_shape L K' r"
  unfolding tree_shape_def ranked_def
proof (intro conjI ballI impI)
  fix i j assume i: "i \<in> L" "j \<in> L" "set (K' i) \<inter> set (K' j) \<noteq> {}"
  then have "set (K i) \<inter> set (K j) \<noteq> {}" using assms(2) by blast
  then show "i = j" using assms(1) i(1,2) by (simp add: tree_shape_def)
next
  fix i assume "i \<in> L"
  then show "set (K' i) \<subseteq> L" "distinct (K' i)" using assms by (auto simp: tree_shape_def)
next
  fix i j assume "i \<in> L" "j \<in> set (K' i)"
  then show "r j < r i" using assms by (auto simp: tree_shape_def ranked_def)
qed

lemma tree_shapes:
  assumes h: "hierarchy ns L C M" and r: "ranked L (\<lambda>i. set (M i @ C i)) r"
  shows "tree_shape L (\<lambda>i. M i @ C i) r" "tree_shape L C r" "tree_shape L M r"
proof -
  have one: "distinct (M i @ C i) \<and> set (M i @ C i) \<subseteq> L" if "i \<in> L" for i
    using hierarchy_lists(1-4) [OF h that] linked_distinct h that by (auto simp: hierarchy_def)
  moreover have "i = j" if "i \<in> L" "j \<in> L" and ne: "set (M i @ C i) \<inter> set (M j @ C j) \<noteq> {}" for i j
  proof -
    from ne obtain k where k: "k \<in> set (C i) \<union> set (M i)" "k \<in> set (C j) \<union> set (M j)" by auto
    show ?thesis using hierarchy_lists(5) [OF h that(1) k(1)] hierarchy_lists(5) [OF h that(2) k(2)] by simp
  qed
  ultimately show all: "tree_shape L (\<lambda>i. M i @ C i) r" using r unfolding tree_shape_def by blast
  show "tree_shape L C r" "tree_shape L M r" by (rule tree_shape_part [OF all], use one in simp)+
qed

lemma find_queue_hierarchy:
  assumes "tree_shape L K r" and "i \<in> L" and "\<forall>i\<in>L. below_of db (t, i) = Some (map (Pair t) (K i))"
    and "\<forall>i\<in>L. match (or_star s) (node_name (node (infos db ! t)) i) = Some (f i)"
  shows "\<exists>ds. find_queue below_of db s [(t, i)] = Some (map (\<lambda>j. Some (t, j)) (filter f ds))
    \<and> distinct ds \<and> set ds = reach (\<lambda>i. set (K i)) (set (K i))"
proof -
  have "i \<notin> reach (\<lambda>i. set (K i)) (set (K i))"
    using below_rank [of L "\<lambda>i. set (K i)" r i i "\<lambda>_. False"] assms(1,2) by (auto simp: tree_shape_def)
  then have "queue_ok (\<lambda>i. set (K i)) [i]" by (simp add: queue_ok_def)
  then show ?thesis
    using find_queue_ok [where K = K and S = "\<lambda>i. set (K i)" and f = f and s = s and below_of = below_of and db = db and t = t, OF assms(1) refl assms(3), of "[i]"] assms(2,4)
    by (simp add: node_name_def node_at_def)
qed


definition search_lists ::
    "YYTOKENTYPE \<Rightarrow> (nat \<Rightarrow> nat list) \<Rightarrow> (nat \<Rightarrow> nat list) \<Rightarrow> nat \<Rightarrow> nat list" where
  "search_lists type C M = (case type of CHILD_SEARCH \<Rightarrow> C | MEMBER_SEARCH \<Rightarrow> M | _ \<Rightarrow> (\<lambda>i. M i @ C i))"

lemma Find_search:
  assumes "hierarchy (node (infos db ! t)) L C M" and "plain_tree db t" and "i \<in> L"
    and "ranked L (\<lambda>i. set (M i @ C i)) r"
    and type: "search_type term \<in> {CHILD_SEARCH, MEMBER_SEARCH, CHILD_OR_MEMBER_SEARCH}"
    and K: "K = search_lists (search_type term) C M"
    and "\<forall>i\<in>L. match (or_star (st_term term)) (node_name (node (infos db ! t)) i) = Some (f i)"
  shows "\<exists>ds. Find db term (Some (t, i)) =
      Some ((if search_type term = CHILD_OR_MEMBER_SEARCH then [Some (t, i)] else []) @ map (\<lambda>j. Some (t, j)) (filter f ds))
    \<and> distinct ds \<and> set ds = reach (\<lambda>i. set (K i)) (set (K i))"
proof -
  note shape = tree_shapes [OF assms(1,4)] and below = below_functions [OF assms(1,2)]
  consider "search_type term = CHILD_SEARCH" | "search_type term = MEMBER_SEARCH"
    | "search_type term = CHILD_OR_MEMBER_SEARCH" using type by blast
  then show ?thesis
  proof cases
    case 1
    then show ?thesis
      using find_queue_hierarchy [OF shape(2) assms(3) _ assms(7), of children_below] below(2) K
      by (auto simp: Find_def Let_def FindChildren_def search_lists_def)
  next
    case 2
    then show ?thesis
      using find_queue_hierarchy [OF shape(3) assms(3) _ assms(7), of members_below] below(1) K
      by (auto simp: Find_def Let_def FindMembers_def search_lists_def)
  next
    case 3
    then show ?thesis
      using find_queue_hierarchy [OF shape(1) assms(3) _ assms(7), of descendants_below] below(3) K
      by (auto simp: Find_def Let_def FindMembersOrChildren_def search_lists_def)
  qed
qed

text \<open>
  C13: The searches of all descendants (\<open>...\<close>, \<open>:::\<close> and \<open>~~~\<close>) end on a tree. They find every node below the
  start, through children, members or both, whose name matches the pattern, and each of them once; the
  search through both has the start as its first answer, whatever its name.
\<close>

theorem Find_descendants:
  assumes "ns = node (infos db ! t)" and "hierarchy ns L C M" and "plain_tree db t" and "i \<in> L"
    and "ranked L (\<lambda>i. set (M i @ C i)) r"
    and "search_type term \<in> {CHILD_SEARCH, MEMBER_SEARCH, CHILD_OR_MEMBER_SEARCH}"
    and "S = (\<lambda>i. set (search_lists (search_type term) C M i))"
    and "successively (\<lambda>a b. \<not> (a = CHR ''*'' \<and> b = CHR ''*'')) (st_term term)"
    and "CHR ''?'' \<notin> set (st_term term)" and "CHR ''%'' \<notin> set (st_term term)"
    and "\<forall>j\<in>L. CHR ''*'' \<notin> set (name (ns j))"
  shows "\<exists>ds. Find db term (Some (t, i)) =
      Some ((if search_type term = CHILD_OR_MEMBER_SEARCH then [Some (t, i)] else []) @ map (\<lambda>j. Some (t, j)) ds)
    \<and> distinct ds \<and> set ds = {j \<in> reach S (S i). glob (or_star (st_term term)) (node_name ns j)}"
proof -
  let ?p = "or_star (st_term term)"
  have p: "successively (\<lambda>a b. \<not> (a = CHR ''*'' \<and> b = CHR ''*'')) ?p" "CHR ''?'' \<notin> set ?p" "CHR ''%'' \<notin> set ?p"
    using assms(8-10) by (simp_all add: or_star_def)
  have "percents ?p = ?p" using p(2) by (auto simp: percents_def intro!: map_idI)
  then have "match ?p (node_name ns j) = Some (glob ?p (node_name ns j))" if "j \<in> L" for j
    using match_returns [OF p(2,3), of "node_name ns j"] match_sound [OF p(1), of "node_name ns j"]
      assms(11) that set_takeWhileD by (fastforce simp: node_name_def trim_cpy_def)
  then obtain ds where "Find db term (Some (t, i)) =
      Some ((if search_type term = CHILD_OR_MEMBER_SEARCH then [Some (t, i)] else [])
        @ map (\<lambda>j. Some (t, j)) (filter (\<lambda>j. glob ?p (node_name ns j)) ds))"
      "distinct ds" "set ds = reach S (S i)"
    using Find_search [OF assms(2) [unfolded assms(1)] assms(3-6) refl, of "\<lambda>j. glob ?p (node_name ns j)"] assms(1,7)
    by auto
  then show ?thesis by (intro exI [of _ "filter (\<lambda>j. glob ?p (node_name ns j)) ds"]) auto
qed

section \<open>The answers one by one\<close>

primrec wild_calls ::
    "nat \<Rightarrow> PINO_DATABASE \<Rightarrow> string \<Rightarrow> u32 \<Rightarrow> node_ptr option list option \<Rightarrow> (status \<times> u32 option) list option" where
  "wild_calls 0 db path usage_mask ctx = Some []"
| "wild_calls (Suc n) db path usage_mask ctx =
     Option.bind (TreeFindNodeWild db path ctx usage_mask)
       (\<lambda>(status, nid, ctx). map_option (Cons (status, nid)) (wild_calls n db path usage_mask ctx))"

lemma wild_calls_rest:
  "open_tree db \<Longrightarrow> wild_calls (Suc (length ns)) db path usage_mask (Some ns) =
    Some (map (\<lambda>n. (TreeSUCCESS, Some (ptr_nid db n))) ns @ [(TreeNMN, None)])"
  by (induction ns) (simp_all add: TreeFindNodeWild_def TreeFindNodeWildRelative_def take_answer_def)

lemma wild_calls_all:
  assumes "open_tree db" "TreeFindNodeWild db path None usage_mask = Some (take_answer db TreeNNF ns)"
  shows "wild_calls (Suc (length ns)) db path usage_mask None =
    Some (map (\<lambda>n. (TreeSUCCESS, Some (ptr_nid db n))) ns @ [(if ns = [] then TreeNNF else TreeNMN, None)])"
  using wild_calls_rest [OF assms(1)] assms(2) by (cases ns) (simp_all add: take_answer_def)

lemma WildParse_all: "WildParse ''***'' = (TreeSUCCESS, [\<lparr>search_type = CHILD_OR_MEMBER_SEARCH, st_term = []\<rparr>], True)"
  by code_simp

definition wanted :: "PINO_DATABASE \<Rightarrow> u32 \<Rightarrow> node_ptr \<Rightarrow> bool" where
  "wanted db usage_mask n \<longleftrightarrow> push_bit (usage_bit db n) 1 AND usage_mask \<noteq> 0"



section \<open>A small tree\<close>

text \<open>The tree of \<open>two_nodes\<close>: the top with the child \<open>B\<close>.\<close>

abbreviation small_db :: PINO_DATABASE where
  "small_db \<equiv> edit_slot (switches False)"

abbreviation small_children :: "nat \<Rightarrow> nat list" where
  "small_children \<equiv> (\<lambda>_. [])(0 := [1])"

lemma small_db:
  "open_tree small_db" "plain_tree small_db 0" "two_nodes = node (infos small_db ! 0)" "default_node small_db = (0, 0)"
  "0 < length (infos small_db)"
  "\<forall>j\<in>{0, 1}. j \<le> nodes (header (infos small_db ! 0)) \<and> j < 2 ^ 24"
  using switches_hyps(2,4) [of False] switches_hyps(3,5) [of False] two_nodes_shape(2)
  by (simp_all add: plain_tree_def infos_def) (simp_all add: edit_slot_def switches_def zero_info_def)

lemma small_names: "node_name two_nodes 1 = ''B''" "\<forall>j\<in>{0, 1}. CHR ''*'' \<notin> set (name (two_nodes j))"
  by (simp_all add: node_name_def trim_cpy_def two_nodes_def)

lemma small_ranked: "ranked {0, 1} (\<lambda>i. set ([] @ small_children i)) (\<lambda>i. 1 - i)"
  by (simp add: ranked_def)

lemma small_reach: "reach (\<lambda>i. set (small_children i)) (set (small_children 0)) = {1}"
  using below_insert [of "\<lambda>_. False" "\<lambda>i. set (small_children i)" 1 "{}"] by simp

lemma TreeFindNode_path_witness: "TreeFindNode small_db ''.b'' = Some (TreeSUCCESS, Some (make_nid 0 1))"
proof -
  have "path_ok [(''.'', ''b'')]" by (simp add: path_name_def name_char_def alphaplus_def letter_def digit_def code_def)
  moreover have "map toupper ''b'' = ''B''" by code_simp
  ultimately show ?thesis
    using TreeFindNode_path [OF small_db(1) _ small_db(2,3) two_nodes_hierarchy small_db(4) _ small_db(5) _ small_db(6),
        of "[(''.'', ''b'')]"] small_names(1)
    by (simp add: path_text_def)
qed

lemma Find_descendants_witness:
  "\<exists>ds. Find small_db \<lparr>search_type = CHILD_SEARCH, st_term = ''B*''\<rparr> (Some (0, 0)) = Some (map (\<lambda>j. Some (0, j)) ds)
    \<and> set ds = {1}"
proof -
  let ?srch = "\<lparr>search_type = CHILD_SEARCH, st_term = ''B*''\<rparr>"
  have S: "(\<lambda>i. set (small_children i)) = (\<lambda>i. set (search_lists (search_type ?srch) small_children (\<lambda>_. []) i))"
    by (simp add: search_lists_def)
  have "glob ''B*'' ''B''" by simp
  then have "{j \<in> {1}. glob (or_star (st_term ?srch)) (node_name two_nodes j)} = {1}"
    using small_names(1) by (auto simp: or_star_def)
  then show ?thesis
    using Find_descendants [OF small_db(3) two_nodes_hierarchy small_db(2) _ small_ranked _ S, of 0] small_names(2) small_reach
    by auto
qed


end
