(* ===== verification/TreePath.thy ===== *)
theory TreePath
  imports TreeFind
begin

text \<open>
  The paths of the nodes (\<open>getPath\<close> and the item \<open>NciFULLPATH\<close> in \<open>TreeGetNci.c\<close>). A path is put together
  from the node upwards: the names of the nodes, each with a dot for a child and a colon for a member, as far
  as the first node that has a tag, or the top of its tree. The theorems say that the search of
  \<open>TreeFindNode.c\<close> finds the node of such a path.

  The buffers of 4096 characters are taken to be large enough. \<open>None\<close> stands for a loop that does not end.
\<close>

section \<open>Paths\<close>

text \<open>The name of a node with its punctuation.\<close>

definition node_part :: "PINO_DATABASE \<Rightarrow> node_ptr \<Rightarrow> string option" where
  "node_part db n =
     map_option (\<lambda>c. (if c then CHR ''.'' else CHR '':'') # trim_cpy (take 12 (name (node_at db n)))) (TreeIsChild db n)"

partial_function (option) full_part :: "PINO_DATABASE \<Rightarrow> node_ptr \<Rightarrow> string \<Rightarrow> string option" where
  "full_part db n part =
     (if parent_of db (Some n) = None then Some part
      else Option.bind (node_part db n) (\<lambda>p. full_part db (the (parent_of db (Some n))) (p @ part)))"

definition full_path :: "PINO_DATABASE \<Rightarrow> node_ptr \<Rightarrow> string option" where
  "full_path db n =
     map_option (\<lambda>part. CHR 0x5C # treenam (tree_info db) @ ''::TOP'' @ part) (full_part db n [])"

text \<open>
  The start of a path at a tag of tree \<open>t\<close>; the name of the tree is left out when it is the tree of the default
  node, if there is one to compare with.
\<close>

definition path_head :: "PINO_DATABASE \<Rightarrow> nat option \<Rightarrow> nat \<Rightarrow> string \<Rightarrow> string" where
  "path_head db dflt t tag =
     CHR 0x5C # (if dflt \<noteq> Some t then treenam (infos db ! t) @ ''::'' else []) @ tag"

text \<open>The loop of \<open>getPath\<close>; \<open>t\<close> is the tree of the node before.\<close>

partial_function (option) path_from ::
    "PINO_DATABASE \<Rightarrow> nat option \<Rightarrow> node_ptr \<Rightarrow> nat \<Rightarrow> string \<Rightarrow> string option" where
  "path_from db dflt n t part =
     (if parent_of db (Some n) = None then Some (path_head db dflt t ''TOP'' @ part)
      else Option.bind (TreeFindNodeTags db (node_to_nid db n) 0)
        (\<lambda>(tag, ctx).
           let t = nid_tree (node_to_nid db n)
           in if tag \<noteq> None then Some (path_head db dflt t (the tag) @ part)
              else if n = (t, root (infos db ! t)) then Some (path_head db dflt t ''TOP'' @ part)
              else Option.bind (node_part db n)
                     (\<lambda>p. path_from db dflt (the (parent_of db (Some n))) t (p @ part))))"

definition getPath :: "PINO_DATABASE \<Rightarrow> node_ptr \<Rightarrow> bool \<Rightarrow> string option" where
  "getPath db n remove_tree_refs =
     path_from db (if remove_tree_refs then find_tree (infos db) 0 (default_node db) else None) n 0 []"

text \<open>The items \<open>NciPATH\<close> and \<open>NciFULLPATH\<close>; a deleted node has a name in lower case.\<close>

definition node_exists :: "PINO_DATABASE \<Rightarrow> node_ptr option \<Rightarrow> bool" where
  "node_exists db n =
     (case n of None \<Rightarrow> False
      | Some n \<Rightarrow> \<not> (97 \<le> code (hd (name (node_at db n))) \<and> code (hd (name (node_at db n))) < 128))"

definition NODE_NOT_FOUND_PATH :: string where
  "NODE_NOT_FOUND_PATH = CHR 0x5C # ''NODE::NOT.FOUND''"

definition NciPATH :: "PINO_DATABASE \<Rightarrow> u32 \<Rightarrow> string option" where
  "NciPATH db nid =
     (if node_exists db (nid_to_node db nid) then getPath db (the (nid_to_node db nid)) False
      else Some NODE_NOT_FOUND_PATH)"

definition NciFULLPATH :: "PINO_DATABASE \<Rightarrow> u32 \<Rightarrow> string option" where
  "NciFULLPATH db nid =
     (if node_exists db (nid_to_node db nid) then full_path db (the (nid_to_node db nid))
      else Some NODE_NOT_FOUND_PATH)"

text \<open>\<open>_TreeGetPath\<close>; the inner option is the null pointer.\<close>

definition TreeGetPath :: "PINO_DATABASE \<Rightarrow> u32 \<Rightarrow> string option option" where
  "TreeGetPath db nid = (if \<not> open_tree db then Some None else map_option Some (NciPATH db nid))"

section \<open>Scanning a path with a tag\<close>

definition tag_word :: "nat \<Rightarrow> string \<Rightarrow> bool" where
  "tag_word n s \<longleftrightarrow> s \<noteq> [] \<and> length s \<le> n \<and> list_all name_char s"

lemma tag_word_chars: "tag_word n s \<Longrightarrow> \<forall>c\<in>set s. name_char c"
  by (simp add: tag_word_def list_all_iff)

lemma takeWhile_word:
  assumes "tag_word n s" "rest = [] \<or> isPunctuation (hd rest)"
  shows "takeWhile alphaplus (s @ rest) = s"
proof -
  have "\<forall>c\<in>set s. alphaplus c" using assms(1) name_char_neq(8) by (auto simp: tag_word_def list_all_iff)
  then have "takeWhile alphaplus (s @ rest) = s @ takeWhile alphaplus rest" by (simp add: takeWhile_append2)
  moreover have "takeWhile alphaplus rest = []" using assms(2) by (cases rest) auto
  ultimately show ?thesis by simp
qed

lemma set_word:
  assumes "tag_word n s" "rest = [] \<or> isPunctuation (hd rest)" "n \<le> m"
  shows "set (chars_of alphaplus (Suc 0) m (s @ rest)) = {1..length s}"
proof -
  have "length s \<le> m" using assms(1,3) by (simp add: tag_word_def)
  then show ?thesis unfolding set_chars_of takeWhile_word [OF assms(1,2)] by auto
qed

lemma best_match_tag_tree:
  assumes tree: "tag_word 12 tree" and tag: "tag_word 24 tag" and rest: "rest = [] \<or> isPunctuation (hd rest)"
  shows "best_match None (rules True) (CHR 0x5C # tree @ ''::'' @ tag @ rest) =
    Some (Token TAG_TREE, length (CHR 0x5C # tree @ ''::'' @ tag))"
proof -
  let ?s = "CHR 0x5C # tree @ ''::'' @ tag @ rest"
  let ?r = "then_rx (lit [CHR 0x5C]) (then_rx (chars_of alphaplus 1 12) (then_rx (lit ''::'') (chars_of alphaplus 1 24)))"
  obtain a as where a: "tree = a # as" using tree by (cases tree) (auto simp: tag_word_def)
  have punct: "isPunctuation (hd (''::'' @ tag @ rest))" by (simp add: isPunctuation_def)
  note w = set_word [OF tree, of "''::'' @ tag @ rest"] set_word [OF tag rest]
  have sets: "set (chars_of alphaplus (Suc 0) 12 (tree @ ''::'' @ tag @ rest)) = {1..length tree}"
      "set (chars_of alphaplus (Suc 0) 24 (tree @ ''::'' @ tag @ rest)) = {1..length tree}"
      "set (chars_of alphaplus (Suc 0) 24 (tag @ rest)) = {1..length tag}"
    using w punct by simp_all
  have colon: "take 2 (drop k (tree @ ''::'' @ tag @ rest)) = ''::'' \<longleftrightarrow> k = length tree" if "1 \<le> k" "k \<le> length tree" for k
  proof
    assume k: "take 2 (drop k (tree @ ''::'' @ tag @ rest)) = ''::''"
    show "k = length tree"
    proof (rule ccontr)
      assume "k \<noteq> length tree"
      then have "k < length tree" using that by simp
      then have "hd (take 2 (drop k (tree @ ''::'' @ tag @ rest))) = tree ! k"
        by (simp add: hd_drop_conv_nth nth_append)
      moreover have "tree ! k \<noteq> CHR '':''"
        using tag_word_chars [OF tree] name_char_neq(10) \<open>k < length tree\<close> by simp
      ultimately show False using k by simp
    qed
  qed simp
  define u where "u = tree @ ''::'' @ tag @ rest"
  have u: "take (Suc (Suc 0)) (drop k u) = ''::'' \<longleftrightarrow> k = length tree" if "k \<in> {1..length tree}" for k
    using colon [of k] that unfolding u_def numeral_2_eq_2 atLeastAtMost_iff by blast
  have ends: "drop (Suc (Suc 0)) (drop (length tree) u) = tag @ rest" by (simp add: u_def)
  have main: "set (?r ?s) = (\<lambda>j. Suc (length tree + (2 + j))) ` {1..length tag}"
  proof -
    have "set (then_rx (lit ''::'') (chars_of alphaplus 1 24) (drop k u)) =
        (if k = length tree then (+) 2 ` {1..length tag} else {})" if "k \<in> {1..length tree}" for k
      using u [OF that] ends sets(3) by (auto simp: set_then_rx set_lit simp del: drop_drop)
    then have "set (then_rx (chars_of alphaplus 1 12) (then_rx (lit ''::'') (chars_of alphaplus 1 24)) u)
        = (\<Union>k\<in>{1..length tree}. (+) k ` (if k = length tree then (+) 2 ` {1..length tag} else {}))"
      unfolding set_then_rx [of "chars_of alphaplus 1 12"] using sets(1) by (simp add: u_def)
    also have "\<dots> = (\<lambda>j. length tree + (2 + j)) ` {1..length tag}" 
    proof -
      have one: "n \<in> A \<Longrightarrow> (\<Union>k\<in>A. (+) k ` (if k = n then X else {})) = (+) n ` X" for n :: nat and A X
        by (auto split: if_splits)
      show ?thesis by (subst one) (use a in \<open>simp_all add: image_image\<close>)
    qed
    finally have "set (then_rx (lit [CHR 0x5C]) (then_rx (chars_of alphaplus 1 12) (then_rx (lit ''::'') (chars_of alphaplus 1 24)))
        (CHR 0x5C # u)) = (\<lambda>j. Suc (length tree + (2 + j))) ` {1..length tag}"
      by (simp add: set_then_rx [of "lit [CHR 0x5C]"] set_lit image_image)
    then show ?thesis by (simp add: u_def)
  qed
  have len: "1 \<le> length tag" "length tree \<le> 12" using tag tree by (cases tag; simp add: tag_word_def)+
  have any: "k \<le> 1" if "k \<in> set (chars_of (\<lambda>c. c \<noteq> CHR 0x0A) (Suc 0) (Suc 0) s)" for k s
    using that by (simp add: set_chars_of)
  have no: "set (chars_of alphaplus (Suc 0) 12 ?s) = {}"
    by (simp add: set_chars_of alphaplus_def letter_def digit_def code_def)
  show ?thesis
  proof (rule best_match_unique [where rs = "[]" and r = ?r and rs' = "tl (rules True)"])
    show "length (CHR 0x5C # tree @ ''::'' @ tag) \<in> set (?r ?s)" unfolding main using len by force
    show "\<forall>k\<in>set (?r ?s). k \<le> length (CHR 0x5C # tree @ ''::'' @ tag)" unfolding main by simp
    show "\<forall>(a, r)\<in>set (tl (rules True)). \<forall>k\<in>set (r ?s). k \<le> length (CHR 0x5C # tree @ ''::'' @ tag)"
      using no sets(2) any by (auto simp: rules_def set_then_rx set_lit or_rx_def maybe_rx_def intro: le_trans)
  qed (simp_all add: rules_def)
qed


text \<open>Three characters of punctuation do not follow each other.\<close>

fun no_three :: "string \<Rightarrow> bool" where
  "no_three (a # b # c # s) \<longleftrightarrow> \<not> (isPunctuation a \<and> isPunctuation b \<and> isPunctuation c) \<and> no_three (b # c # s)"
| "no_three _ = True"

lemma no_three_Cons: "\<not> isPunctuation a \<Longrightarrow> no_three s \<Longrightarrow> no_three (a # s)"
  by (cases s rule: no_three.cases) auto

lemma no_three_append: "\<forall>c\<in>set s. \<not> isPunctuation c \<Longrightarrow> no_three t \<Longrightarrow> no_three (s @ t)"
  by (induction s) (auto simp: no_three_Cons)

lemma no_three_spaced: "spaced s \<Longrightarrow> no_three s"
  by (induction s rule: no_three.induct) auto

lemma no_three_drop: "no_three s \<Longrightarrow> no_three (drop k s)"
proof (induction s arbitrary: k rule: no_three.induct)
  case (1 a b c s)
  then show ?case by (cases k) auto
qed (auto simp: drop_Cons' )

lemma no_three_no_search: "no_three s \<Longrightarrow> isPunctuation c \<Longrightarrow> \<not> strstr s [c, c, c]"
proof
  assume s: "no_three s" "isPunctuation c" "strstr s [c, c, c]"
  have "length [c, c, c] = 3" by simp
  then obtain k where k: "take 3 (drop k s) = [c, c, c]" using s(3) unfolding strstr_def list_ex_iff by metis
  have "drop k s = [c, c, c] @ drop 3 (drop k s)" using append_take_drop_id [of 3 "drop k s"] k by simp
  then have "\<not> no_three (drop k s)" using s(2) by (metis append_Cons no_three.simps(1))
  then show False using no_three_drop [OF s(1)] by simp
qed

abbreviation steps_ok :: "steps \<Rightarrow> bool" where
  "steps_ok \<equiv> list_all (\<lambda>(p, nm). p \<in> {''.'', '':''} \<and> path_name nm)"

definition tag_path :: "string \<Rightarrow> string \<Rightarrow> steps \<Rightarrow> string" where
  "tag_path tree tag ss = CHR 0x5C # tree @ ''::'' @ tag @ path_text ss"

lemma spaced_steps: "steps_ok ss \<Longrightarrow> spaced (path_text ss) \<and> (path_text ss = [] \<or> isPunctuation (hd (path_text ss)))"
proof -
  assume ok: "steps_ok ss"
  show ?thesis
  proof (cases ss)
    case Nil
    then show ?thesis by (simp add: path_text_def)
  next
    case (Cons s ss')
    then have "path_ok ss" using ok by (cases s) auto
    then show ?thesis using spaced_path scan_path_steps [OF ok, of False] by blast
  qed
qed

lemma tag_path_spaced:
  assumes "tag_word 12 tree" "tag_word 24 tag" "steps_ok ss"
  shows "no_three (tag_path tree tag ss)"
proof -
  have w: "\<forall>c\<in>set tree. \<not> isPunctuation c" "\<forall>c\<in>set tag. \<not> isPunctuation c"
    using assms(1,2) tag_word_chars name_char_neq(1) by blast+
  obtain a as where a: "tag = a # as" using assms(2) by (cases tag) (auto simp: tag_word_def)
  have "no_three (tag @ path_text ss)"
    using w(2) no_three_spaced spaced_steps [OF assms(3)] by (intro no_three_append) auto
  then have "no_three (''::'' @ tag @ path_text ss)" using a w(2) by (cases "as @ path_text ss") auto
  then have "no_three (tree @ ''::'' @ tag @ path_text ss)" by (rule no_three_append [OF w(1)])
  then show ?thesis unfolding tag_path_def by (intro no_three_Cons) (simp_all add: isPunctuation_def)
qed

lemma tag_path_chars:
  assumes "tag_word 12 tree" "tag_word 24 tag" "steps_ok ss"
  shows "\<forall>c\<in>set (tag_path tree tag ss). \<not> isspace c \<and> c \<noteq> CHR ''*'' \<and> c \<noteq> CHR ''%'' \<and> c \<noteq> CHR ''~'' \<and> c \<noteq> CHR ''^''"
proof
  fix c assume "c \<in> set (tag_path tree tag ss)"
  then consider "c = CHR 0x5C" | "c = CHR '':''" | "c \<in> set tree \<union> set tag" | "c \<in> set (path_text ss)"
    by (auto simp: tag_path_def)
  then show "\<not> isspace c \<and> c \<noteq> CHR ''*'' \<and> c \<noteq> CHR ''%'' \<and> c \<noteq> CHR ''~'' \<and> c \<noteq> CHR ''^''"
  proof cases
    case 3
    then have "name_char c" using assms(1,2) tag_word_chars by blast
    then show ?thesis by (simp add: name_char_neq)
  next
    case 4
    then have "path_ok ss" using assms(3) by (cases ss) (auto simp: path_text_def)
    then show ?thesis using path_no_space 4 by blast
  qed (simp_all add: isspace_def code_def)
qed

lemma WildParse_tag_path:
  assumes "tag_word 12 tree" "tag_word 24 tag" "steps_ok ss"
  shows "WildParse (tag_path tree tag ss) =
    (TreeSUCCESS, \<lparr>search_type = TAG_TREE, st_term = CHR 0x5C # map toupper (tree @ ''::'' @ tag)\<rparr> # map step_term ss, False)"
proof -
  let ?p = "tag_path tree tag ss" and ?w = "CHR 0x5C # tree @ ''::'' @ tag"
  note chars = tag_path_chars [OF assms] and spaced = tag_path_spaced [OF assms]
  have s: "old_searches (strtrim ?p) = ?p"
    using chars strtrim_id [of ?p] old_searches_id [of ?p] by auto
  have p: "?p = ?w @ path_text ss" "?p \<noteq> []" by (simp_all add: tag_path_def)
  have "set ?w \<subseteq> set ?p" unfolding p(1) by auto
  then have "\<forall>c\<in>set ?w. \<not> isspace c" using chars by blast
  then have "takeWhile (\<lambda>c. \<not> isspace c) ?w = ?w" by (simp only: takeWhile_eq_all_conv)
  moreover have "dropWhile isPunctuation ?w = ?w" by (simp add: isPunctuation_def)
  ultimately have added: "addSearchTerm TAG_TREE ?w = \<lparr>search_type = TAG_TREE, st_term = CHR 0x5C # map toupper (tree @ ''::'' @ tag)\<rparr>"
    by (simp only: addSearchTerm_def upcaseAndTrim_def) (simp add: toupper_def)
  have "best_match None (rules True) ?p = Some (Token TAG_TREE, length ?w)"
    using best_match_tag_tree [OF assms(1,2), of "path_text ss"] spaced_steps [OF assms(3)] by (simp add: tag_path_def)
  moreover have "take (length ?w) ?p = ?w" "drop (max 1 (length ?w)) ?p = path_text ss" using p(1) by simp_all
  ultimately have "scan_path True ?p =
      Some (\<lparr>search_type = TAG_TREE, st_term = CHR 0x5C # map toupper (tree @ ''::'' @ tag)\<rparr> # map step_term ss)"
    using p(2) scan_path_steps [OF assms(3), of False] added by (subst scan_path.simps) (simp del: length_append)
  moreover have "SquishSearches (\<lparr>search_type = TAG_TREE, st_term = w\<rparr> # map step_term ss)
      = \<lparr>search_type = TAG_TREE, st_term = w\<rparr> # map step_term ss" for w
    using SquishSearches_steps [of ss] by (cases ss) (simp_all add: merges_def)
  moreover have "\<not> wild_path ?p"
  proof -
    have "\<not> strstr ?p [c, c, c]" if "isPunctuation c" for c by (rule no_three_no_search [OF spaced that])
    then show ?thesis using chars by (auto simp: wild_path_def isPunctuation_def)
  qed
  ultimately show ?thesis using p(2) by (simp add: WildParse_def s)
qed


section \<open>Searching from a tag\<close>

text \<open>
  The names in a tree as the edit operations make them: words of the characters of a path, in upper case, with
  blanks up to the length of the field. No tag is called \<open>TOP\<close>, which stands for the top of the tree.
\<close>

definition upper_word :: "nat \<Rightarrow> string \<Rightarrow> bool" where
  "upper_word n s \<longleftrightarrow> tag_word n s \<and> map toupper s = s"

definition tidy :: "TREE_INFO \<Rightarrow> nat set \<Rightarrow> bool" where
  "tidy info L \<longleftrightarrow> upper_word 12 (treenam info)
     \<and> (\<forall>j\<in>L. upper_word 12 (node_name (node info) j))
     \<and> (\<forall>b\<in>set (tag_info info). upper_word 24 (trim_cpy (tag_name b)) \<and> trim_cpy (tag_name b) \<noteq> ''TOP''
          \<and> tag_name b = trim_cpy (tag_name b) @ replicate (24 - length (trim_cpy (tag_name b))) CHR '' '')"

lemma upper_wordD:
  assumes "upper_word n s"
  shows "tag_word n s" "map toupper s = s" "plain_name s" "CHR '':'' \<notin> set s" "CHR '' '' \<notin> set s"
proof -
  show w: "tag_word n s" "map toupper s = s" using assms by (simp_all add: upper_word_def)
  note c = tag_word_chars [OF w(1)]
  have no: "\<not> name_char CHR ''*''" "\<not> name_char CHR ''?''" "\<not> name_char CHR ''%''" "\<not> name_char CHR '':''"
    using alphaplus_punct [of "CHR '':''"] by (simp_all add: name_char_def isPunctuation_def)
  show "plain_name s" unfolding plain_name_def using c no(1-3) by blast
  show "CHR '':'' \<notin> set s" using c no(4) by blast
  show "CHR '' '' \<notin> set s" using c not_name_char(3) by blast
qed

text \<open>The node a tag stands for.\<close>

definition anchor :: "TREE_INFO \<Rightarrow> string \<Rightarrow> nat \<Rightarrow> bool" where
  "anchor info tag k \<longleftrightarrow> tag = ''TOP'' \<and> k = 0 \<or> (\<exists>b\<in>set (tag_info info). trim_cpy (tag_name b) = tag \<and> node_idx b = k)"

lemma tidy_distinct:
  assumes "tidy info L" "tags_ok info" shows "distinct (map (\<lambda>b. trim_cpy (tag_name b)) (tag_info info))"
proof -
  have "inj_on tag_name (set (tag_info info))" "distinct (tag_info info)"
    using tags_ok_distinct(2) [OF assms(2)] by (simp_all add: distinct_map)
  moreover have "a = b" if "a \<in> set (tag_info info)" "b \<in> set (tag_info info)" "trim_cpy (tag_name a) = trim_cpy (tag_name b)" for a b
  proof -
    have "tag_name a = tag_name b" using assms(1) that unfolding tidy_def by metis
    then show ?thesis using calculation(1) that by (auto dest: inj_onD)
  qed
  ultimately show ?thesis by (simp add: distinct_map inj_on_def)
qed

lemma tags_matching_unique:
  assumes "distinct (map (\<lambda>b. trim_cpy (tag_name b)) bs)" "b \<in> set bs" "trim_cpy (tag_name b) = tag" "plain_name tag"
    and "tag_target db t (node_idx b) = Some (Some n)"
  shows "tags_matching db t tag False bs = Some [Some n]"
  using assms
proof (induction bs)
  case (Cons x xs)
  show ?case
  proof (cases "x = b")
    case False
    then have "trim_cpy (tag_name x) \<noteq> tag" using Cons.prems by force
    then show ?thesis using Cons False by (simp add: match_plain)
  qed (use Cons.prems in \<open>simp add: match_plain\<close>)
qed simp

lemma tag_target_main:
  assumes "plain_tree db 0" "k \<le> nodes (header (tree_info db))" "k < 2 ^ 24"
  shows "tag_target db 0 k = Some (Some (0, k))"
proof -
  have "usage (node (tree_info db) k) \<noteq> TreeUSAGE_SUBTREE_REF"
    using assms(1) by (simp add: plain_tree_def plain_usage_def infos_def)
  then show ?thesis using main_tree_nid [of 0 db k] assms(2,3) by (simp add: tag_target_def node_at_def infos_def)
qed

lemma FindTags_anchor:
  assumes "tidy (tree_info db) L" "tags_ok (tree_info db)" "plain_tree db 0" "nodes (header (tree_info db)) < 2 ^ 24"
    and "anchor (tree_info db) tag k" "upper_word 24 tag"
  shows "FindTags db 0 tag = Some [Some (0, k)]"
proof (cases "tag = ''TOP''")
  case True
  then have "k = 0" using assms(1,5) by (auto simp: anchor_def tidy_def)
  moreover have "match ''TOP'' ''TOP'' = Some True" by simp
  ultimately show ?thesis using True tag_target_main [OF assms(3), of 0] by (simp add: FindTags_def Let_def)
next
  case False
  then obtain b where b: "b \<in> set (tag_info (tree_info db))" "trim_cpy (tag_name b) = tag" "node_idx b = k"
    using assms(5) by (auto simp: anchor_def)
  have k: "k < nodes (header (tree_info db))" and len: "length (tag_info (tree_info db)) = tags (header (tree_info db))"
    using assms(2) b by (auto simp: tags_ok_def)
  note plain = upper_wordD(3) [OF assms(6)]
  have "tags_matching db 0 tag False (tag_info (tree_info db)) = Some [Some (0, k)]"
    using tags_matching_unique [OF tidy_distinct [OF assms(1,2)] b(1,2) plain, of db 0 "(0, k)"]
      tag_target_main [OF assms(3), of k] k assms(4) b(3) by simp
  then show ?thesis
    using False len plain plain_name_not_wild(2) [OF plain] by (simp add: FindTags_def Let_def infos_def match_plain eq_commute)
qed

lemma FindTagWild_main:
  assumes "upper_word 12 (treenam (tree_info db))" "CHR '':'' \<notin> set tag"
  shows "FindTagWild db \<lparr>search_type = TAG_TREE, st_term = CHR 0x5C # treenam (tree_info db) @ ''::'' @ tag\<rparr> = FindTags db 0 tag"
proof -
  let ?tree = "treenam (tree_info db)"
  note w = upper_wordD [OF assms(1)]
  have "takeWhile (\<lambda>c. c \<noteq> CHR '':'') (?tree @ x) = ?tree @ takeWhile (\<lambda>c. c \<noteq> CHR '':'') x" for x
    using w(4) by (intro takeWhile_append2) auto
  then have tree: "takeWhile (\<lambda>c. c \<noteq> CHR '':'') (?tree @ CHR '':'' # CHR '':'' # tag) = ?tree" by simp
  have "\<not> is_wild2 (CHR 0x5C # ?tree)" using plain_name_not_wild(2) [OF w(3)] by (simp add: is_wild2_def)
  then have "tags_of_trees db (CHR 0x5C # ?tree) tag 0 = FindTags db 0 tag"
    using match_plain [OF w(3)]
    by (subst tags_of_trees.simps) (cases "FindTags db 0 tag"; simp add: infos_def)
  then show ?thesis by (simp add: FindTagWild_def Let_def tree)
qed


section \<open>The loops upwards\<close>

text \<open>Names are unique among the nodes under one node.\<close>

definition unique_names :: "(nat \<Rightarrow> NODE) \<Rightarrow> nat set \<Rightarrow> (nat \<Rightarrow> nat list) \<Rightarrow> bool" where
  "unique_names ns L K \<longleftrightarrow> (\<forall>p\<in>L. distinct (map (node_name ns) (K p)))"

lemma paths_append: "paths S nm (ts @ us) i = concat (map (paths S nm us) (paths S nm ts i))"
proof (induction ts arbitrary: i)
  case (Cons a ts)
  have "concat (map (\<lambda>j. concat (map f (g j))) xs) = concat (map f (concat (map g xs)))"
    for f :: "nat \<Rightarrow> nat list" and g :: "nat \<Rightarrow> nat list" and xs by (induction xs) auto
  then show ?case using Cons.IH by (simp cong: map_cong)
qed simp

lemma filter_unique: "distinct (map nm xs) \<Longrightarrow> j \<in> set xs \<Longrightarrow> filter (\<lambda>i. nm i = nm j) xs = [j]"
proof (induction xs)
  case (Cons x xs)
  show ?case
  proof (cases "x = j")
    case True
    then have "nm j \<notin> nm ` set xs" using Cons.prems(1) by simp
    then have "\<forall>i\<in>set xs. nm i \<noteq> nm j" by (metis imageI)
    then show ?thesis using True by simp
  next
    case False
    then have "nm x \<noteq> nm j" using Cons.prems by auto
    then show ?thesis using Cons False by simp
  qed
qed simp

lemma paths_step:
  assumes "paths S nm ts k = [p]" "j \<in> set (S p)" "distinct (map nm (S p))"
  shows "paths S nm (ts @ [nm j]) k = [j]"
proof -
  have "paths S nm [] = (\<lambda>i. [i])" by (rule ext) simp
  then have "paths S nm (ts @ [nm j]) k = filter (\<lambda>i. nm i = nm j) (S p)"
    using assms(1) by (simp add: paths_append)
  also have "\<dots> = [j]" by (rule filter_unique [OF assms(3,2)])
  finally show ?thesis .
qed

abbreviation step_names :: "steps \<Rightarrow> string list" where
  "step_names ss \<equiv> map snd ss"

lemma node_part_main:
  assumes h: "hierarchy (node (tree_info db)) L C M" and plain: "plain_tree db 0" and p: "p \<in> L" "j \<in> set (C p) \<union> set (M p)"
    and j: "length (name (node (tree_info db) j)) = 12"
  shows "\<exists>c. c \<in> {''.'', '':''} \<and> node_part db (0, j) = Some (c @ node_name (node (tree_info db)) j)"
proof -
  note lists = hierarchy_lists [OF h p(1)]
  have "parent0 (node (tree_info db)) j = Some p" by (rule lists(5) [OF p(2)])
  then have "TreeIsChild db (0, j) = Some (j \<in> set (C p))"
    using child_or_member [OF plain refl, of j p "C p" "M p"] lists(1,3) by (simp add: infos_def)
  then show ?thesis using j
    by (intro exI [of _ "if j \<in> set (C p) then ''.'' else '':''"]) (simp add: node_part_def node_at_def infos_def node_name_def)
qed

text \<open>The first tag of a node, if it has any.\<close>

lemma first_tag:
  assumes "open_tree db" "tags_ok (tree_info db)" "j < nodes (header (tree_info db))" "nodes (header (tree_info db)) < 2 ^ 24"
  shows "\<exists>tag ctx. TreeFindNodeTags db (make_nid 0 j) 0 = Some (tag, ctx)
    \<and> (\<forall>s. tag = Some s \<longrightarrow> anchor (tree_info db) s j
          \<and> (\<exists>b\<in>set (tag_info (tree_info db)). trim_cpy (tag_name b) = s))"
proof -
  let ?info = "tree_info db"
  have nid: "nid_to_tree_idx db (make_nid 0 j) = (Some 0, j)"
    using unat_tree_part [of 0 j] assms(3,4) by (simp add: nid_to_tree_idx_def infos_def)
  have len: "length (tag_info ?info) = tags (header ?info)"
    and chain: "tag_chain (tag_info ?info) (tag_link (node ?info j)) (tag_nums (tag_info ?info) j)"
    and names: "\<forall>b\<in>set (tag_info ?info). valid_tag (tag_name b)"
    using assms(2,3) by (auto simp: tags_ok_def)
  show ?thesis
  proof (cases "tag_nums (tag_info ?info) j")
    case Nil
    then show ?thesis using chain nid assms(1) by (simp add: TreeFindNodeTags_def Let_def infos_def)
  next
    case (Cons s xs)
    then have "s \<in> set (tag_nums (tag_info ?info) j)" by simp
    then have s: "1 \<le> s" "s \<le> length (tag_info ?info)" "node_idx (tag_info ?info ! (s - 1)) = j"
      by (simp_all add: set_tag_nums)
    let ?b = "tag_info ?info ! (s - 1)"
    have b: "?b \<in> set (tag_info ?info)" using s(1,2) by simp
    then have "length (tag_name ?b) = 24" using names by (auto simp: valid_tag_def)
    moreover have "tag_link (node ?info j) = int s" using chain Cons by simp
    ultimately have "TreeFindNodeTags db (make_nid 0 j) 0 =
        Some (Some (trim_cpy (tag_name ?b)), if next_tag ?b = 0 then -1 else next_tag ?b)"
      using nid assms(1) s(1,2) len
      by (simp add: TreeFindNodeTags_def Let_def infos_def trim_cpy_def nat_diff_distrib)
    then show ?thesis using b s(3) by (auto simp: anchor_def)
  qed
qed

lemma path_from_step:
  assumes "parent_of db (Some n) = Some p" "TreeFindNodeTags db (node_to_nid db n) 0 = Some (tag, ctx)"
    "t' = nid_tree (node_to_nid db n)"
  shows "path_from db dflt n t part =
    (if tag \<noteq> None then Some (path_head db dflt t' (the tag) @ part)
     else if n = (t', root (infos db ! t')) then Some (path_head db dflt t' ''TOP'' @ part)
     else Option.bind (node_part db n) (\<lambda>x. path_from db dflt p t' (x @ part)))"
  using assms by (subst path_from.simps) (simp add: Let_def)

text \<open>The path of a node leads to it from the node the path starts at; the same without tags.\<close>

definition leads :: "PINO_DATABASE \<Rightarrow> (nat \<Rightarrow> nat list) \<Rightarrow> (string \<Rightarrow> string) \<Rightarrow> string \<Rightarrow> nat \<Rightarrow> nat \<Rightarrow> bool" where
  "leads db K f tag k i \<longleftrightarrow> (\<exists>ss. steps_ok ss \<and> (\<forall>s\<in>set ss. map toupper (snd s) = snd s)
     \<and> (\<forall>part. f part = tag @ path_text ss @ part) \<and> paths K (node_name (node (tree_info db))) (step_names ss) k = [i])"

lemma leads_start: "(\<And>part. f part = tag @ part) \<Longrightarrow> leads db K f tag i i"
  by (auto simp: leads_def path_text_def intro!: exI [of _ "[]"])

lemma leads_step:
  assumes "leads db K f tag k p" "\<And>part. g part = f (c @ node_name (node (tree_info db)) j @ part)" "c \<in> {''.'', '':''}"
    and "upper_word 12 (node_name (node (tree_info db)) j)" "j \<in> set (K p)" "distinct (map (node_name (node (tree_info db))) (K p))"
  shows "leads db K g tag k j"
proof -
  let ?nm = "node_name (node (tree_info db))"
  obtain ss where ss: "steps_ok ss" "\<forall>s\<in>set ss. map toupper (snd s) = snd s" "\<And>part. f part = tag @ path_text ss @ part"
      "paths K ?nm (step_names ss) k = [p]"
    using assms(1) by (auto simp: leads_def)
  let ?ss = "ss @ [(c, ?nm j)]"
  have "steps_ok ?ss" "\<forall>s\<in>set ?ss. map toupper (snd s) = snd s"
    using ss(1,2) assms(3,4) by (auto simp: upper_word_def tag_word_def path_name_def)
  moreover have "g part = tag @ path_text ?ss @ part" for part
    using assms(2) ss(3) by (simp add: path_text_def)
  moreover have "paths K ?nm (step_names ?ss) k = [j]"
    using paths_step [OF ss(4) assms(5,6)] by simp
  ultimately show ?thesis unfolding leads_def by blast
qed


text \<open>A tree as the theorems on paths need it: well linked, with its tags, and with tidy and unique names.\<close>

definition path_tree :: "PINO_DATABASE \<Rightarrow> nat set \<Rightarrow> (nat \<Rightarrow> nat list) \<Rightarrow> (nat \<Rightarrow> nat list) \<Rightarrow> bool" where
  "path_tree db L C M \<longleftrightarrow>
     (let info = tree_info db; ns = node info
      in open_tree db \<and> plain_tree db 0 \<and> hierarchy ns L C M \<and> unique_names ns L (\<lambda>i. M i @ C i)
         \<and> tidy info L \<and> tags_ok info \<and> 0 \<in> L \<and> parent (ns 0) = 0 \<and> root info = 0
         \<and> L \<subseteq> {..<nodes (header info)} \<and> nodes (header info) < 2 ^ 24)"

lemma path_treeD:
  assumes "path_tree db L C M"
  shows "open_tree db" "plain_tree db 0" "hierarchy (node (tree_info db)) L C M"
    "unique_names (node (tree_info db)) L (\<lambda>i. M i @ C i)" "tidy (tree_info db) L" "tags_ok (tree_info db)" "0 \<in> L"
    "parent (node (tree_info db) 0) = 0" "root (tree_info db) = 0"
    "j \<in> L \<Longrightarrow> j < nodes (header (tree_info db))" "nodes (header (tree_info db)) < 2 ^ 24"
  using assms unfolding path_tree_def Let_def by blast+

lemma path_tree_node:
  assumes t: "path_tree db L C M" and p: "p \<in> L" "j \<in> set (M p @ C p)"
  shows "j \<in> L" "parent_of db (Some (0, j)) = Some (0, p)" "upper_word 12 (node_name (node (tree_info db)) j)"
    "\<exists>c. c \<in> {''.'', '':''} \<and> node_part db (0, j) = Some (c @ node_name (node (tree_info db)) j)"
    "distinct (map (node_name (node (tree_info db))) (M p @ C p))"
    "node_to_nid db (0, j) = make_nid 0 j" "nid_tree (make_nid 0 j) = 0" "j \<noteq> 0"
proof -
  note d = path_treeD [OF t]
  have j: "j \<in> set (C p) \<union> set (M p)" using p(2) by auto
  note lists = hierarchy_lists [OF d(3) p(1)]
  show L: "j \<in> L" using lists(2,4) j by blast
  have par: "parent0 (node (tree_info db)) j = Some p" by (rule lists(5) [OF j])
  then show "parent_of db (Some (0, j)) = Some (0, p)" using d(2) by (simp add: infos_def)
  show "j \<noteq> 0" using par d(8) by (cases "j = 0") (simp_all add: follow_def)
  show "upper_word 12 (node_name (node (tree_info db)) j)" using d(5) L by (simp add: tidy_def)
  have "length (name (node (tree_info db) j)) = 12" using d(3) L by (auto simp: hierarchy_def valid_name_def)
  then show "\<exists>c. c \<in> {''.'', '':''} \<and> node_part db (0, j) = Some (c @ node_name (node (tree_info db)) j)"
    by (rule node_part_main [OF d(3,2) p(1) j])
  show "distinct (map (node_name (node (tree_info db))) (M p @ C p))" using d(4) p(1) by (simp add: unique_names_def)
  show "node_to_nid db (0, j) = make_nid 0 j"
    using main_tree_nid [of 0 db j] d(10) [OF L] d(11) by (simp add: infos_def)
  show "nid_tree (make_nid 0 j) = 0" using unat_tree_part [of 0 j] d(10) [OF L] d(11) by simp
qed

lemma upper_TOP: "upper_word 24 ''TOP''"
proof -
  have "map toupper ''TOP'' = ''TOP''" by code_simp
  then show ?thesis
    by (simp add: upper_word_def tag_word_def name_char_def alphaplus_def letter_def digit_def code_def)
qed

lemma path_from_leads:
  assumes t: "path_tree db L C M" and i: "i \<in> reach (\<lambda>i. set (M i @ C i)) {0}"
  shows "i \<in> L \<and> (\<exists>k tag f. k \<in> L \<and> (\<forall>part. path_from db None (0, i) 0 part = Some (f part)) \<and> anchor (tree_info db) tag k
    \<and> upper_word 24 tag \<and> leads db (\<lambda>i. M i @ C i) f (path_head db None 0 tag) k i)"
  using i
proof induction
  case (start i)
  note d = path_treeD [OF t]
  have "parent_of db (Some (0, 0)) = None" using d(2,8) by (simp add: infos_def)
  then have "path_from db None (0, 0) 0 part = Some (path_head db None 0 ''TOP'' @ part)" for part
    by (subst path_from.simps) simp
  moreover have "anchor (tree_info db) ''TOP'' 0" by (simp add: anchor_def)
  moreover have "leads db (\<lambda>i. M i @ C i) (\<lambda>part. path_head db None 0 ''TOP'' @ part) (path_head db None 0 ''TOP'') 0 0"
    by (rule leads_start) simp
  ultimately show ?case using start d(7) upper_TOP
    by (intro conjI exI [of _ 0] exI [of _ "''TOP''"] exI [of _ "\<lambda>part. path_head db None 0 ''TOP'' @ part"]) auto
next
  case (down p j)
  note d = path_treeD [OF t]
  obtain k tag f where k: "k \<in> L" and IH: "p \<in> L" "\<And>part. path_from db None (0, p) 0 part = Some (f part)" "anchor (tree_info db) tag k"
      "upper_word 24 tag" "leads db (\<lambda>i. M i @ C i) f (path_head db None 0 tag) k p"
    using down.IH by blast
  note j = path_tree_node [OF t IH(1) down.hyps(3)]
  obtain own ctx where own: "TreeFindNodeTags db (make_nid 0 j) 0 = Some (own, ctx)"
      "\<forall>s. own = Some s \<longrightarrow> anchor (tree_info db) s j \<and> (\<exists>b\<in>set (tag_info (tree_info db)). trim_cpy (tag_name b) = s)"
    using first_tag [OF d(1,6) d(10) [OF j(1)] d(11)] by blast
  obtain c where c: "c \<in> {''.'', '':''}" "node_part db (0, j) = Some (c @ node_name (node (tree_info db)) j)"
    using j(4) by blast
  have step: "path_from db None (0, j) 0 part =
      (if own \<noteq> None then Some (path_head db None 0 (the own) @ part)
       else Some (f (c @ node_name (node (tree_info db)) j @ part)))" for part
    using path_from_step [OF j(2), of own ctx 0] own(1) c(2) IH(2) d(9) j(6-8) by (simp add: infos_def)
  show ?case
  proof (cases own)
    case None
    have "leads db (\<lambda>i. M i @ C i) (\<lambda>part. f (c @ node_name (node (tree_info db)) j @ part)) (path_head db None 0 tag) k j"
      by (rule leads_step [OF IH(5) refl c(1) j(3) down.hyps(3) j(5)])
    moreover have "path_from db None (0, j) 0 part = Some (f (c @ node_name (node (tree_info db)) j @ part))" for part
      using step None by simp
    ultimately show ?thesis using j(1) k IH(3,4)
      by (intro conjI exI [of _ k] exI [of _ tag] exI [of _ "\<lambda>part. f (c @ node_name (node (tree_info db)) j @ part)"]) auto
  next
    case (Some s)
    have "upper_word 24 s" using own(2) Some d(5) by (auto simp: tidy_def)
    moreover have "anchor (tree_info db) s j" using own(2) Some by blast
    moreover have "leads db (\<lambda>i. M i @ C i) (\<lambda>part. path_head db None 0 s @ part) (path_head db None 0 s) j j"
      by (rule leads_start) simp
    moreover have "path_from db None (0, j) 0 part = Some (path_head db None 0 s @ part)" for part
      using step Some by simp
    ultimately show ?thesis using j(1)
      by (intro conjI exI [of _ j] exI [of _ s] exI [of _ "\<lambda>part. path_head db None 0 s @ part"]) auto
  qed
qed

lemma full_part_leads:
  assumes t: "path_tree db L C M" and i: "i \<in> reach (\<lambda>i. set (M i @ C i)) {0}"
  shows "i \<in> L \<and> (\<exists>f. (\<forall>part. full_part db (0, i) part = Some (f part)) \<and> leads db (\<lambda>i. M i @ C i) f [] 0 i)"
  using i
proof induction
  case (start i)
  note d = path_treeD [OF t]
  have "parent_of db (Some (0, 0)) = None" using d(2,8) by (simp add: infos_def)
  then have "full_part db (0, 0) part = Some part" for part by (subst full_part.simps) simp
  moreover have "leads db (\<lambda>i. M i @ C i) (\<lambda>part. part) [] 0 0" by (rule leads_start) simp
  ultimately show ?case using start d(7) by (intro conjI exI [of _ "\<lambda>part. part"]) auto
next
  case (down p j)
  obtain f where IH: "p \<in> L" "\<And>part. full_part db (0, p) part = Some (f part)" "leads db (\<lambda>i. M i @ C i) f [] 0 p"
    using down.IH by blast
  note j = path_tree_node [OF t IH(1) down.hyps(3)]
  obtain c where c: "c \<in> {''.'', '':''}" "node_part db (0, j) = Some (c @ node_name (node (tree_info db)) j)"
    using j(4) by blast
  have "full_part db (0, j) part = Some (f (c @ node_name (node (tree_info db)) j @ part))" for part
    using j(2) c(2) IH(2) by (subst full_part.simps) simp
  moreover have "leads db (\<lambda>i. M i @ C i) (\<lambda>part. f (c @ node_name (node (tree_info db)) j @ part)) [] 0 j"
    by (rule leads_step [OF IH(3) refl c(1) j(3) down.hyps(3) j(5)])
  ultimately show ?case using j(1)
    by (intro conjI exI [of _ "\<lambda>part. f (c @ node_name (node (tree_info db)) j @ part)"]) auto
qed


section \<open>The round trip\<close>

lemma TreeFindNode_tag_path:
  assumes t: "path_tree db L C M" and tag: "anchor (tree_info db) tag k" "upper_word 24 tag"
    and ss: "steps_ok ss" "\<forall>s\<in>set ss. map toupper (snd s) = snd s"
    and k: "k \<in> L" "paths (\<lambda>i. M i @ C i) (node_name (node (tree_info db))) (step_names ss) k = [i]" "i \<in> L"
  shows "TreeFindNode db (tag_path (treenam (tree_info db)) tag ss) = Some (TreeSUCCESS, Some (make_nid 0 i))"
proof -
  note d = path_treeD [OF t]
  let ?tree = "treenam (tree_info db)"
  let ?srch = "\<lparr>search_type = TAG_TREE, st_term = CHR 0x5C # ?tree @ ''::'' @ tag\<rparr>"
  have tree: "upper_word 12 ?tree" using d(5) by (simp add: tidy_def)
  have "map toupper (?tree @ ''::'' @ tag) = ?tree @ ''::'' @ tag"
    using upper_wordD(2) [OF tree] upper_wordD(2) [OF tag(2)] by (simp add: toupper_def)
  then have parse: "WildParse (tag_path ?tree tag ss) = (TreeSUCCESS, ?srch # map step_term ss, False)"
    using WildParse_tag_path [OF upper_wordD(1) [OF tree] upper_wordD(1) [OF tag(2)] ss(1)] by simp
  have find: "Find db ?srch n = Some [Some (0, k)]" for n
    using FindTagWild_main [OF tree upper_wordD(4) [OF tag(2)]] FindTags_anchor [OF d(5,6,2,11) tag]
    by (simp add: Find_def Let_def)
  have search: "Search db (?srch # map step_term ss) n = Some [Some (0, i)]" for n
  proof (cases "ss = []")
    case True
    then have "k = i" using k(2) by simp
    then show ?thesis using find True by simp
  next
    case False
    have "map st_term (map step_term ss) = step_names ss" using ss(2) by (simp add: step_term_def)
    moreover have "\<forall>term\<in>set (map step_term ss). search_type term \<in> {CHILD, MEMBER} \<and> plain_name (st_term term)"
    proof
      fix a assume "a \<in> set (map step_term ss)"
      then obtain s where s: "s \<in> set ss" "a = step_term s" by auto
      then have "upper_word 12 (snd s)" using ss by (auto simp: list_all_iff upper_word_def tag_word_def path_name_def)
      then show "search_type a \<in> {CHILD, MEMBER} \<and> plain_name (st_term a)"
        using s upper_wordD(2,3) by (simp add: step_term_def)
    qed
    ultimately have "Search db (map step_term ss) (Some (0, k)) =
        Some (map (\<lambda>j. Some (0, j)) (paths (\<lambda>i. M i @ C i) (node_name (node (tree_info db))) (step_names ss) k))"
      using Search_names [of db 0 L C M k "map step_term ss"] d(2,3) k(1) False
      by (simp add: infos_def del: map_map map_eq_conv)
    then show ?thesis using find False unfolding k(2) by simp
  qed
  have "take 1 (tag_path ?tree tag ss) \<noteq> [CHR 0x0A]" by (simp add: tag_path_def)
  moreover have "ptr_nid db (Some (0, i)) = make_nid 0 i"
    using main_tree_nid [of 0 db i] d(10) [OF k(3)] d(11) by (simp add: ptr_nid_def infos_def)
  ultimately show ?thesis
    using d(1) search by (simp add: TreeFindNode_def TreeFindNodeRelative_def parse del: Search.simps)
qed

lemma upper_word_exists:
  assumes "upper_word 12 (trim_cpy nm)" "name (node_at db n) = nm" shows "node_exists db (Some n)"
proof -
  obtain c s where c: "trim_cpy nm = c # s" using assms(1) by (cases "trim_cpy nm") (auto simp: upper_word_def tag_word_def)
  then have nm: "nm \<noteq> []" "hd nm = c" by (cases nm; auto simp: trim_cpy_def split: if_splits)+
  have "name_char c" "toupper c = c" using assms(1) c by (simp_all add: upper_word_def tag_word_def)
  have "\<not> (97 \<le> code c \<and> code c < 128)"
  proof
    assume r: "97 \<le> code c \<and> code c < 128"
    have "code c \<le> 122" using \<open>name_char c\<close> r by (auto simp: name_char_def alphaplus_def letter_def digit_def code_def)
    then have u: "97 \<le> (of_char c :: nat) \<and> (of_char c :: nat) \<le> 122" using r by (simp add: code_def)
    then have "(of_char c :: nat) - 32 < 256" by linarith
    then have "of_char (toupper c) = (of_char c :: nat) - 32" using u by (simp add: toupper_def)
    then have "(of_char c :: nat) = of_char c - 32" using \<open>toupper c = c\<close> by metis
    then show False using u by linarith
  qed
  then show ?thesis using nm(2) assms(2) by (simp add: node_exists_def)
qed

text \<open>
  C2: The path that \<open>_TreeGetPath\<close> returns for a node of the main tree, which starts at its nearest tag or at the
  top, leads \<open>_TreeFindNode\<close> back to that node, whatever the default node is, and so does the full path. The
  loops of both end.
\<close>

theorem TreeFindNode_TreeGetPath:
  assumes "path_tree db L C M" and "i \<in> reach (\<lambda>i. set (M i @ C i)) {0}"
  shows "\<exists>path full. TreeGetPath db (make_nid 0 i) = Some (Some path) \<and> NciFULLPATH db (make_nid 0 i) = Some full
    \<and> TreeFindNode db path = Some (TreeSUCCESS, Some (make_nid 0 i))
    \<and> TreeFindNode db full = Some (TreeSUCCESS, Some (make_nid 0 i))"
proof -
  note d = path_treeD [OF assms(1)]
  have i: "i \<in> L" using path_from_leads [OF assms] by blast
  have nid: "nid_to_node db (make_nid 0 i) = Some (0, i)"
    using main_tree_nid [of 0 db i] d(10) [OF i] d(11) by (simp add: infos_def)
  have ex: "node_exists db (Some (0, i))"
    using upper_word_exists [of "name (node (tree_info db) i)" db "(0, i)"] d(5) i
    by (simp add: tidy_def node_name_def node_at_def infos_def)
  obtain k tag f where k: "k \<in> L" and f: "\<And>part. path_from db None (0, i) 0 part = Some (f part)"
      and tag: "anchor (tree_info db) tag k" "upper_word 24 tag"
      and l: "leads db (\<lambda>i. M i @ C i) f (path_head db None 0 tag) k i"
    using path_from_leads [OF assms] by blast
  obtain ss where ss: "steps_ok ss" "\<forall>s\<in>set ss. map toupper (snd s) = snd s" "f [] = path_head db None 0 tag @ path_text ss"
      "paths (\<lambda>i. M i @ C i) (node_name (node (tree_info db))) (step_names ss) k = [i]"
  proof -
    from l obtain ss where "steps_ok ss" "\<forall>s\<in>set ss. map toupper (snd s) = snd s"
        "\<forall>part. f part = path_head db None 0 tag @ path_text ss @ part"
        "paths (\<lambda>i. M i @ C i) (node_name (node (tree_info db))) (step_names ss) k = [i]"
      unfolding leads_def by blast
    then show ?thesis using that [of ss] by simp
  qed
  have path: "f [] = tag_path (treenam (tree_info db)) tag ss"
    using ss(3) by (simp add: path_head_def tag_path_def infos_def)
  obtain g where g: "full_part db (0, i) [] = Some (g [])" and l': "leads db (\<lambda>i. M i @ C i) g [] 0 i"
    using full_part_leads [OF assms] by blast
  obtain ts where ts: "steps_ok ts" "\<forall>s\<in>set ts. map toupper (snd s) = snd s" "g [] = path_text ts"
      "paths (\<lambda>i. M i @ C i) (node_name (node (tree_info db))) (step_names ts) 0 = [i]"
  proof -
    from l' obtain ts where "steps_ok ts" "\<forall>s\<in>set ts. map toupper (snd s) = snd s" "\<forall>part. g part = [] @ path_text ts @ part"
        "paths (\<lambda>i. M i @ C i) (node_name (node (tree_info db))) (step_names ts) 0 = [i]"
      unfolding leads_def by blast
    then show ?thesis using that [of ts] by simp
  qed
  have full: "CHR 0x5C # treenam (tree_info db) @ ''::TOP'' @ g [] = tag_path (treenam (tree_info db)) ''TOP'' ts"
    using ts(3) by (simp add: tag_path_def)
  have "anchor (tree_info db) ''TOP'' 0" by (simp add: anchor_def)
  then have "TreeFindNode db (tag_path (treenam (tree_info db)) ''TOP'' ts) = Some (TreeSUCCESS, Some (make_nid 0 i))"
    using TreeFindNode_tag_path [OF assms(1) _ upper_TOP ts(1,2) d(7) ts(4) i] by blast
  moreover have "TreeFindNode db (tag_path (treenam (tree_info db)) tag ss) = Some (TreeSUCCESS, Some (make_nid 0 i))"
    by (rule TreeFindNode_tag_path [OF assms(1) tag ss(1,2) k ss(4) i])
  moreover have "TreeGetPath db (make_nid 0 i) = Some (Some (tag_path (treenam (tree_info db)) tag ss))"
    using d(1) nid ex f [of "[]"] path by (simp add: TreeGetPath_def NciPATH_def getPath_def)
  moreover have "NciFULLPATH db (make_nid 0 i) = Some (tag_path (treenam (tree_info db)) ''TOP'' ts)"
    using nid ex g full by (simp add: NciFULLPATH_def full_path_def)
  ultimately show ?thesis by blast
qed

text \<open>The tree of \<open>two_nodes\<close> is such a tree.\<close>

lemma small_path_tree: "path_tree small_db {0, 1} small_children (\<lambda>_. [])"
proof -
  have info: "tree_info small_db = switches False" "node (switches False) = two_nodes"
    using switches_hyps(4) [of False] by (simp_all add: edit_slot_def)
  have parts: "treenam (switches False) = ''MAIN''" "tag_info (switches False) = []" "tag_index (switches False) = []"
    "root (switches False) = 0" "tags (header (switches False)) = 0" "nodes (header (switches False)) = 3"
    by (simp_all add: switches_def zero_info_def zero_header_def)
  have up: "map toupper ''MAIN'' = ''MAIN''" "map toupper ''TOP'' = ''TOP''" "map toupper ''B'' = ''B''" by code_simp+
  have names: "node_name two_nodes 0 = ''TOP''" "node_name two_nodes 1 = ''B''"
    by (simp_all add: node_name_def trim_cpy_def two_nodes_def)
  have words: "upper_word 12 ''MAIN''" "upper_word 12 ''TOP''" "upper_word 12 ''B''"
    using up by (simp_all add: upper_word_def tag_word_def name_char_def alphaplus_def letter_def digit_def code_def)
  have "tidy (switches False) {0, 1}"
    unfolding tidy_def info parts using words names by simp
  moreover have "unique_names two_nodes {0, 1} (\<lambda>i. [] @ small_children i)" by (simp add: unique_names_def)
  moreover have "tag_link (two_nodes i) = 0" "parent (two_nodes 0) = 0" for i by (simp_all add: two_nodes_def zero_node_def)
  then have "tags_ok (switches False)" unfolding tags_ok_def info parts by (simp add: tag_nums_def)
  ultimately show ?thesis
    unfolding path_tree_def Let_def info parts using small_db(1,2) two_nodes_hierarchy \<open>parent (two_nodes 0) = 0\<close> by simp
qed

lemma TreeFindNode_TreeGetPath_witness:
  "\<exists>path. TreeGetPath small_db (make_nid 0 1) = Some (Some path)
    \<and> TreeFindNode small_db path = Some (TreeSUCCESS, Some (make_nid 0 1))"
proof -
  have "1 \<in> reach (\<lambda>i. set ([] @ small_children i)) {0}" by (rule below.down [of 0]) (simp_all add: below.start)
  then show ?thesis using TreeFindNode_TreeGetPath [OF small_path_tree] by blast
qed

end
