(* ===== verification/TreeEdit.thy ===== *)
theory TreeEdit
  imports TreePath TreePool
begin

text \<open>
  Adding a node (\<open>_TreeAddNode\<close> in \<open>TreeAddNode.c\<close>, \<open>TreeFindParent\<close> in \<open>TreeFindNode.c\<close>, \<open>_TreeIsOn\<close> in
  \<open>TreeGetNci.c\<close>). The operation composes the parts of the other theories: the search for the parent and for
  the node itself, the pool, the insertion among the brothers, and the characteristics of the new node.
  The theorem says that it keeps all of their invariants together (\<open>edit_tree\<close>).

  A result is \<open>None\<close> where the code does not end or subtracts pointers into the pools of two trees. The
  hooks of the tree library are not installed, and no view date is set.
\<close>

section \<open>The operations\<close>

text \<open>The position of the last occurrence of a character, -1 for the null pointer.\<close>

definition strrchr :: "string \<Rightarrow> char \<Rightarrow> int" where
  "strrchr s c = int (length (dropWhile (\<lambda>x. x \<noteq> c) (rev s))) - 1"

text \<open>The status, the parent, the name below it, and whether the name comes after a dot.\<close>

definition TreeFindParent :: "PINO_DATABASE \<Rightarrow> string \<Rightarrow> (status \<times> node_ptr option \<times> string \<times> bool) option" where
  "TreeFindParent db nm =
     (let last_dot = strrchr nm CHR ''.''; last_colon = strrchr nm CHR '':'';
          is_child = last_dot > last_colon; k = nat (max last_dot last_colon)
      in if last_dot = -1 \<and> last_colon = -1 then Some (TreeSUCCESS, Some (default_node db), nm, False)
         else if take k nm = [] then Some (TreeSUCCESS, Some (default_node db), drop (Suc k) nm, is_child)
         else map_option
                (\<lambda>(status, nid).
                   let n = (if STATUS_OK status then nid_to_node db (the nid) else None)
                   in (if n = None then TreeNNF else status, n, drop (Suc k) nm, is_child))
                (TreeFindNode db (take k nm)))"

definition tree_get_nci :: "TREE_INFO \<Rightarrow> nat \<Rightarrow> status + NCI" where
  "tree_get_nci info i =
     (if in_file info i
      then if length (nci_file info i) = 42 then Inr (TreeSerializeNciIn (nci_file info i) empty_nci)
           else Inl TreeNCIREAD
      else Inr (nci (the (edit info)) (i - first_in_mem (the (edit info)))))"

text \<open>The item \<open>NciGET_FLAGS\<close> of \<open>_TreeGetNci\<close>.\<close>

definition NciGET_FLAGS :: "PINO_DATABASE \<Rightarrow> u32 \<Rightarrow> status + u32" where
  "NciGET_FLAGS db nid =
     (if \<not> node_exists db (nid_to_node db nid) then Inl TreeNNF
      else case nid_to_tree_idx db nid of
        (None, _) \<Rightarrow> Inl TreeNNF
      | (Some t, i) \<Rightarrow>
          (case tree_get_nci (infos db ! t) i of Inl status \<Rightarrow> Inl status | Inr n \<Rightarrow> Inr (flags n)))"

definition TreeIsOn :: "PINO_DATABASE \<Rightarrow> u32 \<Rightarrow> status" where
  "TreeIsOn db nid =
     (if \<not> open_tree db then TreeNOT_OPEN
      else case NciGET_FLAGS db nid of
        Inl status \<Rightarrow> status
      | Inr nci_flags \<Rightarrow>
          if nci_flags AND NciM_STATE \<noteq> 0
          then if nci_flags AND NciM_PARENT_STATE \<noteq> 0 then TreeBOTH_OFF else TreeOFF
          else if nci_flags AND NciM_PARENT_STATE \<noteq> 0 then TreePARENT_OFF else TreeON)"

definition NciM_COMPRESS_ON_PUT :: u32 where "NciM_COMPRESS_ON_PUT = 0x400"

text \<open>A conglomerate that is being built has one more part; when it is full it is ended.\<close>

definition count_part :: "PINO_DATABASE \<Rightarrow> status \<times> PINO_DATABASE" where
  "count_part db =
     (let ed = the (edit (tree_info db)); conglom_index = conglomerate_index ed + 1;
          counted = db\<lparr>tree_info := (tree_info db)\<lparr>edit := Some (ed\<lparr>conglomerate_index := conglom_index\<rparr>)\<rparr>\<rparr>
      in if conglomerate_size ed = 0 then (TreeSUCCESS, db)
         else if sint conglom_index > sint (conglomerate_size ed) then TreeEndConglomerate counted
         else (TreeSUCCESS, counted))"

text \<open>\<open>strncpy\<close> of a name, and the blanks behind it.\<close>

definition node_text :: "string \<Rightarrow> string" where
  "node_text nm = take 12 (nm @ replicate 12 CHR '' '')"

definition link_new :: "TREE_INFO \<Rightarrow> nat \<Rightarrow> nat \<Rightarrow> string \<Rightarrow> bool \<Rightarrow> int \<Rightarrow> TREE_INFO option" where
  "link_new info p i nm is_child use =
     (let ns = (node info)(i := (node info i)\<lparr>name := node_text nm, child := 0,
                                  conglomerate_elt := conglomerate_index (the (edit info))\<rparr>);
          with_usage = (\<lambda>u. map_option (\<lambda>ns. info\<lparr>node := ns(i := (ns i)\<lparr>usage := u\<rparr>)\<rparr>))
      in if is_child \<and> use = int TreeUSAGE_ANY \<or> use = int TreeUSAGE_STRUCTURE \<or> use = int TreeUSAGE_SUBTREE
         then with_usage (if use = int TreeUSAGE_SUBTREE then TreeUSAGE_SUBTREE else TreeUSAGE_STRUCTURE)
                (TreeInsertChild ns p i (sort_children (header info)))
         else with_usage (if 0 \<le> use \<and> use < int TreeUSAGE_MAXIMUM then nat use else TreeUSAGE_ANY)
                (TreeInsertMember ns p i (sort_members (header info))))"

definition put_new_nci :: "PINO_DATABASE \<Rightarrow> node_ptr \<Rightarrow> nat \<Rightarrow> status \<times> PINO_DATABASE" where
  "put_new_nci db p i =
     (case tree_get_and_lock_nci (tree_info db) i of
        Inl status \<Rightarrow> (status, db)
      | Inr _ \<Rightarrow>
          let new_flags = (if STATUS_OK (TreeIsOn db (node_to_nid db p)) then 0 else NciM_PARENT_STATE) OR NciM_COMPRESS_ON_PUT
          in (TreeSUCCESS, db\<lparr>tree_info := tree_put_nci (tree_info db) i (empty_nci\<lparr>flags := new_flags\<rparr>)\<rparr>))"

definition TreeAddNode ::
    "bool \<Rightarrow> bool \<Rightarrow> PINO_DATABASE \<Rightarrow> string \<Rightarrow> int \<Rightarrow> (status \<times> u32 option \<times> PINO_DATABASE) option" where
  "TreeAddNode statics grows db nm use =
     (if \<not> IS_OPEN_FOR_EDIT db then Some (TreeNOEDIT, None, db)
      else Option.bind (TreeFindParent db (map toupper nm))
        (\<lambda>(status, parent, new_name, is_child).
           if \<not> STATUS_OK status then Some (status, None, db)
           else Option.bind (TreeFindNode db (map toupper nm))
             (\<lambda>(status, nid).
                if STATUS_OK status then Some (TreeALREADY_THERE, None, db)
                else if status \<noteq> TreeNNF then Some (status, None, db)
                else let (status, db) = count_part db
                     in if \<not> STATUS_OK status then Some (TreeINVPATH, None, db)
                        else Option.bind (TreeNewNode statics grows (tree_info db))
                          (\<lambda>(status, i, info).
                             if \<not> STATUS_OK status then Some (status, None, db\<lparr>tree_info := info\<rparr>)
                             else if fst (the parent) \<noteq> 0 then None
                             else Option.bind (link_new info (snd (the parent)) i new_name is_child use)
                               (\<lambda>info.
                                  let (status, db) = put_new_nci (db\<lparr>tree_info := info\<rparr>) (the parent) i
                                  in Some (status, Some (node_to_nid db (0, i)),
                                           db\<lparr>modified := modified db \<or> STATUS_OK status\<rparr>))))))"

section \<open>The parent of a path\<close>

lemma strrchr_less: "strrchr s c < int (length s)"
proof -
  have "length (dropWhile (\<lambda>x. x \<noteq> c) (rev s)) \<le> length s" using length_dropWhile_le [of "\<lambda>x. x \<noteq> c" "rev s"] by simp
  then show ?thesis by (simp add: strrchr_def)
qed

lemma strrchr_append: "c \<notin> set t \<Longrightarrow> strrchr (s @ t) c = strrchr s c"
proof -
  assume "c \<notin> set t"
  then have "dropWhile (\<lambda>x. x \<noteq> c) (rev t @ rev s) = dropWhile (\<lambda>x. x \<noteq> c) (rev s)"
    by (intro dropWhile_append2) auto
  then show ?thesis by (simp add: strrchr_def)
qed

lemma strrchr_last [simp]: "strrchr (s @ [d]) c = (if d = c then int (length s) else strrchr s c)"
  by (simp add: strrchr_def)

lemma strrchr_Nil [simp]: "strrchr [] c = -1"
  by (simp add: strrchr_def)

lemma name_char_upper:
  assumes "name_char c" shows "name_char (toupper c)" "toupper (toupper c) = toupper c"
proof -
  show "name_char (toupper c)"
  proof (cases "97 \<le> (of_char c :: nat) \<and> (of_char c :: nat) \<le> 122")
    case True
    then have "(of_char c :: nat) - 32 < 256" by linarith
    then have "of_char (toupper c) = (of_char c :: nat) - 32" using True by (simp add: toupper_def)
    then have r: "65 \<le> code (toupper c)" "code (toupper c) \<le> 90" using True by (simp_all add: code_def)
    then have "letter (toupper c)" by (simp add: letter_def code_def)
    moreover have "toupper c \<notin> {CHR ''*'', CHR ''?'', CHR ''%''}" using r by (auto simp: code_def)
    ultimately show ?thesis by (simp add: name_char_def alphaplus_def)
  next
    case False
    then show ?thesis using assms by (auto simp: toupper_def)
  qed
  have "\<not> (97 \<le> (of_char (toupper c) :: nat) \<and> (of_char (toupper c) :: nat) \<le> 122)"
  proof (cases "97 \<le> (of_char c :: nat) \<and> (of_char c :: nat) \<le> 122")
    case True
    then have "(of_char c :: nat) - 32 < 256" by linarith
    then have "of_char (toupper c) = (of_char c :: nat) - 32" using True by (simp add: toupper_def)
    then show ?thesis using True by linarith
  qed (auto simp: toupper_def)
  then show "toupper (toupper c) = toupper c" by (auto simp: toupper_def)
qed

text \<open>A path in upper case.\<close>

abbreviation upper_steps :: "steps \<Rightarrow> steps" where
  "upper_steps \<equiv> map (\<lambda>(c, nm). (c, map toupper nm))"

lemma path_name_upper: "path_name nm \<Longrightarrow> path_name (map toupper nm)"
  using name_char_upper(1) by (auto simp: path_name_def list_all_iff)

lemma name_upper_twice: "path_name nm \<Longrightarrow> map toupper (map toupper nm) = map toupper nm"
  using name_char_upper(2) by (auto simp: path_name_def list_all_iff)

lemma upper_path:
  assumes "path_ok ss"
  shows "map toupper (path_text ss) = path_text (upper_steps ss)" "path_ok (upper_steps ss)"
proof -
  have c: "toupper CHR ''.'' = CHR ''.''" "toupper CHR '':'' = CHR '':''" by (simp_all add: toupper_def)
  have ok: "\<forall>s\<in>set ss. fst s \<in> {'''', ''.'', '':''} \<and> path_name (snd s)"
    using assms by (cases ss) (auto simp: list_all_iff)
  then show "map toupper (path_text ss) = path_text (upper_steps ss)"
    using c by (induction ss) (auto simp: path_text_def)
  show "path_ok (upper_steps ss)"
    using assms path_name_upper by (cases ss) (fastforce simp: list_all_iff)+
qed


lemma path_text_append: "path_text (ps @ [(c, nm)]) = path_text ps @ c @ nm"
  by (simp add: path_text_def)

lemma path_ok_last:
  assumes "path_ok (ps @ [(c, nm)])"
  shows "path_name nm" "c = [] \<and> ps = [] \<or> c = ''.'' \<or> c = '':''" "ps \<noteq> [] \<Longrightarrow> path_ok ps" "path_text ps = [] \<longleftrightarrow> ps = []"
proof -
  show "path_name nm" "c = [] \<and> ps = [] \<or> c = ''.'' \<or> c = '':''" "ps \<noteq> [] \<Longrightarrow> path_ok ps"
    using assms by (cases ps; auto)+
  show "path_text ps = [] \<longleftrightarrow> ps = []"
    using assms by (cases ps) (auto simp: path_text_def path_name_def)
qed

lemma no_punctuation: "path_name nm \<Longrightarrow> CHR ''.'' \<notin> set nm \<and> CHR '':'' \<notin> set nm"
  using name_char_neq(9,10) by (fastforce simp: path_name_def list_all_iff)

lemma TreeFindParent_path:
  assumes "path_ok (ps @ [(c, nm)])"
  shows "TreeFindParent db (path_text (ps @ [(c, nm)])) =
    (if ps = [] then Some (TreeSUCCESS, Some (default_node db), nm, c = ''.'')
     else map_option
            (\<lambda>(status, nid).
               let n = (if STATUS_OK status then nid_to_node db (the nid) else None)
               in (if n = None then TreeNNF else status, n, nm, c = ''.''))
            (TreeFindNode db (path_text ps)))"
proof -
  note last = path_ok_last [OF assms]
  note no = no_punctuation [OF last(1)]
  show ?thesis
  proof (cases "c = []")
    case True
    then have "ps = []" using last(2) by blast
    moreover have "strrchr nm CHR ''.'' = -1" "strrchr nm CHR '':'' = -1"
      using strrchr_append [of _ nm "[]"] no by simp_all
    ultimately show ?thesis using True by (simp add: TreeFindParent_def path_text_def)
  next
    case False
    then obtain d where d: "c = [d]" "d = CHR ''.'' \<or> d = CHR '':''" using last(2) by blast
    let ?s = "path_text ps"
    have full: "path_text (ps @ [(c, nm)]) = (?s @ [d]) @ nm" using d by (simp add: path_text_append)
    define n where "n = length ?s"
    have "strrchr ((?s @ [d]) @ nm) CHR ''.'' = (if d = CHR ''.'' then int n else strrchr ?s CHR ''.'')"
      "strrchr ((?s @ [d]) @ nm) CHR '':'' = (if d = CHR '':'' then int n else strrchr ?s CHR '':'')"
      using strrchr_append [of _ nm "?s @ [d]"] no by (simp_all add: n_def)
    moreover have "strrchr ?s CHR ''.'' < int n" "strrchr ?s CHR '':'' < int n" unfolding n_def by (rule strrchr_less)+
    ultimately have "max (strrchr ((?s @ [d]) @ nm) CHR ''.'') (strrchr ((?s @ [d]) @ nm) CHR '':'') = int n"
      "strrchr ((?s @ [d]) @ nm) CHR ''.'' > strrchr ((?s @ [d]) @ nm) CHR '':'' \<longleftrightarrow> d = CHR ''.''"
      "\<not> (strrchr ((?s @ [d]) @ nm) CHR ''.'' = -1 \<and> strrchr ((?s @ [d]) @ nm) CHR '':'' = -1)"
      using d(2) by (elim disjE; simp)+
    moreover have "take n ((?s @ [d]) @ nm) = ?s" "drop (Suc n) ((?s @ [d]) @ nm) = nm" by (simp_all add: n_def)
    moreover have "d = CHR ''.'' \<longleftrightarrow> c = ''.''" using d(1) by simp
    ultimately show ?thesis
      unfolding full TreeFindParent_def Let_def by (simp only: nat_int if_False last(4))
  qed
qed


section \<open>The invariant of a tree that is edited\<close>

definition edit_tree ::
    "PINO_DATABASE \<Rightarrow> nat set \<Rightarrow> (nat \<Rightarrow> nat list) \<Rightarrow> (nat \<Rightarrow> nat list) \<Rightarrow> nat list \<Rightarrow> bool" where
  "edit_tree db L C M xs \<longleftrightarrow>
     (let info = tree_info db; S = (\<lambda>p. set (C p) \<union> set (M p))
      in path_tree db L C M \<and> IS_OPEN_FOR_EDIT db \<and> edit info \<noteq> None
         \<and> fst (default_node db) = 0 \<and> snd (default_node db) \<in> L
         \<and> free_list info xs \<and> L \<inter> set xs = {} \<and> (\<forall>b\<in>set (tag_info info). node_idx b \<in> L)
         \<and> (\<forall>j. readable info j) \<and> states_ok info L S \<and> (\<exists>r. ranked L S r))"

lemma edit_treeD:
  assumes "edit_tree db L C M xs"
  shows "path_tree db L C M" "IS_OPEN_FOR_EDIT db" "edit (tree_info db) \<noteq> None"
    "default_node db = (0, snd (default_node db))" "snd (default_node db) \<in> L"
    "free_list (tree_info db) xs" "L \<inter> set xs = {}" "b \<in> set (tag_info (tree_info db)) \<Longrightarrow> node_idx b \<in> L"
    "readable (tree_info db) j" "states_ok (tree_info db) L (\<lambda>p. set (C p) \<union> set (M p))"
    "\<exists>r. ranked L (\<lambda>p. set (C p) \<union> set (M p)) r"
  using assms unfolding edit_tree_def Let_def by (cases "default_node db"; auto)+

text \<open>A path leads to one node at most.\<close>

lemma paths_unique:
  assumes h: "hierarchy ns L C M" and u: "unique_names ns L (\<lambda>i. M i @ C i)"
  shows "i \<in> L \<Longrightarrow> paths (\<lambda>i. M i @ C i) (node_name ns) ts i = [] \<or>
    (\<exists>j\<in>L. paths (\<lambda>i. M i @ C i) (node_name ns) ts i = [j])"
proof (induction ts arbitrary: i)
  case (Cons t ts)
  have d: "distinct (map (node_name ns) (M i @ C i))" using u Cons.prems by (simp add: unique_names_def)
  show ?case
  proof (cases "t \<in> node_name ns ` set (M i @ C i)")
    case True
    then obtain j where j: "j \<in> set (M i @ C i)" "t = node_name ns j" by blast
    then have "j \<in> L" using hierarchy_lists(2,4) [OF h Cons.prems] by auto
    then show ?thesis using Cons.IH [of j] filter_unique [OF d j(1)] j(2) by (simp del: filter_append)
  next
    case False
    then have none: "filter (\<lambda>k. node_name ns k = t) (M i @ C i) = []"
      unfolding filter_empty_conv by (metis imageI)
    then show ?thesis by (simp only: paths.simps none) simp
  qed
qed simp

lemma find_path:
  assumes t: "edit_tree db L C M xs" and "path_ok ss"
  shows "TreeFindNode db (path_text ss) =
    Some (case paths (\<lambda>i. M i @ C i) (node_name (node (tree_info db))) (map (\<lambda>s. map toupper (snd s)) ss) (snd (default_node db)) of
            [] \<Rightarrow> (TreeNNF, None)
          | j # _ \<Rightarrow> (TreeSUCCESS, Some (make_nid 0 j)))"
proof -
  note e = edit_treeD [OF t]
  note d = path_treeD [OF e(1)]
  have "node (infos db ! 0) = node (tree_info db)" "0 < length (infos db)" by (simp_all add: infos_def)
  moreover have "\<forall>j\<in>L. j \<le> nodes (header (infos db ! 0)) \<and> j < 2 ^ 24"
  proof
    fix j assume "j \<in> L"
    then show "j \<le> nodes (header (infos db ! 0)) \<and> j < 2 ^ 24" using d(10) [of j] d(11) by (simp add: infos_def)
  qed
  ultimately show ?thesis
    using TreeFindNode_lookup [OF d(1) assms(2) d(2) _ d(3) e(4,5)] by simp
qed


section \<open>What a new node leaves as it was\<close>

text \<open>Apart from the links, a node of the pool stays as it was or has been cleared.\<close>

definition links_only :: "NODE \<Rightarrow> NODE \<Rightarrow> bool" where
  "links_only a b \<longleftrightarrow> usage b = usage a \<and> tag_link b = tag_link a \<or> usage b = 0 \<and> tag_link b = 0"

lemma links_only_refl [simp]: "links_only a a" "usage b = 0 \<Longrightarrow> tag_link b = 0 \<Longrightarrow> links_only a b"
  by (simp_all add: links_only_def)

lemma links_only_trans: "links_only a b \<Longrightarrow> links_only b c \<Longrightarrow> links_only a c"
  by (auto simp: links_only_def)

lemma links_only_update [simp]:
  "links_only a (b\<lparr>parent := x\<rparr>) = links_only a b" "links_only a (b\<lparr>child := x\<rparr>) = links_only a b"
  by (simp_all add: links_only_def)

lemma links_only_empty [simp]: "links_only a (empty_node_array k)"
  by (simp add: empty_node_array_def empty_node_def zero_node_def)

lemma append_empty_links:
  assumes "append_empty info = Some info'" shows "links_only (node info j) (node info' j)"
proof -
  define ns where "ns = (\<lambda>i. if nodes (header info) \<le> i \<and> i < nodes (header info) + EXTEND_NODES
    then empty_node_array (i - nodes (header info)) else node info i)"
  have new: "links_only (node info k) (ns k)" for k
    by (simp add: ns_def)
  show ?thesis
    using assms new unfolding append_empty_def Let_def ns_def [symmetric]
    by (auto split: if_splits)
qed

lemma append_empty_tag_link:
  assumes "append_empty info = Some info'" "nodes (header info) \<le> j" "j < nodes (header info) + EXTEND_NODES"
  shows "tag_link (node info' j) = 0"
proof -
  have "tag_link (empty_node_array k) = 0" for k by (simp add: empty_node_array_def empty_node_def zero_node_def)
  then show ?thesis using assms unfolding append_empty_def Let_def by (auto split: if_splits)
qed

text \<open>The characteristics of the nodes in use, and the state of the conglomerate.\<close>

definition nci_kept :: "TREE_INFO \<Rightarrow> TREE_INFO \<Rightarrow> bool" where
  "nci_kept info info' \<longleftrightarrow> edit info' \<noteq> None
     \<and> first_in_mem (the (edit info')) = first_in_mem (the (edit info))
     \<and> conglomerate_size (the (edit info')) = conglomerate_size (the (edit info))
     \<and> conglomerate_index (the (edit info')) = conglomerate_index (the (edit info))
     \<and> (\<forall>k<nodes (header info) - first_in_mem (the (edit info)). nci (the (edit info')) k = nci (the (edit info)) k)"

lemma append_empty_edit: "append_empty info = Some info' \<Longrightarrow> edit info' = edit info"
  by (auto simp: append_empty_def Let_def split: if_splits)

lemma TreeExpandNodes_keeps:
  assumes "TreeExpandNodes True True info = Some (TreeSUCCESS, info')"
  shows "links_only (node info j) (node info' j)" "nci_kept info info'"
    "nodes (header info) \<le> j \<Longrightarrow> j < nodes (header info) + EXTEND_NODES \<Longrightarrow> tag_link (node info' j) = 0"
proof -
  obtain ed where a: "append_empty (info\<lparr>edit := Some ed\<rparr>) = Some info'"
    and ed: "first_in_mem ed = first_in_mem (the (edit info))"
      "conglomerate_size ed = conglomerate_size (the (edit info))"
      "conglomerate_index ed = conglomerate_index (the (edit info))"
      "\<forall>k<nodes (header info) - first_in_mem (the (edit info)). nci ed k = nci (the (edit info)) k"
    using assms by (auto simp: TreeExpandNodes_def Let_def split: if_splits)
  show "links_only (node info j) (node info' j)" using append_empty_links [OF a, of j] by simp
  show "nci_kept info info'" using append_empty_edit [OF a] ed by (simp add: nci_kept_def)
  show "nodes (header info) \<le> j \<Longrightarrow> j < nodes (header info) + EXTEND_NODES \<Longrightarrow> tag_link (node info' j) = 0"
    using append_empty_tag_link [OF a] by simp
qed

lemma TreeNewNode_keeps:
  assumes l: "free_list info xs" and e: "edit info \<noteq> None" and n: "n = nodes (header info)"
  shows "\<exists>i info' ys. TreeNewNode True True info = Some (TreeSUCCESS, i, info')
    \<and> i # ys = (if xs = [] then [n..<n + EXTEND_NODES] else xs)
    \<and> free_list info' ys \<and> node info' i = zero_node \<and> pool_change info info'
    \<and> nodes (header info') = (if xs = [] then n + EXTEND_NODES else n)
    \<and> (\<forall>j<n. j \<notin> set xs \<longrightarrow> node info' j = node info j)
    \<and> (\<forall>j. links_only (node info j) (node info' j)) \<and> nci_kept info info'
    \<and> (\<forall>j. n \<le> j \<and> j < nodes (header info') \<longrightarrow> tag_link (node info' j) = 0)"
proof -
  have pop: "links_only (node a j) (node b j)" if "TreeNewNode True True a = Some (st, i, b)" "free (header a) \<noteq> -1" for a b st i j
    using that by (auto simp: TreeNewNode_def Let_def zero_node_def split: if_splits)
  show ?thesis
  proof (cases xs)
    case (Cons x r)
    obtain info' where i: "TreeNewNode True True info = Some (TreeSUCCESS, x, info')" "free_list info' r"
      "pool_change info info'" "nodes (header info') = n" "edit info' = edit info" "node info' x = zero_node"
      "\<forall>j. j \<notin> set xs \<longrightarrow> node info' j = node info j"
      using pop_free [of info x r True True] l n Cons by blast
    have "links_only (node info j) (node info' j)" for j
      using pop [OF i(1)] free_list_empty [OF l] Cons by simp
    then show ?thesis
      using Cons i e by (intro exI [of _ x] exI [of _ info'] exI [of _ r]) (simp add: nci_kept_def)
  next
    case Nil
    obtain info1 where e: "TreeExpandNodes True True info = Some (TreeSUCCESS, info1)"
      "free_list info1 [n..<n + EXTEND_NODES]" "pool_change info info1"
      "nodes (header info1) = n + EXTEND_NODES" "\<forall>i<n. node info1 i = node info i"
      using TreeExpandNodes_free_list [OF l n] Nil by auto
    have u: "[n..<n + EXTEND_NODES] = n # [Suc n..<n + EXTEND_NODES]"
      by (rule upt_conv_Cons) (simp add: EXTEND_NODES_def)
    have run: "TreeNewNode True True info = TreeNewNode True True info1" and pos: "free (header info1) \<noteq> -1"
      using free_list_empty [OF l] free_list_empty [OF e(2)] e(1) Nil u by (simp_all add: TreeNewNode_def)
    obtain info' where i: "TreeNewNode True True info1 = Some (TreeSUCCESS, n, info')"
      "free_list info' [Suc n..<n + EXTEND_NODES]" "pool_change info1 info'"
      "nodes (header info') = n + EXTEND_NODES" "edit info' = edit info1" "node info' n = zero_node"
      "\<forall>j. j \<notin> set [n..<n + EXTEND_NODES] \<longrightarrow> node info' j = node info1 j"
      using pop_free [of info1 n "[Suc n..<n + EXTEND_NODES]" True True] e(2,4) unfolding u by force
    have "links_only (node info j) (node info' j)" for j
      using links_only_trans [OF TreeExpandNodes_keeps(1) [OF e(1), of j] pop [OF i(1) pos]] .
    moreover have "nci_kept info info'" using TreeExpandNodes_keeps(2) [OF e(1)] i(5) by (simp add: nci_kept_def)
    moreover have "tag_link (node info' j) = 0" if "n \<le> j" "j < nodes (header info')" for j
    proof -
      have "tag_link (node info1 j) = 0" using TreeExpandNodes_keeps(3) [OF e(1), of j] that i(4) n by simp
      then show ?thesis using pop [OF i(1) pos, of j] by (auto simp: links_only_def)
    qed
    ultimately show ?thesis
      using Nil e(5) u i run pool_change_trans [OF e(3) i(3)]
      by (intro exI [of _ n] exI [of _ info'] exI [of _ "[Suc n..<n + EXTEND_NODES]"]) simp
  qed
qed

lemma nci_kept_get:
  assumes "nci_kept info info'" "pool_change info info'" "edit info \<noteq> None"
  shows "j < nodes (header info) \<Longrightarrow> tree_get_and_lock_nci info' j = tree_get_and_lock_nci info j"
    "readable info j \<Longrightarrow> readable info' j"
proof -
  have same: "readonly (header info') = readonly (header info)" "nci_file info' = nci_file info"
    using assms(2) by (cases info; cases info'; cases "header info"; cases "header info'"; simp add: pool_change_def)+
  have f: "in_file info' k = in_file info k" for k using assms(1,3) by (auto simp: in_file_def nci_kept_def)
  show "j < nodes (header info) \<Longrightarrow> tree_get_and_lock_nci info' j = tree_get_and_lock_nci info j"
    unfolding tree_get_and_lock_nci_def f same
    using assms(1) by (auto simp: nci_kept_def in_file_def)
  show "readable info j \<Longrightarrow> readable info' j"
    unfolding readable_def tree_get_and_lock_nci_def f same by (auto split: if_splits)
qed


section \<open>Linking a new node\<close>

context brother_list begin

lemma insert_node_tag_link:
  assumes "insert_node ns p new s = Some ns'" shows "tag_link (ns' j) = tag_link (ns j)"
  using assms by (auto simp: insert_brother_def Let_def split: if_splits option.splits)

end

lemma hierarchy_usage: "hierarchy (ns(i := (ns i)\<lparr>usage := u\<rparr>)) L C M \<longleftrightarrow> hierarchy ns L C M"
proof -
  let ?ns = "ns(i := (ns i)\<lparr>usage := u\<rparr>)"
  have "brother0 ?ns = brother0 ns" "child0 ?ns = child0 ns" "member0 ?ns = member0 ns" "parent0 ?ns = parent0 ns"
    "(\<lambda>j. name (?ns j)) = (\<lambda>j. name (ns j))" by (auto intro!: ext)
  then have "\<And>j. child0 ?ns j = child0 ns j" "\<And>j. member0 ?ns j = member0 ns j" "\<And>j. parent0 ?ns j = parent0 ns j"
    "\<And>j. name (?ns j) = name (ns j)" "brother0 ?ns = brother0 ns" by (auto intro!: ext)
  then show ?thesis unfolding hierarchy_def children.lists_def members.lists_def by presburger
qed

lemma hierarchy_same:
  assumes h: "hierarchy ns L C M" and same: "\<And>q. q \<in> L \<Longrightarrow> ms q = ns q"
  shows "hierarchy ms L C M"
proof -
  have lk: "linked (brother0 ms) x ks = linked (brother0 ns) x ks" if "set ks \<subseteq> L" for x ks
    by (rule linked_cong) (use that same in auto)
  have "linked (brother0 ms) (child0 ms q) (C q) \<and> (\<forall>k\<in>set (C q). k \<in> L \<and> parent0 ms k = Some q)"
    "linked (brother0 ms) (member0 ms q) (M q) \<and> (\<forall>k\<in>set (M q). k \<in> L \<and> parent0 ms k = Some q)"
    "set (C q) \<inter> set (M q) = {} \<and> valid_name (name (ms q))" if q: "q \<in> L" for q
  proof -
    note l = hierarchy_lists [OF h q]
    have "parent0 ms k = Some q" if "k \<in> set (C q) \<union> set (M q)" for k
      using l(5) [OF that] same [of k] that l(2,4) by auto
    then show "linked (brother0 ms) (child0 ms q) (C q) \<and> (\<forall>k\<in>set (C q). k \<in> L \<and> parent0 ms k = Some q)"
      "linked (brother0 ms) (member0 ms q) (M q) \<and> (\<forall>k\<in>set (M q). k \<in> L \<and> parent0 ms k = Some q)"
      using l(1-4) lk same [OF q] by auto
    show "set (C q) \<inter> set (M q) = {} \<and> valid_name (name (ms q))" using h q same [OF q] by (simp add: hierarchy_def)
  qed
  then show ?thesis unfolding hierarchy_def children.lists_def members.lists_def by blast
qed

lemma node_text_name:
  assumes "path_name nm"
  shows "valid_name (node_text nm)" "trim_cpy (node_text nm) = nm"
proof -
  have len: "length nm \<le> 12" and ok: "\<forall>c\<in>set nm. name_char c" using assms by (simp_all add: path_name_def list_all_iff)
  have b: "CHR '' '' \<notin> set nm" "CHR 0x00 \<notin> set nm"
  proof -
    have "\<not> name_char CHR 0x00" by (auto simp: name_char_def alphaplus_def letter_def digit_def code_def)
    then show "CHR '' '' \<notin> set nm" "CHR 0x00 \<notin> set nm" using ok not_name_char(3) by blast+
  qed
  have "node_text nm = nm @ replicate (12 - length nm) CHR '' ''" using len by (simp add: node_text_def)
  moreover have "trim_cpy (nm @ replicate k CHR '' '') = nm" for k
    using b(1) by (cases k) (auto simp: trim_cpy_def takeWhile_append)
  ultimately show "valid_name (node_text nm)" "trim_cpy (node_text nm) = nm"
    using len b by (auto simp: valid_name_def)
qed

text \<open>Whether a node becomes a child, and the two lists of a node after that.\<close>

definition as_child :: "bool \<Rightarrow> int \<Rightarrow> bool" where
  "as_child is_child use \<longleftrightarrow>
     is_child \<and> use = int TreeUSAGE_ANY \<or> use = int TreeUSAGE_STRUCTURE \<or> use = int TreeUSAGE_SUBTREE"

definition with_node ::
    "bool \<Rightarrow> bool \<Rightarrow> (nat \<Rightarrow> NODE) \<Rightarrow> nat \<Rightarrow> nat \<Rightarrow> (nat \<Rightarrow> nat list) \<Rightarrow> nat \<Rightarrow> nat list" where
  "with_node here s ns p i K = (if here then K(i := [], p := inserted s ns i (K p)) else K(i := []))"

text \<open>What a link leaves as it was, for the nodes \<open>j\<close> that were there.\<close>

definition link_frame :: "TREE_INFO \<Rightarrow> TREE_INFO \<Rightarrow> nat \<Rightarrow> nat set \<Rightarrow> bool" where
  "link_frame info info' i L \<longleftrightarrow> info'\<lparr>node := node info\<rparr> = info
     \<and> (\<forall>j. tag_link (node info' j) = tag_link (node info j))
     \<and> (\<forall>j. j \<noteq> i \<longrightarrow> name (node info' j) = name (node info j) \<and> usage (node info' j) = usage (node info j)
          \<and> parent (node info' j) = parent (node info j))
     \<and> (\<forall>j. j \<notin> insert i L \<longrightarrow> child (node info' j) = child (node info j))"

lemma link_new_hierarchy:
  assumes h: "hierarchy (node info) L C M" and p: "p \<in> L" "i \<notin> L" and zero: "node info i = zero_node" and nm: "path_name nm"
  shows "\<exists>info'. link_new info p i nm is_child use = Some info' \<and> link_frame info info' i L
    \<and> hierarchy (node info') (insert i L)
        (with_node (as_child is_child use) (sort_children (header info)) (node info') p i C)
        (with_node (\<not> as_child is_child use) (sort_members (header info)) (node info') p i M)
    \<and> name (node info' i) = node_text nm \<and> plain_usage (node info' i)"
proof -
  define ns where "ns = (node info)(i := (node info i)\<lparr>name := node_text nm, child := 0,
    conglomerate_elt := conglomerate_index (the (edit info))\<rparr>)"
  have same: "ns j = node info j" if "j \<noteq> i" for j using that by (simp add: ns_def)
  have new: "child (ns i) = 0" "member (ns i) = 0" "tag_link (ns i) = 0" "name (ns i) = node_text nm"
    using zero by (simp_all add: ns_def zero_node_def)
  have vn: "valid_name (name (ns i))" using node_text_name(1) [OF nm] new by simp
  have hns: "hierarchy ns L C M"
  proof (rule hierarchy_same [OF h])
    fix q assume "q \<in> L"
    then have "q \<noteq> i" using p(2) by blast
    then show "ns q = node info q" by (rule same)
  qed
  have ins: "inserted s (ns'(i := (ns' i)\<lparr>usage := u\<rparr>)) i ks = inserted s ns i ks" if "\<forall>j. name (ns' j) = name (ns j)" for s ns' u ks
  proof -
    have "(\<lambda>j. name ((ns'(i := (ns' i)\<lparr>usage := u\<rparr>)) j)) = (\<lambda>j. name (ns j))" using that by (auto intro!: ext)
    then show ?thesis by (simp only: inserted_def)
  qed
  have goal: ?thesis if r: "link_new info p i nm is_child use = Some (info\<lparr>node := ns'(i := (ns' i)\<lparr>usage := u\<rparr>)\<rparr>)"
    and h': "hierarchy ns' (insert i L) (with_node (as_child is_child use) (sort_children (header info)) ns p i C)
        (with_node (\<not> as_child is_child use) (sort_members (header info)) ns p i M)"
    and nm': "\<forall>j. name (ns' j) = name (ns j) \<and> usage (ns' j) = usage (ns j) \<and> tag_link (ns' j) = tag_link (ns j)"
    and fr: "\<forall>j. (j \<noteq> i \<longrightarrow> parent (ns' j) = parent (ns j)) \<and> (j \<notin> insert i L \<longrightarrow> child (ns' j) = child (ns j))"
    and u: "u < 14" for ns' u
  proof (intro exI conjI)
    let ?ns = "ns'(i := (ns' i)\<lparr>usage := u\<rparr>)"
    show "link_new info p i nm is_child use = Some (info\<lparr>node := ?ns\<rparr>)" by (rule r)
    show "link_frame info (info\<lparr>node := ?ns\<rparr>) i L"
      using nm' fr same new(3) zero by (auto simp: link_frame_def zero_node_def)
    have "with_node b s ?ns p i K = with_node b s ns p i K" for b s K
      using ins nm' by (simp add: with_node_def)
    then show "hierarchy (node (info\<lparr>node := ?ns\<rparr>)) (insert i L)
        (with_node (as_child is_child use) (sort_children (header info)) (node (info\<lparr>node := ?ns\<rparr>)) p i C)
        (with_node (\<not> as_child is_child use) (sort_members (header info)) (node (info\<lparr>node := ?ns\<rparr>)) p i M)"
      using h' by (simp add: hierarchy_usage)
    show "name (node (info\<lparr>node := ?ns\<rparr>) i) = node_text nm" using nm' new(4) by simp
    show "plain_usage (node (info\<lparr>node := ?ns\<rparr>) i)"
      using u by (simp add: plain_usage_def TreeUSAGE_SUBTREE_REF_def TreeUSAGE_SUBTREE_TOP_def)
  qed
  note usages = TreeUSAGE_ANY_def TreeUSAGE_STRUCTURE_def TreeUSAGE_SUBTREE_def TreeUSAGE_MAXIMUM_def
  show ?thesis
  proof (cases "as_child is_child use")
    case True
    obtain ns' where r: "TreeInsertChild ns p i (sort_children (header info)) = Some ns'"
      and w: "children.well_formed ns' (insert i L) (C(i := [], p := inserted (sort_children (header info)) ns i (C p))) (M(i := []))"
      and fr: "children.frame ns ns' p i (C p)"
      using children.insert_well_formed [of ns L C M p i] hns p new(1,2) vn
      unfolding hierarchy_children TreeInsertChild_def by blast
    have t: "tag_link (ns' j) = tag_link (ns j)" for j
      using children.insert_node_tag_link r unfolding TreeInsertChild_def by blast
    show ?thesis
    proof (rule goal [of ns' "if use = int TreeUSAGE_SUBTREE then TreeUSAGE_SUBTREE else TreeUSAGE_STRUCTURE"])
      show "link_new info p i nm is_child use = Some (info\<lparr>node := ns'(i := (ns' i)
          \<lparr>usage := if use = int TreeUSAGE_SUBTREE then TreeUSAGE_SUBTREE else TreeUSAGE_STRUCTURE\<rparr>)\<rparr>)"
        using True r unfolding link_new_def Let_def ns_def [symmetric] as_child_def [symmetric] by (simp add: ns_def)
    qed (use True w t fr p in \<open>auto simp: hierarchy_children with_node_def children.frame_def usages\<close>)
  next
    case False
    obtain ns' where r: "TreeInsertMember ns p i (sort_members (header info)) = Some ns'"
      and w: "members.well_formed ns' (insert i L) (M(i := [], p := inserted (sort_members (header info)) ns i (M p))) (C(i := []))"
      and fr: "members.frame ns ns' p i (M p)"
      using members.insert_well_formed [of ns L M C p i] hns p new(1,2) vn
      unfolding hierarchy_members TreeInsertMember_def by blast
    have t: "tag_link (ns' j) = tag_link (ns j)" for j
      using members.insert_node_tag_link r unfolding TreeInsertMember_def by blast
    show ?thesis
    proof (rule goal [of ns' "if 0 \<le> use \<and> use < int TreeUSAGE_MAXIMUM then nat use else TreeUSAGE_ANY"])
      show "link_new info p i nm is_child use = Some (info\<lparr>node := ns'(i := (ns' i)
          \<lparr>usage := if 0 \<le> use \<and> use < int TreeUSAGE_MAXIMUM then nat use else TreeUSAGE_ANY\<rparr>)\<rparr>)"
        using False r unfolding link_new_def Let_def ns_def [symmetric] as_child_def [symmetric] by (simp add: ns_def)
    qed (use False w t fr p in \<open>auto simp: hierarchy_members with_node_def members.frame_def usages\<close>)
  qed
qed


section \<open>The characteristics of a new node\<close>

lemma NciGET_FLAGS_main:
  assumes t: "path_tree db L C M" and p: "p \<in> L" and r: "readable (tree_info db) p"
  shows "NciGET_FLAGS db (make_nid 0 p) = Inr (flags_at (tree_info db) p)"
proof -
  note d = path_treeD [OF t]
  have b: "p < nodes (header (tree_info db))" "p < 2 ^ 24" using d(10) [OF p] d(11) by simp_all
  have nid: "nid_to_node db (make_nid 0 p) = Some (0, p)"
    using main_tree_nid [of 0 db p] b by (simp add: infos_def)
  have idx: "nid_to_tree_idx db (make_nid 0 p) = (Some 0, p)"
    using unat_tree_part [of 0 p] b by (simp add: nid_to_tree_idx_def infos_def)
  have ex: "node_exists db (Some (0, p))"
    using upper_word_exists [of "name (node (tree_info db) p)" db "(0, p)"] d(5) p
    by (simp add: tidy_def node_name_def node_at_def infos_def)
  obtain n where n: "tree_get_and_lock_nci (tree_info db) p = Inr n" using r by (auto simp: readable_def)
  then have "tree_get_nci (tree_info db) p = Inr n"
    by (auto simp: tree_get_and_lock_nci_def tree_get_nci_def split: if_splits)
  then show ?thesis using nid idx ex n by (simp add: NciGET_FLAGS_def infos_def flags_at_def)
qed

lemma TreeIsOn_main:
  assumes "path_tree db L C M" "p \<in> L" "readable (tree_info db) p"
  shows "STATUS_OK (TreeIsOn db (make_nid 0 p)) \<longleftrightarrow> \<not> off (tree_info db) p \<and> \<not> parent_off (tree_info db) p"
  using NciGET_FLAGS_main [OF assms] path_treeD(1) [OF assms(1)] by (simp add: TreeIsOn_def off_def parent_off_def)

lemma put_new_nci_ok:
  assumes t: "path_tree db K C M" "L \<subseteq> K" and p: "p \<in> L" "i \<notin> L" and r: "\<forall>j. readable (tree_info db) j"
    and q: "\<forall>j\<in>L. flags_at info0 j = flags_at (tree_info db) j" and nid: "node_to_nid db (0, p) = make_nid 0 p"
  shows "\<exists>info'. put_new_nci db (0, p) i = (TreeSUCCESS, db\<lparr>tree_info := info'\<rparr>) \<and> same_tree (tree_info db) info'
    \<and> (edit (tree_info db) \<noteq> None \<longrightarrow> edit info' \<noteq> None)
    \<and> (\<forall>j. readable info' j) \<and> (\<forall>j\<in>L. flags_at info' j = flags_at info0 j)
    \<and> (parent_off info' i \<longleftrightarrow> off info0 p \<or> parent_off info0 p)"
proof -
  let ?on = "STATUS_OK (TreeIsOn db (make_nid 0 p))"
  define fl where "fl = (if ?on then 0 else NciM_PARENT_STATE) OR NciM_COMPRESS_ON_PUT"
  let ?info = "tree_put_nci (tree_info db) i (empty_nci\<lparr>flags := fl\<rparr>)"
  obtain n where "tree_get_and_lock_nci (tree_info db) i = Inr n" using r unfolding readable_def by blast
  then have "put_new_nci db (0, p) i = (TreeSUCCESS, db\<lparr>tree_info := ?info\<rparr>)"
    using nid by (simp add: put_new_nci_def fl_def Let_def)
  moreover have "flags_at ?info j = (if j = i then fl else flags_at (tree_info db) j)" for j
    using flags_put [of "tree_info db" i] r by simp
  moreover have "bit fl 1 \<longleftrightarrow> \<not> ?on"
    by (simp add: fl_def NciM_PARENT_STATE_def NciM_COMPRESS_ON_PUT_def bit_simps)
  moreover have "?on \<longleftrightarrow> \<not> off info0 p \<and> \<not> parent_off info0 p"
    using TreeIsOn_main [OF t(1) subsetD [OF t(2) p(1)]] r q p(1) by (simp add: off_def parent_off_def)
  moreover have "edit (tree_info db) \<noteq> None \<longrightarrow> edit ?info \<noteq> None" by (simp add: tree_put_nci_def Let_def)
  ultimately show ?thesis
    using q p(2) r tree_put_nci_laws(1) readable_put
    by (intro exI [of _ ?info]) (auto simp: off_bit)
qed


section \<open>The tree with the new node\<close>

lemma pool_changeD:
  assumes "pool_change info info'"
  shows "treenam info' = treenam info" "tag_index info' = tag_index info" "tag_info info' = tag_info info"
    "external info' = external info" "root info' = root info" "tags (header info') = tags (header info)"
    "sort_children (header info') = sort_children (header info)" "sort_members (header info') = sort_members (header info)"
  using assms by (cases info; cases info'; cases "header info"; cases "header info'"; simp add: pool_change_def)+

text \<open>The tags, when the nodes that come into use have none.\<close>

lemma tag_nums_none:
  assumes "\<forall>b\<in>set infs. node_idx b \<noteq> j" shows "tag_nums infs j = []"
proof -
  have "node_idx (infs ! (t - 1)) \<noteq> j" if "t \<in> set [1..<Suc (length infs)]" for t
  proof -
    have "t - 1 < length infs" using that by auto
    then show ?thesis using assms nth_mem by blast
  qed
  then show ?thesis by (auto simp: tag_nums_def filter_empty_conv simp del: upt_Suc)
qed

lemma tags_ok_more_nodes:
  assumes "tags_ok info" "tag_info info' = tag_info info" "tag_index info' = tag_index info"
    "tags (header info') = tags (header info)" "nodes (header info) \<le> nodes (header info')"
    and L: "\<forall>b\<in>set (tag_info info). node_idx b \<in> L"
    and link: "\<And>j. j < nodes (header info) \<Longrightarrow> j \<in> L \<Longrightarrow> tag_link (node info' j) = tag_link (node info j)"
      "\<And>j. j < nodes (header info') \<Longrightarrow> j \<notin> L \<Longrightarrow> tag_link (node info' j) = 0"
    and sub: "L \<subseteq> {..<nodes (header info)}"
  shows "tags_ok info'"
proof -
  have nums: "tag_nums (tag_info info) j = []" if "j \<notin> L" for j
    using tag_nums_none [of "tag_info info" j] L that by blast
  have "tag_chain (tag_info info) (tag_link (node info' j)) (tag_nums (tag_info info) j)" if j: "j < nodes (header info')" for j
  proof (cases "j \<in> L")
    case True
    then have "j < nodes (header info)" using sub by blast
    then show ?thesis using assms(1) link(1) [OF _ True] by (simp add: tags_ok_def)
  next
    case False
    then show ?thesis using link(2) [OF j False] nums by simp
  qed
  then show ?thesis using assms(1-5) by (auto simp: tags_ok_def)
qed

text \<open>What is known of the pool after \<open>TreeNewNode\<close>.\<close>

definition fresh_node ::
    "TREE_INFO \<Rightarrow> TREE_INFO \<Rightarrow> nat set \<Rightarrow> nat \<Rightarrow> nat list \<Rightarrow> bool" where
  "fresh_node info info' L i ys \<longleftrightarrow>
     free_list info' ys \<and> insert i L \<inter> set ys = {} \<and> i \<notin> L \<and> i < nodes (header info') \<and> node info' i = zero_node
     \<and> pool_change info info' \<and> nodes (header info) \<le> nodes (header info') \<and> nodes (header info') < 2 ^ 24
     \<and> (\<forall>j\<in>L. node info' j = node info j) \<and> (\<forall>j. plain_usage (node info' j))
     \<and> (\<forall>j<nodes (header info'). j \<notin> L \<longrightarrow> tag_link (node info' j) = 0) \<and> nci_kept info info'"

lemma TreeNewNode_fresh:
  assumes e: "edit_tree db L C M xs" and n: "nodes (header (tree_info db)) + EXTEND_NODES < 2 ^ 24"
  shows "\<exists>i info' ys. TreeNewNode True True (tree_info db) = Some (TreeSUCCESS, i, info')
    \<and> i # ys = (if xs = [] then [nodes (header (tree_info db))..<nodes (header (tree_info db)) + EXTEND_NODES] else xs)
    \<and> fresh_node (tree_info db) info' L i ys"
proof -
  let ?info = "tree_info db" and ?n = "nodes (header (tree_info db))"
  note ed = edit_treeD [OF e]
  note d = path_treeD [OF ed(1)]
  obtain i info' ys where new: "TreeNewNode True True ?info = Some (TreeSUCCESS, i, info')"
    and ys: "i # ys = (if xs = [] then [?n..<?n + EXTEND_NODES] else xs)"
    and fl: "free_list info' ys" "node info' i = zero_node" "pool_change ?info info'"
    and m: "nodes (header info') = (if xs = [] then ?n + EXTEND_NODES else ?n)"
    and old: "\<forall>j<?n. j \<notin> set xs \<longrightarrow> node info' j = node ?info j"
    and links: "\<forall>j. links_only (node ?info j) (node info' j)" and nk: "nci_kept ?info info'"
    and zero: "\<forall>j. ?n \<le> j \<and> j < nodes (header info') \<longrightarrow> tag_link (node info' j) = 0"
    using TreeNewNode_keeps [OF ed(6,3) refl] by blast
  have all: "distinct (i # ys)" "set (i # ys) \<subseteq> {..<nodes (header info')}" "L \<inter> set (i # ys) = {}"
  proof -
    have L: "x < ?n" if "x \<in> L" for x using that d(10) by blast
    have "distinct (i # ys) \<and> set (i # ys) \<subseteq> {..<nodes (header info')} \<and> L \<inter> set (i # ys) = {}"
      unfolding ys m using ed(6,7) by (auto simp: free_list_def dest!: L)
    then show "distinct (i # ys)" "set (i # ys) \<subseteq> {..<nodes (header info')}" "L \<inter> set (i # ys) = {}" by blast+
  qed
  have "usage (node info' j) = usage (node ?info j) \<or> usage (node info' j) = 0" for j
    using links by (auto simp: links_only_def)
  then have plain: "plain_usage (node info' j)" for j
    using d(2) by (metis infos_def nth_Cons_0 plain_tree_def plain_usage_def TreeUSAGE_SUBTREE_REF_def
        TreeUSAGE_SUBTREE_TOP_def zero_neq_numeral)
  have "tag_link (node info' j) = 0" if j: "j < nodes (header info')" "j \<notin> L" for j
  proof (cases "j < ?n")
    case True
    have "tag_nums (tag_info ?info) j = []" using tag_nums_none ed(8) j(2) by metis
    then have "tag_link (node ?info j) = 0" using d(6) True by (force simp: tags_ok_def)
    then show ?thesis using spec [OF links, of j] by (auto simp: links_only_def)
  qed (use zero j in simp)
  moreover have "node info' j = node ?info j" if "j \<in> L" for j
    using old d(10) [OF that] ed(7) that by blast
  ultimately have "fresh_node ?info info' L i ys"
    unfolding fresh_node_def using fl m nk plain all d(10) ed(7) n d(11) by auto
  then show ?thesis using new ys by blast
qed


lemma with_node_at:
  "j \<noteq> p \<Longrightarrow> with_node here s ns p i K j = (if j = i then [] else K j)"
  "p \<noteq> i \<Longrightarrow> with_node here s ns p i K p = (if here then inserted s ns i (K p) else K p)"
  by (auto simp: with_node_def)

lemma distinct_inserted: "distinct (map f (inserted s ns i xs)) \<longleftrightarrow> distinct (map f (i # xs))"
proof -
  have "mset (inserted s ns i xs) = mset (i # xs)" by (simp add: inserted_def)
  then have "mset (map f (inserted s ns i xs)) = mset (map f (i # xs))" by simp
  then show ?thesis by (rule mset_eq_imp_distinct_iff)
qed

lemma distinct_inserted_append:
  "distinct (map f (inserted s ns i xs @ ys)) \<longleftrightarrow> distinct (map f (i # xs @ ys))"
  "distinct (map f (xs @ inserted s ns i ys)) \<longleftrightarrow> distinct (map f (i # xs @ ys))"
  using distinct_inserted [of f s ns i] by (auto simp: distinct_append)

lemma linked_tree:
  fixes use :: int and is_child :: bool
  assumes e: "edit_tree db L C M xs" and f: "fresh_node (tree_info db) info L i ys" and p: "p \<in> L"
    and nm: "path_name nm" "map toupper nm = nm" "nm \<notin> node_name (node (tree_info db)) ` set (M p @ C p)"
  defines "C' \<equiv> \<lambda>info'. with_node (as_child is_child use) (sort_children (header (tree_info db))) (node info') p i C"
    and "M' \<equiv> \<lambda>info'. with_node (\<not> as_child is_child use) (sort_members (header (tree_info db))) (node info') p i M"
  shows "\<exists>info'. link_new info p i nm is_child use = Some info'
    \<and> path_tree (db\<lparr>tree_info := info'\<rparr>) (insert i L) (C' info') (M' info')
    \<and> free_list info' ys \<and> info'\<lparr>node := node info\<rparr> = info
    \<and> node_name (node info') i = nm \<and> (\<forall>j\<in>L. node_name (node info') j = node_name (node (tree_info db)) j)"
proof -
  note ed = edit_treeD [OF e]
  note d = path_treeD [OF ed(1)]
  have fl: "free_list info ys" "insert i L \<inter> set ys = {}" "i \<notin> L" "i < nodes (header info)" "node info i = zero_node"
    and pc: "pool_change (tree_info db) info" and m: "nodes (header (tree_info db)) \<le> nodes (header info)" "nodes (header info) < 2 ^ 24"
    and old: "\<And>j. j \<in> L \<Longrightarrow> node info j = node (tree_info db) j" and plain: "\<And>j. plain_usage (node info j)"
    and tl: "\<And>j. j < nodes (header info) \<Longrightarrow> j \<notin> L \<Longrightarrow> tag_link (node info j) = 0"
    using f by (auto simp: fresh_node_def)
  note pd = pool_changeD [OF pc]
  have h: "hierarchy (node info) L C M" using hierarchy_same [OF d(3)] old by blast
  obtain info' where r: "link_new info p i nm is_child use = Some info'" and fr: "link_frame info info' i L"
    and h': "hierarchy (node info') (insert i L) (C' info') (M' info')"
    and n': "name (node info' i) = node_text nm" "plain_usage (node info' i)"
    using link_new_hierarchy [OF h p fl(3,5) nm(1), of is_child use] pd(7,8) by (auto simp: C'_def M'_def)
  have node_only: "info'\<lparr>node := node info\<rparr> = info" using fr by (simp add: link_frame_def)
  then have same: "header info' = header info" "treenam info' = treenam info" "tag_info info' = tag_info info"
    "tag_index info' = tag_index info" "root info' = root info"
    by (cases info; cases info'; simp)+
  have new_name: "node_name (node info') i = nm" using n'(1) node_text_name(2) [OF nm(1)] by (simp add: node_name_def)
  have names: "node_name (node info') j = node_name (node (tree_info db)) j" if "j \<in> L" for j
  proof -
    have "j \<noteq> i" using that fl(3) by blast
    then show ?thesis using fr old [OF that] by (simp add: link_frame_def node_name_def)
  qed
  have sub: "set (M q @ C q) \<subseteq> L" if "q \<in> L" for q using hierarchy_lists(2,4) [OF d(3) that] by simp
  have map: "map (node_name (node info')) (M q @ C q) = map (node_name (node (tree_info db))) (M q @ C q)" if "q \<in> L" for q
    using names sub [OF that] by (intro map_cong) auto
  have pi: "p \<noteq> i" using p fl(3) by blast
  have "distinct (map (node_name (node info')) (M' info' q @ C' info' q))" if q: "q \<in> insert i L" for q
  proof (cases "q = p")
    case True
    have "nm \<notin> set (map (node_name (node info')) (M p @ C p))" using nm(3) unfolding map [OF p] by (simp add: image_Un)
    moreover have "distinct (map (node_name (node info')) (M p @ C p))"
      using d(4) p unfolding map [OF p] by (simp add: unique_names_def)
    ultimately have "distinct (map (node_name (node info')) (i # M p @ C p))" using new_name by simp
    then show ?thesis
      using True pi by (cases "as_child is_child use")
        (simp_all only: C'_def M'_def with_node_at simp_thms if_True if_False distinct_inserted_append)
  next
    case False
    show ?thesis
    proof (cases "q = i")
      case True
      then show ?thesis using pi by (simp add: C'_def M'_def with_node_at)
    next
      case qi: False
      then have "q \<in> L" using q by blast
      then have "distinct (map (node_name (node info')) (M q @ C q))"
        using d(4) unfolding map [OF \<open>q \<in> L\<close>] by (simp add: unique_names_def)
      then show ?thesis using False qi by (simp only: C'_def M'_def with_node_at simp_thms if_False)
    qed
  qed
  then have uniq: "unique_names (node info') (insert i L) (\<lambda>q. M' info' q @ C' info' q)" by (simp add: unique_names_def)
  have tidy: "tidy info' (insert i L)"
    using d(5) names new_name nm(1,2) pd(1,3) same
    by (auto simp: tidy_def upper_word_def tag_word_def path_name_def)
  have tags: "tags_ok info'"
  proof (rule tags_ok_more_nodes [OF d(6), of info' L])
    show "tag_info info' = tag_info (tree_info db)" "tag_index info' = tag_index (tree_info db)"
      "tags (header info') = tags (header (tree_info db))" "nodes (header (tree_info db)) \<le> nodes (header info')"
      using same pd m by simp_all
    show "\<forall>b\<in>set (tag_info (tree_info db)). node_idx b \<in> L" using ed(8) by blast
    show "tag_link (node info' j) = tag_link (node (tree_info db) j)" if "j \<in> L" for j
      using fr old [OF that] by (simp add: link_frame_def)
    show "tag_link (node info' j) = 0" if "j < nodes (header info')" "j \<notin> L" for j
      using fr tl [of j] that same by (simp add: link_frame_def)
    show "L \<subseteq> {..<nodes (header (tree_info db))}" using d(10) by blast
  qed
  have "plain_usage (node info' j)" for j
    using fr plain [of j] n'(2) by (cases "j = i") (simp_all add: link_frame_def plain_usage_def)
  then have plain': "plain_tree (db\<lparr>tree_info := info'\<rparr>) 0" by (simp add: plain_tree_def infos_def)
  have "parent (node info' 0) = 0"
    using fr old [OF d(7)] d(7,8) fl(3) by (cases "i = 0") (auto simp: link_frame_def)
  moreover have "L \<subseteq> {..<nodes (header info)}" using d(10) m by force
  ultimately have "path_tree (db\<lparr>tree_info := info'\<rparr>) (insert i L) (C' info') (M' info')"
    using d(1,7,9) plain' h' uniq tidy tags m fl(4) same pd(5) by (simp add: path_tree_def)
  moreover have "free_list info' ys"
  proof -
    have "child (node info' j) = child (node info j) \<and> parent (node info' j) = parent (node info j)" if "j \<in> set ys" for j
    proof -
      have "j \<noteq> i" "j \<notin> insert i L" using that fl(2) by blast+
      then show ?thesis using fr by (simp add: link_frame_def)
    qed
    then have "dll (node info') None ys None = dll (node info) None ys None" by (intro dll_cong) simp
    then show ?thesis using fl(1) same(1) by (simp add: free_list_def)
  qed
  ultimately show ?thesis using r node_only new_name names by blast
qed


section \<open>The invariant with the new node\<close>

lemma path_tree_same:
  assumes t: "path_tree db L C M" and s: "same_tree (tree_info db) info"
  shows "path_tree (db\<lparr>tree_info := info\<rparr>) L C M"
proof -
  note eq = same_treeD [OF s]
  show ?thesis using t by (simp add: path_tree_def plain_tree_def infos_def tidy_def tags_ok_def Let_def eq)
qed

lemma edit_tree_fields [simp]:
  "edit_tree (db\<lparr>setup_info := b\<rparr>) L C M xs \<longleftrightarrow> edit_tree db L C M xs"
  "edit_tree (db\<lparr>modified := b\<rparr>) L C M xs \<longleftrightarrow> edit_tree db L C M xs"
  by (simp_all add: edit_tree_def path_tree_def plain_tree_def infos_def IS_OPEN_FOR_EDIT_def)

lemma edit_tree_edit:
  assumes e: "edit_tree db L C M xs" and ed: "first_in_mem ed = first_in_mem (the (edit (tree_info db)))"
    "nci ed = nci (the (edit (tree_info db)))"
  shows "edit_tree (db\<lparr>tree_info := (tree_info db)\<lparr>edit := Some ed\<rparr>\<rparr>) L C M xs"
proof -
  note d = edit_treeD [OF e]
  let ?info = "(tree_info db)\<lparr>edit := Some ed\<rparr>"
  have "same_tree (tree_info db) ?info" by (simp add: same_tree_def)
  then have p: "path_tree (db\<lparr>tree_info := ?info\<rparr>) L C M" by (rule path_tree_same [OF d(1)])
  have get: "tree_get_and_lock_nci ?info j = tree_get_and_lock_nci (tree_info db) j" for j
    using ed d(3) by (auto simp: tree_get_and_lock_nci_def in_file_def)
  then have "readable ?info = readable (tree_info db)" "flags_at ?info = flags_at (tree_info db)"
    by (auto simp: readable_def flags_at_def intro!: ext)
  then show ?thesis
    using e p unfolding edit_tree_def Let_def
    by (simp add: states_ok_def off_def parent_off_def IS_OPEN_FOR_EDIT_def) blast
qed

lemma added_tree:
  assumes e: "edit_tree db L C M xs" and f: "fresh_node (tree_info db) info1 L i ys" and p: "p \<in> L"
    and t: "path_tree (db\<lparr>tree_info := info2\<rparr>) (insert i L)
      (with_node b s1 (node info2) p i C) (with_node (\<not> b) s2 (node info2) p i M)"
    and l: "free_list info2 ys" "info2\<lparr>node := node info1\<rparr> = info1"
  shows "\<exists>info3. put_new_nci (db\<lparr>tree_info := info2\<rparr>) (0, p) i = (TreeSUCCESS, db\<lparr>tree_info := info3\<rparr>)
    \<and> node info3 = node info2
    \<and> edit_tree (db\<lparr>tree_info := info3\<rparr>) (insert i L) (with_node b s1 (node info2) p i C) (with_node (\<not> b) s2 (node info2) p i M) ys"
proof -
  let ?db = "db\<lparr>tree_info := info2\<rparr>" and ?C = "with_node b s1 (node info2) p i C" and ?M = "with_node (\<not> b) s2 (node info2) p i M"
  let ?S = "\<lambda>q. set (C q) \<union> set (M q)" and ?S' = "\<lambda>q. set (?C q) \<union> set (?M q)"
  note ed = edit_treeD [OF e]
  note d = path_treeD [OF ed(1)]
  have i: "i \<notin> L" "p \<noteq> i" "insert i L \<inter> set ys = {}" and pc: "pool_change (tree_info db) info1"
    and nk: "nci_kept (tree_info db) info1"
    using f p by (auto simp: fresh_node_def)
  have same: "nci_file info2 = nci_file info1" "header info2 = header info1" "edit info2 = edit info1"
    "tag_info info2 = tag_info info1"
    using l(2) by (cases info1; cases info2; simp)+
  then have get: "tree_get_and_lock_nci info2 j = tree_get_and_lock_nci info1 j" for j
    by (simp add: tree_get_and_lock_nci_def in_file_def)
  have r: "readable info2 j" for j
    using nci_kept_get(2) [OF nk pc ed(3)] ed(9) by (simp add: readable_def get)
  have fl: "flags_at info2 j = flags_at (tree_info db) j" if "j \<in> L" for j
    using nci_kept_get(1) [OF nk pc ed(3) d(10) [OF that]] by (simp add: flags_at_def get)
  have b: "p < nodes (header info2)" "p < 2 ^ 24" using path_treeD(10,11) [OF t] p by fastforce+
  then have nid: "node_to_nid ?db (0, p) = make_nid 0 p" using main_tree_nid [of 0 ?db p] by (simp add: infos_def)
  obtain info3 where put: "put_new_nci ?db (0, p) i = (TreeSUCCESS, ?db\<lparr>tree_info := info3\<rparr>)" and st: "same_tree info2 info3"
    and e3: "edit info3 \<noteq> None" and r3: "\<And>j. readable info3 j" and fl3: "\<And>j. j \<in> L \<Longrightarrow> flags_at info3 j = flags_at (tree_info db) j"
    and pi: "parent_off info3 i \<longleftrightarrow> off (tree_info db) p \<or> parent_off (tree_info db) p"
  proof -
    have "\<forall>j. readable (tree_info ?db) j" "\<forall>j\<in>L. flags_at (tree_info db) j = flags_at (tree_info ?db) j" "edit info2 \<noteq> None"
      using r fl nk same(3) by (simp_all add: nci_kept_def)
    from put_new_nci_ok [OF t subset_insertI p i(1) this(1,2) nid] this(3) that show thesis by auto
  qed
  note eq = same_treeD [OF st]
  have S': "?S' q = (if q = p then insert i (?S p) else if q = i then {} else ?S q)" for q
    using i(2) by (cases b) (auto simp: with_node_def)
  have sub: "?S q \<subseteq> L" if "q \<in> L" for q using hierarchy_lists(2,4) [OF d(3) that] by simp
  have "path_tree (db\<lparr>tree_info := info3\<rparr>) (insert i L) ?C ?M"
    using path_tree_same [OF t, of info3] st by simp
  moreover have "free_list info3 ys" using l(1) eq by (simp add: free_list_def)
  moreover have "\<forall>b\<in>set (tag_info info3). node_idx b \<in> insert i L"
    using ed(8) pool_changeD(3) [OF pc] eq(5) same(4) by simp
  moreover have "states_ok info3 (insert i L) ?S'"
    unfolding states_ok_def
  proof (intro ballI)
    fix q k assume q: "q \<in> insert i L" "k \<in> ?S' q"
    have qL: "q \<in> L" using q S' [of q] p by (auto split: if_splits)
    then have flq: "off info3 q = off (tree_info db) q" "parent_off info3 q = parent_off (tree_info db) q"
      using fl3 by (simp_all add: off_def parent_off_def)
    show "parent_off info3 k \<longleftrightarrow> off info3 q \<or> parent_off info3 q"
    proof (cases "k = i")
      case True
      have "i \<notin> ?S q" using sub [OF qL] i(1) by blast
      then have "q = p" using q(2) True unfolding S' by (auto split: if_splits)
      then show ?thesis using True pi flq by simp
    next
      case False
      then have k: "k \<in> ?S q" using q(2) unfolding S' by (auto split: if_splits)
      then have "k \<in> L" using sub [OF qL] by blast
      then have "parent_off info3 k = parent_off (tree_info db) k" using fl3 by (simp add: parent_off_def)
      then show ?thesis using ed(10) qL k flq by (simp add: states_ok_def)
    qed
  qed
  moreover have "\<exists>r. ranked (insert i L) ?S' r"
  proof -
    obtain r where r: "ranked L ?S r" using ed(11) by blast
    have "ranked (insert i L) ?S' (\<lambda>j. if j = i then 0 else Suc (r j))"
      unfolding ranked_def S' using r i(1,2) p sub by (auto simp: ranked_def split: if_splits)
    then show ?thesis by blast
  qed
  ultimately have "edit_tree (db\<lparr>tree_info := info3\<rparr>) (insert i L) ?C ?M ys"
    using ed(2,4,5) e3 i(3) r3 unfolding edit_tree_def Let_def
    by (cases "default_node db") (simp add: IS_OPEN_FOR_EDIT_def, blast)
  then show ?thesis using put eq(1) by auto
qed


section \<open>Adding a node\<close>

text \<open>The names of a path as the search takes them.\<close>

abbreviation path_names :: "steps \<Rightarrow> string list" where
  "path_names ss \<equiv> map (\<lambda>s. map toupper (snd s)) ss"

lemma path_names_upper: "path_ok ss \<Longrightarrow> path_names (upper_steps ss) = path_names ss"
proof -
  assume "path_ok ss"
  then have "\<forall>s\<in>set ss. path_name (snd s)" by (cases ss) (auto simp: list_all_iff)
  then show ?thesis using name_upper_twice by (auto simp: comp_def)
qed

lemma paths_snoc: "j \<in> set (paths S nm (ts @ [t]) i) \<longleftrightarrow> (\<exists>p\<in>set (paths S nm ts i). j \<in> set (S p) \<and> nm j = t)"
proof -
  have "paths S nm [] = (\<lambda>i. [i])" by (rule ext) simp
  then show ?thesis by (auto simp: paths_append)
qed

lemma paths_more:
  assumes sub: "\<And>q. q \<in> L \<Longrightarrow> set (S q) \<subseteq> L \<and> set (S q) \<subseteq> set (S' q)" and nm: "\<And>j. j \<in> L \<Longrightarrow> nm' j = nm j"
  shows "i \<in> L \<Longrightarrow> j \<in> set (paths S nm ts i) \<Longrightarrow> j \<in> L \<and> j \<in> set (paths S' nm' ts i)"
proof (induction ts arbitrary: i)
  case (Cons t ts)
  then obtain k where k: "k \<in> set (S i)" "nm k = t" "j \<in> set (paths S nm ts k)" by auto
  then have "k \<in> L" "k \<in> set (S' i)" using sub [OF Cons.prems(1)] by auto
  then show ?case using Cons.IH [OF _ k(3)] k(2) nm by auto
qed simp

lemma find_parent:
  assumes e: "edit_tree db L C M xs" and ok: "path_ok (ps @ [(c, nm)])"
  shows "TreeFindParent db (map toupper (path_text (ps @ [(c, nm)]))) =
    Some (case paths (\<lambda>i. M i @ C i) (node_name (node (tree_info db))) (path_names ps) (snd (default_node db)) of
            [] \<Rightarrow> (TreeNNF, None, map toupper nm, c = ''.'')
          | p # _ \<Rightarrow> (TreeSUCCESS, Some (0, p), map toupper nm, c = ''.''))"
proof -
  note ed = edit_treeD [OF e]
  note d = path_treeD [OF ed(1)]
  let ?paths = "paths (\<lambda>i. M i @ C i) (node_name (node (tree_info db))) (path_names ps) (snd (default_node db))"
  have up: "map toupper (path_text (ps @ [(c, nm)])) = path_text (upper_steps ps @ [(c, map toupper nm)])"
    "path_ok (upper_steps ps @ [(c, map toupper nm)])"
    using upper_path [OF ok] by simp_all
  note find = TreeFindParent_path [OF up(2), of db]
  show ?thesis
  proof (cases "ps = []")
    case True
    then show ?thesis using find ed(4) unfolding up(1) by simp
  next
    case False
    then have pok: "path_ok ps" by (rule path_ok_last(3) [OF ok])
    have lookup: "TreeFindNode db (path_text (upper_steps ps)) =
        Some (case ?paths of [] \<Rightarrow> (TreeNNF, None) | j # _ \<Rightarrow> (TreeSUCCESS, Some (make_nid 0 j)))"
      using find_path [OF e upper_path(2) [OF pok]] unfolding path_names_upper [OF pok] .
    have nid: "nid_to_node db (make_nid 0 j) = Some (0, j)" if "?paths = j # js" for j js
    proof -
      have "j \<in> L" using paths_in [OF d(3) ed(5)] that by (metis list.set_intros(1) subsetD)
      then have "j < nodes (header (tree_info db))" "j < 2 ^ 24" using d(10) [of j] d(11) by simp_all
      then show ?thesis using main_tree_nid [of 0 db j] by (simp add: infos_def)
    qed
    show ?thesis using find False lookup nid unfolding up(1) by (cases ?paths) simp_all
  qed
qed

lemma count_part_tree:
  assumes e: "edit_tree db L C M xs" and ed: "ed = the (edit (tree_info db))"
  shows "if conglomerate_size ed \<noteq> 0 \<and> sint (conglomerate_index ed + 1) > sint (conglomerate_size ed)
    then count_part db = (TreeCONGLOMFULL, snd (TreeEndConglomerate db))
    else \<exists>db'. count_part db = (TreeSUCCESS, db') \<and> edit_tree db' L C M xs \<and> default_node db' = default_node db
      \<and> node (tree_info db') = node (tree_info db) \<and> header (tree_info db') = header (tree_info db)"
proof (cases "conglomerate_size ed \<noteq> 0 \<and> sint (conglomerate_index ed + 1) > sint (conglomerate_size ed)")
  case True
  then have "count_part db = (TreeCONGLOMFULL, snd (TreeEndConglomerate db))"
    using edit_treeD(2) [OF e] ed
    by (simp add: count_part_def TreeEndConglomerate_def Let_def IS_OPEN_FOR_EDIT_def)
  then show ?thesis using True by simp
next
  case full: False
  show ?thesis
  proof (cases "conglomerate_size ed = 0")
    case True
    then show ?thesis using e ed by (intro if_not_P [THEN iffD2]) (simp_all add: count_part_def Let_def)
  next
    case False
    let ?ed = "ed\<lparr>conglomerate_index := conglomerate_index ed + 1\<rparr>"
    have "edit_tree (db\<lparr>tree_info := (tree_info db)\<lparr>edit := Some ?ed\<rparr>\<rparr>) L C M xs"
      by (rule edit_tree_edit [OF e]) (simp_all add: ed)
    moreover have "count_part db = (TreeSUCCESS, db\<lparr>tree_info := (tree_info db)\<lparr>edit := Some ?ed\<rparr>\<rparr>)"
      using False full ed by (simp add: count_part_def Let_def)
    ultimately show ?thesis using full False by auto
  qed
qed

text \<open>The steps of \<open>_TreeAddNode\<close> from the new node on.\<close>

lemma add_new_node:
  assumes e: "edit_tree db L C M xs" and n: "nodes (header (tree_info db)) + EXTEND_NODES < 2 ^ 24" and p: "p \<in> L"
    and nm: "path_name nm" "map toupper nm = nm" "nm \<notin> node_name (node (tree_info db)) ` set (M p @ C p)"
  shows "\<exists>i info1 info2 info3 ys. TreeNewNode True True (tree_info db) = Some (TreeSUCCESS, i, info1)
    \<and> link_new info1 p i nm is_child use = Some info2
    \<and> put_new_nci (db\<lparr>tree_info := info2\<rparr>) (0, p) i = (TreeSUCCESS, db\<lparr>tree_info := info3\<rparr>)
    \<and> i # ys = (if xs = [] then [nodes (header (tree_info db))..<nodes (header (tree_info db)) + EXTEND_NODES] else xs)
    \<and> i \<notin> L \<and> node_to_nid (db\<lparr>tree_info := info3\<rparr>) (0, i) = make_nid 0 i
    \<and> edit_tree (db\<lparr>tree_info := info3\<rparr>) (insert i L)
        (with_node (as_child is_child use) (sort_children (header (tree_info db))) (node info3) p i C)
        (with_node (\<not> as_child is_child use) (sort_members (header (tree_info db))) (node info3) p i M) ys
    \<and> node_name (node info3) i = nm \<and> (\<forall>j\<in>L. node_name (node info3) j = node_name (node (tree_info db)) j)"
proof -
  obtain i info1 ys where new: "TreeNewNode True True (tree_info db) = Some (TreeSUCCESS, i, info1)"
    "i # ys = (if xs = [] then [nodes (header (tree_info db))..<nodes (header (tree_info db)) + EXTEND_NODES] else xs)"
    and f: "fresh_node (tree_info db) info1 L i ys"
    using TreeNewNode_fresh [OF e n] by blast
  obtain info2 where link: "link_new info1 p i nm is_child use = Some info2"
    and t: "path_tree (db\<lparr>tree_info := info2\<rparr>) (insert i L)
      (with_node (as_child is_child use) (sort_children (header (tree_info db))) (node info2) p i C)
      (with_node (\<not> as_child is_child use) (sort_members (header (tree_info db))) (node info2) p i M)"
    and l: "free_list info2 ys" "info2\<lparr>node := node info1\<rparr> = info1" and names: "node_name (node info2) i = nm"
      "\<forall>j\<in>L. node_name (node info2) j = node_name (node (tree_info db)) j"
    using linked_tree [OF e f p nm, of is_child use] by blast
  obtain info3 where put: "put_new_nci (db\<lparr>tree_info := info2\<rparr>) (0, p) i = (TreeSUCCESS, db\<lparr>tree_info := info3\<rparr>)"
    and n3: "node info3 = node info2"
    and e3: "edit_tree (db\<lparr>tree_info := info3\<rparr>) (insert i L)
      (with_node (as_child is_child use) (sort_children (header (tree_info db))) (node info2) p i C)
      (with_node (\<not> as_child is_child use) (sort_members (header (tree_info db))) (node info2) p i M) ys"
    using added_tree [OF e f p t l] by blast
  note d3 = path_treeD [OF edit_treeD(1) [OF e3]]
  have "node_to_nid (db\<lparr>tree_info := info3\<rparr>) (0, i) = make_nid 0 i"
    using main_tree_nid [of 0 "db\<lparr>tree_info := info3\<rparr>" i] d3(10) [of i] d3(11) by (simp add: infos_def)
  moreover have "i \<notin> L" using f by (simp add: fresh_node_def)
  ultimately show ?thesis using new link put e3 names n3 by (intro exI [of _ i] exI [of _ info1] exI [of _ info2] exI [of _ info3] exI [of _ ys]) simp
qed


lemma none_named: "{j \<in> A. f j = b} = {} \<longleftrightarrow> b \<notin> f ` A"
  by auto

text \<open>Whether there is a node at a path, seen from its parent.\<close>

lemma find_below:
  assumes e: "edit_tree db L C M xs" and ok: "path_ok (ps @ [(c, nm)])"
    and ns: "ns = node (tree_info db)"
    and par: "parents = paths (\<lambda>i. M i @ C i) (node_name ns) (path_names ps) (snd (default_node db))"
  shows "\<exists>nid. TreeFindNode db (map toupper (path_text (ps @ [(c, nm)]))) = Some (case parents of
      [] \<Rightarrow> (TreeNNF, None)
    | p # _ \<Rightarrow> if map toupper nm \<in> node_name ns ` set (M p @ C p) then (TreeSUCCESS, nid) else (TreeNNF, None))"
proof -
  note d = edit_treeD [OF e]
  note t = path_treeD [OF d(1)]
  let ?there = "paths (\<lambda>i. M i @ C i) (node_name ns) (path_names ps @ [map toupper nm]) (snd (default_node db))"
  have find: "TreeFindNode db (map toupper (path_text (ps @ [(c, nm)]))) = Some (case ?there of
      [] \<Rightarrow> (TreeNNF, None) | j # _ \<Rightarrow> (TreeSUCCESS, Some (make_nid 0 j)))"
    using find_path [OF e upper_path(2) [OF ok]] unfolding path_names_upper [OF ok] upper_path(1) [OF ok] ns by simp
  show ?thesis
  proof (cases parents)
    case Nil
    then have "j \<notin> set ?there" for j unfolding paths_snoc using par by simp
    then have "?there = []" by (metis list.set_intros(1) neq_Nil_conv)
    then show ?thesis using find Nil by simp
  next
    case (Cons p rest)
    then have one: "parents = [p]" using paths_unique [OF t(3,4) d(5), of "path_names ps"] ns par by auto
    let ?named = "{j \<in> set (M p @ C p). node_name ns j = map toupper nm}"
    have "j \<in> set ?there \<longleftrightarrow> j \<in> ?named" for j unfolding paths_snoc using one par by simp
    then have s: "set ?there = ?named" by (rule set_eqI)
    have "?there = [] \<longleftrightarrow> set ?there = {}" by (rule set_empty [symmetric])
    also have "\<dots> \<longleftrightarrow> map toupper nm \<notin> node_name ns ` set (M p @ C p)" unfolding s by (rule none_named)
    finally have "?there = [] \<longleftrightarrow> map toupper nm \<notin> node_name ns ` set (M p @ C p)" .
    then show ?thesis using find one by (auto split: list.splits)
  qed
qed

text \<open>The new path leads to the new node.\<close>

lemma find_new_node:
  assumes e: "edit_tree db L C M xs" and e': "edit_tree db' (insert i L) C' M' ys"
    and ok: "path_ok (ps @ [(c, nm)])" and d: "default_node db' = default_node db"
    and p: "p \<in> set (paths (\<lambda>i. M i @ C i) (node_name (node (tree_info db))) (path_names ps) (snd (default_node db)))"
    and C': "C' = with_node b s1 ns p i C" and M': "M' = with_node (\<not> b) s2 ns p i M" and i: "i \<notin> L"
    and names: "node_name (node (tree_info db')) i = map toupper nm"
      "\<forall>j\<in>L. node_name (node (tree_info db')) j = node_name (node (tree_info db)) j"
  shows "TreeFindNode db' (path_text (ps @ [(c, nm)])) = Some (TreeSUCCESS, Some (make_nid 0 i))"
proof -
  let ?nm' = "node_name (node (tree_info db'))" and ?i = "snd (default_node db)"
  note ed = edit_treeD [OF e] and ed' = edit_treeD [OF e']
  note t = path_treeD [OF ed(1)] and t' = path_treeD [OF ed'(1)]
  have "p \<in> L \<and> p \<in> set (paths (\<lambda>j. M' j @ C' j) ?nm' (path_names ps) ?i)"
  proof (rule paths_more [OF _ _ ed(5) p])
    show "set (M q @ C q) \<subseteq> L \<and> set (M q @ C q) \<subseteq> set (M' q @ C' q)" if "q \<in> L" for q
    proof
      show "set (M q @ C q) \<subseteq> L" using hierarchy_lists(2,4) [OF t(3) that] by simp
      have "q \<noteq> i" using that i by blast
      then show "set (M q @ C q) \<subseteq> set (M' q @ C' q)" unfolding C' M' by (cases b) (auto simp: with_node_def)
    qed
    show "?nm' j = node_name (node (tree_info db)) j" if "j \<in> L" for j using names(2) that by blast
  qed
  moreover from this have "p \<noteq> i" using i by blast
  then have "i \<in> set (M' p @ C' p)" unfolding C' M' by (cases b) (auto simp: with_node_def)
  ultimately have "i \<in> set (paths (\<lambda>j. M' j @ C' j) ?nm' (path_names ps @ [map toupper nm]) ?i)"
    unfolding paths_snoc using names(1) by blast
  then have "paths (\<lambda>j. M' j @ C' j) ?nm' (path_names ps @ [map toupper nm]) ?i = [i]"
    using paths_unique [OF t'(3,4) ed'(5), of "path_names ps @ [map toupper nm]"] unfolding d by auto
  then show ?thesis using find_path [OF e' ok] d by simp
qed

text \<open>
  C4: \<open>_TreeAddNode\<close> ends and adds the node that a path names. Without a parent at the path the status is
  \<open>TreeNNF\<close>, and when there is a node at the path already it is \<open>TreeALREADY_THERE\<close>, both without a change; a
  full conglomerate is ended with \<open>TreeINVPATH\<close>. Otherwise the first free node becomes a child or a member of the
  parent, all invariants of the tree hold again, and the path, which led nowhere, leads to the new node.
\<close>

theorem TreeAddNode_adds:
  assumes "edit_tree db L C M xs" and "path_ok (ps @ [(c, nm)])" and "info = tree_info db" and "ed = the (edit info)"
    and "nodes (header info) + EXTEND_NODES < 2 ^ 24"
    and "parents = paths (\<lambda>i. M i @ C i) (node_name (node info)) (path_names ps) (snd (default_node db))"
    and "result = TreeAddNode True True db (path_text (ps @ [(c, nm)])) use"
  shows "case parents of
      [] \<Rightarrow> result = Some (TreeNNF, None, db)
    | p # _ \<Rightarrow>
        if map toupper nm \<in> node_name (node info) ` set (M p @ C p) then result = Some (TreeALREADY_THERE, None, db)
        else if conglomerate_size ed \<noteq> 0 \<and> sint (conglomerate_index ed + 1) > sint (conglomerate_size ed)
        then result = Some (TreeINVPATH, None, snd (TreeEndConglomerate db))
        else \<exists>i ys db'. result = Some (TreeSUCCESS, Some (make_nid 0 i), db')
          \<and> i # ys = (if xs = [] then [nodes (header info)..<nodes (header info) + EXTEND_NODES] else xs)
          \<and> i \<notin> L \<and> modified db' \<and> node_name (node (tree_info db')) i = map toupper nm
          \<and> edit_tree db' (insert i L)
              (with_node (as_child (c = ''.'') use) (sort_children (header info)) (node (tree_info db')) p i C)
              (with_node (\<not> as_child (c = ''.'') use) (sort_members (header info)) (node (tree_info db')) p i M) ys
          \<and> TreeFindNode db' (path_text (ps @ [(c, nm)])) = Some (TreeSUCCESS, Some (make_nid 0 i))"
proof -
  let ?path = "path_text (ps @ [(c, nm)])" and ?NM = "map toupper nm"
  note e = assms(1) and ok = assms(2)
  note d = edit_treeD [OF e]
  note t = path_treeD [OF d(1)]
  have NM: "path_name ?NM" "map toupper ?NM = ?NM"
    using path_ok_last(1) [OF ok] path_name_upper name_upper_twice by blast+
  have parent: "TreeFindParent db (map toupper ?path) = Some (case parents of
      [] \<Rightarrow> (TreeNNF, None, ?NM, c = ''.'') | p # _ \<Rightarrow> (TreeSUCCESS, Some (0, p), ?NM, c = ''.''))"
    using find_parent [OF e ok] assms(3,6) by simp
  note run = assms(7) TreeAddNode_def d(2) parent
  show ?thesis
  proof (cases parents)
    case Nil
    then show ?thesis using run by simp
  next
    case (Cons p rest)
    then have par: "parents = [p]" and p: "p \<in> L"
      using paths_unique [OF t(3,4) d(5), of "path_names ps"] assms(3,6) by auto
    have found: "\<exists>nid. TreeFindNode db (map toupper ?path) =
        Some (if ?NM \<in> node_name (node info) ` set (M p @ C p) then (TreeSUCCESS, nid) else (TreeNNF, None))"
      using find_below [OF e ok _ assms(6)] Cons assms(3) by simp
    show ?thesis
    proof (cases "?NM \<in> node_name (node info) ` set (M p @ C p)")
      case True
      then show ?thesis using run found Cons by auto
    next
      case new: False
      then have there: "TreeFindNode db (map toupper ?path) = Some (TreeNNF, None)" using found by auto
      note cp = count_part_tree [OF e, of ed]
      show ?thesis
      proof (cases "conglomerate_size ed \<noteq> 0 \<and> sint (conglomerate_index ed + 1) > sint (conglomerate_size ed)")
        case True
        then have "count_part db = (TreeCONGLOMFULL, snd (TreeEndConglomerate db))" using cp assms(3,4) by simp
        then show ?thesis using run there Cons new True by simp
      next
        case False
        then obtain db1 where db1: "count_part db = (TreeSUCCESS, db1)" "edit_tree db1 L C M xs" "default_node db1 = default_node db"
            "node (tree_info db1) = node info" "header (tree_info db1) = header info"
          using cp assms(3,4) by auto
        have size: "nodes (header (tree_info db1)) + EXTEND_NODES < 2 ^ 24" using assms(5) db1(5) by simp
        obtain i info1 info2 info3 ys where steps: "TreeNewNode True True (tree_info db1) = Some (TreeSUCCESS, i, info1)"
            "link_new info1 p i ?NM (c = ''.'') use = Some info2"
            "put_new_nci (db1\<lparr>tree_info := info2\<rparr>) (0, p) i = (TreeSUCCESS, db1\<lparr>tree_info := info3\<rparr>)"
          and i: "i # ys = (if xs = [] then [nodes (header info)..<nodes (header info) + EXTEND_NODES] else xs)" "i \<notin> L"
            "node_to_nid (db1\<lparr>tree_info := info3\<rparr>) (0, i) = make_nid 0 i"
          and e3: "edit_tree (db1\<lparr>tree_info := info3\<rparr>) (insert i L)
            (with_node (as_child (c = ''.'') use) (sort_children (header info)) (node info3) p i C)
            (with_node (\<not> as_child (c = ''.'') use) (sort_members (header info)) (node info3) p i M) ys"
          and names: "node_name (node info3) i = ?NM" "\<forall>j\<in>L. node_name (node info3) j = node_name (node info) j"
          using add_new_node [OF db1(2) size p NM new [folded db1(4)], of "c = ''.''" use] unfolding db1(4,5) by blast
        let ?db = "db1\<lparr>tree_info := info3, modified := True\<rparr>"
        have e': "edit_tree ?db (insert i L)
            (with_node (as_child (c = ''.'') use) (sort_children (header info)) (node info3) p i C)
            (with_node (\<not> as_child (c = ''.'') use) (sort_members (header info)) (node info3) p i M) ys"
          using e3 by simp
        have "TreeFindNode ?db ?path = Some (TreeSUCCESS, Some (make_nid 0 i))"
          by (rule find_new_node [OF e e' ok _ _ refl refl i(2)]) (use db1(3) names par assms(3,6) in simp_all)
        moreover have "result = Some (TreeSUCCESS, Some (make_nid 0 i), ?db)"
          using run there Cons db1(1) steps i(3) by simp
        ultimately show ?thesis using e' i(1,2) names(1) new False Cons by auto
      qed
    qed
  qed
qed


text \<open>The tree of \<open>two_nodes\<close> without a free node: a new node extends the pool.\<close>

definition full_tree :: TREE_INFO where
  "full_tree = (switches False)\<lparr>header := (header (switches False))\<lparr>free := -1\<rparr>\<rparr>"

lemma full_edit_tree: "edit_tree (edit_slot full_tree) {0, 1} small_children (\<lambda>_. []) []"
proof -
  have info: "tree_info small_db = switches False" by (simp add: edit_slot_def)
  have eqs: "node full_tree = node (switches False)" "treenam full_tree = treenam (switches False)"
    "tag_info full_tree = tag_info (switches False)" "tag_index full_tree = tag_index (switches False)"
    "root full_tree = root (switches False)" "tags (header full_tree) = tags (header (switches False))"
    "nodes (header full_tree) = nodes (header (switches False))" "free (header full_tree) = -1"
    "edit full_tree = edit (switches False)" "nci_file full_tree = nci_file (switches False)"
    "readonly (header full_tree) = readonly (header (switches False))"
    by (simp_all add: full_tree_def)
  have "path_tree (edit_slot full_tree) {0, 1} small_children (\<lambda>_. [])"
    using small_path_tree
    by (simp add: path_tree_def Let_def edit_slot_def eqs tidy_def tags_ok_def plain_tree_def infos_def)
  moreover have get: "tree_get_and_lock_nci full_tree = tree_get_and_lock_nci (switches False)"
    by (rule ext) (simp add: tree_get_and_lock_nci_def in_file_def eqs)
  have "readable (switches False) j" for j
    by (simp add: readable_def tree_get_and_lock_nci_def switches_def zero_info_def zero_header_def in_file_def zero_edit_def)
  then have "readable full_tree j" for j by (simp add: readable_def get)
  moreover have "states_ok full_tree {0, 1} one_child"
    using switches_hyps(6) [of False] by (simp add: states_ok_def off_def parent_off_def flags_at_def get)
  moreover have "\<exists>r. ranked {0, 1} one_child r" using two_nodes_shape(1) by blast
  moreover have "edit full_tree \<noteq> None" "tag_info full_tree = []"
    by (simp_all add: full_tree_def switches_def zero_info_def)
  moreover have "free_list full_tree []" by (simp add: free_list_def eqs(8))
  ultimately show ?thesis
    unfolding edit_tree_def Let_def by (auto simp: edit_slot_def IS_OPEN_FOR_EDIT_def eqs(5) switches_def zero_info_def)
qed

lemma TreeAddNode_adds_witness:
  "\<exists>db'. TreeAddNode True True (edit_slot full_tree) ''.c'' (int TreeUSAGE_ANY) = Some (TreeSUCCESS, Some (make_nid 0 3), db')
     \<and> TreeFindNode db' ''.c'' = Some (TreeSUCCESS, Some (make_nid 0 3))"
proof -
  let ?db = "edit_slot full_tree"
  have info: "tree_info ?db = full_tree" "node full_tree = two_nodes" "nodes (header full_tree) = 3" "snd (default_node ?db) = 0"
    "conglomerate_size (the (edit full_tree)) = 0"
    by (simp_all add: edit_slot_def full_tree_def switches_def zero_info_def zero_edit_def)
  have ok: "path_ok ([] @ [(''.'', ''c'')])"
    by (simp add: path_name_def name_char_def alphaplus_def letter_def digit_def code_def)
  have up: "map toupper ''c'' = ''C''" by code_simp
  have path: "path_text ([] @ [(''.'', ''c'')]) = ''.c''" by (simp add: path_text_def)
  have first: "i # ys = [3..<3 + EXTEND_NODES] \<Longrightarrow> i = 3" for i ys
    by (auto simp: EXTEND_NODES_def upt_conv_Cons)
  show ?thesis
    using TreeAddNode_adds [OF full_edit_tree ok refl refl _ refl refl, of "int TreeUSAGE_ANY"] first small_names(1)
    unfolding path info up by (auto simp: EXTEND_NODES_def)
qed

end
