(* ===== verification/TreeSubtree.thy ===== *)
theory TreeSubtree
  imports TreeTags
begin

text \<open>
  Subtree references (\<open>_TreeSetSubtree\<close>, \<open>_TreeSetNoSubtree\<close> in \<open>TreeAddNode.c\<close>): an array of the
  indices of the nodes that stand for the top of another tree, and the usage of these nodes. The
  abstract view is the set of the nodes.

  A result is \<open>None\<close> where the code follows a null pointer, subtracts pointers into two pools or does
  not end.
\<close>

section \<open>The operations\<close>

text \<open>The position of an element in the array, its length when it is not there.\<close>

fun ext_idx :: "nat list \<Rightarrow> nat \<Rightarrow> nat" where
  "ext_idx [] i = 0"
| "ext_idx (x # xs) i = (if x = i then 0 else Suc (ext_idx xs i))"

definition set_usage :: "TREE_INFO \<Rightarrow> nat \<Rightarrow> nat \<Rightarrow> TREE_INFO" where
  "set_usage info i u = info\<lparr>node := (node info)(i := (node info i)\<lparr>usage := u\<rparr>)\<rparr>"

text \<open>The array one element longer; \<open>None\<close> stands for the return with \<open>TreeMEMERR\<close>.\<close>

definition expand_external :: "bool \<Rightarrow> TREE_INFO \<Rightarrow> nat \<Rightarrow> TREE_INFO option" where
  "expand_external mem info i =
     (let ed = the (edit info); numext = externals (header info) + 1;
          needed = (numext * 4 + 511) div 512; allocated = max ((numext * 4 + 507) div 512) (external_pages ed)
      in if needed > allocated \<and> \<not> mem then None
         else Some (info\<lparr>edit := Some (ed\<lparr>external_pages := (if needed > allocated then needed else external_pages ed)\<rparr>),
                         external := take (numext - 1) (external info) @ [i],
                         header := (header info)\<lparr>externals := numext\<rparr>\<rparr>))"

definition TreeSetSubtree :: "bool \<Rightarrow> PINO_DATABASE \<Rightarrow> u32 \<Rightarrow> (status \<times> PINO_DATABASE) option" where
  "TreeSetSubtree mem db nid =
     (if \<not> IS_OPEN_FOR_EDIT db then Some (TreeNOEDIT, db)
      else case nid_to_node db nid of
        None \<Rightarrow> None
      | Some (t, i) \<Rightarrow>
          if child (node_at db (t, i)) \<noteq> 0 then Some (TreeNOTCHILDLESS, db)
          else if member (node_at db (t, i)) \<noteq> 0 then Some (TreeNOTMEMBERLESS, db)
          else Option.bind (TreeIsChild db (t, i))
            (\<lambda>is_child.
               if \<not> is_child then Some (TreeNOTSON, db)
               else if t \<noteq> 0 then None
               else let info = tree_info db
                    in if ext_idx (take (externals (header info)) (external info)) i < externals (header info)
                       then Some (TreeSUCCESS,
                              if usage (node info i) \<noteq> TreeUSAGE_SUBTREE
                              then db\<lparr>tree_info := set_usage info i TreeUSAGE_SUBTREE, modified := True\<rparr> else db)
                       else case expand_external mem info i of
                              None \<Rightarrow> Some (TreeMEMERR, db)
                            | Some info \<Rightarrow>
                                Some (TreeSUCCESS,
                                  db\<lparr>tree_info := set_usage info i TreeUSAGE_SUBTREE, modified := True\<rparr>)))"

definition TreeSetNoSubtree :: "PINO_DATABASE \<Rightarrow> u32 \<Rightarrow> (status \<times> PINO_DATABASE) option" where
  "TreeSetNoSubtree db nid =
     (if \<not> IS_OPEN_FOR_EDIT db then Some (TreeNOEDIT, db)
      else case nid_to_node db nid of
        Some (0, i) \<Rightarrow>
          let info = tree_info db; n = externals (header info); k = ext_idx (take n (external info)) i
          in if k \<ge> n then Some (TreeSUCCESS, db)
             else Some (TreeSUCCESS,
                    db\<lparr>tree_info := set_usage (info\<lparr>header := (header info)\<lparr>externals := n - 1\<rparr>,
                                                 external := take k (external info) @ drop (Suc k) (external info)\<rparr>)
                                     i TreeUSAGE_STRUCTURE,
                       modified := True\<rparr>)
      | _ \<Rightarrow> None)"

section \<open>The set of references\<close>

definition external_ok :: "TREE_INFO \<Rightarrow> bool" where
  "external_ok info \<longleftrightarrow> length (external info) = externals (header info) \<and> distinct (external info)
     \<and> (\<forall>i\<in>set (external info). usage (node info i) = TreeUSAGE_SUBTREE)"

lemma ext_idx_less: "ext_idx xs i < length xs \<longleftrightarrow> i \<in> set xs"
  by (induction xs) auto

lemma ext_idx_le: "ext_idx xs i \<le> length xs"
  by (induction xs) auto

lemma ext_idx_nth: "i \<in> set xs \<Longrightarrow> xs ! ext_idx xs i = i"
  by (induction xs) auto

lemma ext_idx_del:
  assumes "distinct xs" "i \<in> set xs"
  shows "set (del_at (ext_idx xs i) xs) = set xs - {i}" "distinct (del_at (ext_idx xs i) xs)"
    "length (del_at (ext_idx xs i) xs) = length xs - 1"
proof -
  have k: "ext_idx xs i < length xs" "xs ! ext_idx xs i = i"
    using assms by (simp_all add: ext_idx_less ext_idx_nth)
  show "set (del_at (ext_idx xs i) xs) = set xs - {i}" using del_at_set [OF assms(1) k(1)] k(2) by simp
  show "distinct (del_at (ext_idx xs i) xs)"
    using assms(1) id_take_nth_drop [OF k(1)]
    by (metis distinct_append distinct.simps(2) disjoint_insert(2) list.set(2))
  show "length (del_at (ext_idx xs i) xs) = length xs - 1" using k(1) by simp
qed

text \<open>
  \<open>_TreeSetSubtree\<close> makes a node a subtree reference only when it is a child without children and
  members, each refusal with its own status and no change; otherwise the node joins the set of the
  references, once, and has the usage of one.
\<close>

theorem TreeSetSubtree_inserts:
  assumes "IS_OPEN_FOR_EDIT db" and "external_ok (tree_info db)" and "nid_to_node db nid = Some (0, i)"
    and "TreeIsChild db (0, i) = Some c" and "n = node (tree_info db) i"
  shows "\<exists>status db'. TreeSetSubtree True db nid = Some (status, db') \<and> external_ok (tree_info db')
    \<and> (if child n \<noteq> 0 then status = TreeNOTCHILDLESS \<and> db' = db
       else if member n \<noteq> 0 then status = TreeNOTMEMBERLESS \<and> db' = db
       else if \<not> c then status = TreeNOTSON \<and> db' = db
       else status = TreeSUCCESS \<and> usage (node (tree_info db') i) = TreeUSAGE_SUBTREE
         \<and> set (external (tree_info db')) = insert i (set (external (tree_info db))))"
proof -
  let ?info = "tree_info db"
  have len: "length (external ?info) = externals (header ?info)" using assms(2) by (simp add: external_ok_def)
  have at: "node_at db (0, i) = n" by (simp add: node_at_def infos_def assms(5))
  show ?thesis
  proof (cases "child n = 0 \<and> member n = 0 \<and> c")
    case False
    then show ?thesis using assms at by (auto simp: TreeSetSubtree_def)
  next
    case True
    show ?thesis
    proof (cases "i \<in> set (external ?info)")
      case old: True
      then have "usage n = TreeUSAGE_SUBTREE" using assms by (simp add: external_ok_def)
      then have "TreeSetSubtree True db nid = Some (TreeSUCCESS, db)"
        using True old assms at ext_idx_less [of "external ?info" i] len by (simp add: TreeSetSubtree_def Let_def)
      then show ?thesis using True old assms by (auto simp: external_ok_def)
    next
      case new: False
      obtain e where e: "expand_external True ?info i =
          Some (?info\<lparr>edit := e, external := external ?info @ [i],
                      header := (header ?info)\<lparr>externals := externals (header ?info) + 1\<rparr>\<rparr>)"
        using len by (auto simp: expand_external_def Let_def)
      then have "TreeSetSubtree True db nid = Some (TreeSUCCESS, db\<lparr>tree_info :=
          set_usage (?info\<lparr>edit := e, external := external ?info @ [i],
              header := (header ?info)\<lparr>externals := externals (header ?info) + 1\<rparr>\<rparr>) i TreeUSAGE_SUBTREE, modified := True\<rparr>)"
        using True new assms at ext_idx_less [of "external ?info" i] len by (simp add: TreeSetSubtree_def Let_def)
      then show ?thesis using True new assms by (auto simp: external_ok_def set_usage_def)
    qed
  qed
qed

text \<open>What taking a reference out leaves as it was.\<close>

definition same_but_ref :: "nat \<Rightarrow> TREE_INFO \<Rightarrow> TREE_INFO \<Rightarrow> bool" where
  "same_but_ref i info info' \<longleftrightarrow>
     info'\<lparr>node := node info, header := header info, external := external info\<rparr> = info
     \<and> (header info')\<lparr>externals := externals (header info)\<rparr> = header info
     \<and> (\<forall>j. (node info' j)\<lparr>usage := usage (node info j)\<rparr> = node info j \<and> (j \<noteq> i \<longrightarrow> node info' j = node info j))"

lemma set_no_subtree_ok:
  assumes "IS_OPEN_FOR_EDIT db" and "external_ok (tree_info db)" and "nid_to_node db nid = Some (0, i)"
  shows "\<exists>info' m. TreeSetNoSubtree db nid = Some (TreeSUCCESS, db\<lparr>tree_info := info', modified := m\<rparr>)
    \<and> external_ok info' \<and> set (external info') = set (external (tree_info db)) - {i}
    \<and> same_but_ref i (tree_info db) info'
    \<and> (if i \<in> set (external (tree_info db)) then usage (node info' i) = TreeUSAGE_STRUCTURE
       else info' = tree_info db \<and> m = modified db)"
proof (cases "i \<in> set (external (tree_info db))")
  case True
  let ?info = "tree_info db"
  let ?k = "ext_idx (external ?info) i"
  let ?info' = "set_usage (?info\<lparr>header := (header ?info)\<lparr>externals := externals (header ?info) - 1\<rparr>,
        external := del_at ?k (external ?info)\<rparr>) i TreeUSAGE_STRUCTURE"
  have d: "distinct (external ?info)" "length (external ?info) = externals (header ?info)"
    using assms(2) by (simp_all add: external_ok_def)
  note del = ext_idx_del [OF d(1) True]
  have "?k < externals (header ?info)" using True ext_idx_less [of "external ?info" i] d by simp
  then have "TreeSetNoSubtree db nid = Some (TreeSUCCESS, db\<lparr>tree_info := ?info', modified := True\<rparr>)"
    using assms d by (simp add: TreeSetNoSubtree_def Let_def)
  moreover have "external_ok ?info'" "set (external ?info') = set (external ?info) - {i}"
    using del d(2) assms(2)
    by (simp_all only: external_ok_def set_usage_def) (simp_all del: set_append length_append distinct_append)
  moreover have "same_but_ref i ?info ?info'" by (simp add: same_but_ref_def set_usage_def)
  moreover have "usage (node ?info' i) = TreeUSAGE_STRUCTURE" by (simp add: set_usage_def)
  ultimately show ?thesis using True by (intro exI [of _ ?info'] exI [of _ True]) simp
next
  case False
  then have "ext_idx (external (tree_info db)) i = externals (header (tree_info db))"
    using ext_idx_less [of "external (tree_info db)" i] ext_idx_le [of "external (tree_info db)" i] assms(2)
    by (simp add: external_ok_def)
  then have "TreeSetNoSubtree db nid = Some (TreeSUCCESS, db)"
    using assms by (simp add: TreeSetNoSubtree_def external_ok_def Let_def)
  then show ?thesis
    using False assms(2) by (intro exI [of _ "tree_info db"] exI [of _ "modified db"]) (auto simp: same_but_ref_def)
qed

text \<open>
  C36: \<open>_TreeSetNoSubtree\<close> takes a node out of the set of the references, makes it a structure node again
  and leaves a node that is not in the set as it is.
\<close>

theorem TreeSetNoSubtree_deletes:
  assumes "IS_OPEN_FOR_EDIT db" and "external_ok (tree_info db)" and "nid_to_node db nid = Some (0, i)"
  shows "\<exists>db'. TreeSetNoSubtree db nid = Some (TreeSUCCESS, db') \<and> external_ok (tree_info db')
    \<and> set (external (tree_info db')) = set (external (tree_info db)) - {i}
    \<and> (if i \<in> set (external (tree_info db)) then usage (node (tree_info db') i) = TreeUSAGE_STRUCTURE
       else db' = db)"
proof -
  from set_no_subtree_ok [OF assms] obtain info' m where
    "TreeSetNoSubtree db nid = Some (TreeSUCCESS, db\<lparr>tree_info := info', modified := m\<rparr>)" "external_ok info'"
    "set (external info') = set (external (tree_info db)) - {i}"
    "if i \<in> set (external (tree_info db)) then usage (node info' i) = TreeUSAGE_STRUCTURE
     else info' = tree_info db \<and> m = modified db"
    by blast
  then show ?thesis
    by (intro exI [of _ "db\<lparr>tree_info := info', modified := m\<rparr>"]) (simp split: if_splits)
qed

text \<open>The tree of \<open>two_nodes\<close>, and the same with node 1 as a subtree reference.\<close>

definition two_tree :: TREE_INFO where
  "two_tree = (zero_info ''MAIN'')\<lparr>header := zero_header\<lparr>nodes := 3\<rparr>, node := two_nodes, edit := Some zero_edit\<rparr>"

definition ref_tree :: TREE_INFO where
  "ref_tree = set_usage (two_tree\<lparr>header := zero_header\<lparr>nodes := 3, externals := 1\<rparr>, external := [1]\<rparr>) 1 TreeUSAGE_SUBTREE"

lemma nid_to_node_slot:
  "nodes (header info) = 3 \<Longrightarrow> nid_to_node (edit_slot info) 1 = Some (0, 1)"
  by (simp add: nid_to_node_def nid_tree_def nid_node_def infos_def edit_slot_def)

lemma TreeSetSubtree_inserts_witness:
  "\<exists>db'. TreeSetSubtree True (edit_slot two_tree) 1 = Some (TreeSUCCESS, db') \<and> set (external (tree_info db')) = {1}"
proof -
  let ?db = "edit_slot two_tree"
  have plain: "plain_tree ?db 0"
    by (simp add: plain_tree_def plain_usage_def edit_slot_def infos_def zero_info_def two_tree_def two_nodes_def
        zero_node_def TreeUSAGE_SUBTREE_REF_def TreeUSAGE_SUBTREE_TOP_def)
  have info: "node (infos ?db ! 0) = two_nodes" "tree_info ?db = two_tree" "IS_OPEN_FOR_EDIT ?db" "external_ok two_tree"
    "node two_tree = two_nodes" "external two_tree = []"
    by (simp_all add: infos_def edit_slot_def two_tree_def IS_OPEN_FOR_EDIT_def external_ok_def zero_info_def zero_header_def)
  have links: "parent0 two_nodes 1 = Some 0" "child0 two_nodes 0 = Some 1" "brother0 two_nodes 1 = None"
    "child (two_nodes 1) = 0" "member (two_nodes 1) = 0"
    by (simp_all add: two_nodes_def zero_node_def)
  have "linked (\<lambda>p. brother_of ?db (Some p)) (child_of ?db (Some (0, 0))) [(0, 1)]"
    using plain links by (simp add: info)
  from find_brother_linked [OF this, of "(0, 1)"] have c: "TreeIsChild ?db (0, 1) = Some True"
    using plain links by (simp add: TreeIsChild_def info)
  have "nodes (header two_tree) = 3" by (simp add: two_tree_def)
  then have nid: "nid_to_node ?db 1 = Some (0, 1)" by (rule nid_to_node_slot)
  show ?thesis
    using TreeSetSubtree_inserts [OF info(3) _ nid c refl] info(2,4,5,6) links by auto
qed

lemma TreeSetNoSubtree_deletes_witness:
  "\<exists>db'. TreeSetNoSubtree (edit_slot ref_tree) 1 = Some (TreeSUCCESS, db') \<and> external (tree_info db') = []
     \<and> usage (node (tree_info db') 1) = TreeUSAGE_STRUCTURE"
proof -
  let ?db = "edit_slot ref_tree"
  have info: "IS_OPEN_FOR_EDIT ?db" "external_ok (tree_info ?db)" "external (tree_info ?db) = [1]"
    by (simp_all add: infos_def edit_slot_def two_tree_def ref_tree_def IS_OPEN_FOR_EDIT_def external_ok_def
        zero_info_def zero_header_def set_usage_def)
  have "nodes (header ref_tree) = 3" by (simp add: ref_tree_def set_usage_def two_tree_def)
  then have nid: "nid_to_node ?db 1 = Some (0, 1)" by (rule nid_to_node_slot)
  show ?thesis
    using TreeSetNoSubtree_deletes [OF info(1,2) nid] info(3) by auto
qed

end
