(* ===== verification/TreeDelete.thy ===== *)
theory TreeDelete
  imports TreeSubtree TreeState TreePool
begin

text \<open>
  Deleting nodes (\<open>TreeDeleteNode.c\<close>) in three steps. \<open>TreeDeleteNodeInitialize\<close> marks a node, its
  descendants and the other elements of its conglomerate in a bit list, by a depth-first search.
  \<open>TreeDeleteNodeExecute\<close> takes the marked nodes out of the hierarchy, in the order of their indices,
  with their tags and subtree references, and keeps a list of those whose characteristics are in the
  file. \<open>TreeDeleteNodesWrite\<close> puts these at the front of the free list of the pool.

  The search is a recursion with fuel, which the theorems show to be enough; the other loops are
  total or a \<open>partial_function\<close>. \<open>None\<close> stands for a null pointer or an access outside the bit list.
\<close>

section \<open>Marking\<close>

definition getbit :: "u8 list \<Rightarrow> nat \<Rightarrow> bool option" where
  "getbit l k = (if k div 8 < length l then Some (l ! (k div 8) AND push_bit (k mod 8) 1 \<noteq> 0) else None)"

definition setbit :: "u8 list \<Rightarrow> nat \<Rightarrow> u8 list" where
  "setbit l k = l[k div 8 := l ! (k div 8) OR push_bit (k mod 8) 1]"

text \<open>
  The first element of the conglomerate of a node, from the number of the node in it; the index is a
  field of 24 bits.
\<close>

definition first_elt :: "u32 \<Rightarrow> u16 \<Rightarrow> u32" where
  "first_elt nid elt = make_nid (nid_tree nid) (nat ((int (nid_node nid) - sint elt + 1) mod 2 ^ 24))"

definition ptr_node :: "PINO_DATABASE \<Rightarrow> node_ptr option \<Rightarrow> NODE" where
  "ptr_node db p = node_at db (the p)"

definition ptr_member :: "PINO_DATABASE \<Rightarrow> node_ptr option \<Rightarrow> node_ptr option" where
  "ptr_member db p = map_option (Pair (fst (the p))) (member0 (node (infos db ! fst (the p))) (snd (the p)))"

definition ptr_child :: "PINO_DATABASE \<Rightarrow> node_ptr option \<Rightarrow> node_ptr option" where
  "ptr_child db p = map_option (Pair (fst (the p))) (child0 (node (infos db ! fst (the p))) (snd (the p)))"

definition ptr_brother :: "PINO_DATABASE \<Rightarrow> node_ptr option \<Rightarrow> node_ptr option" where
  "ptr_brother db p = map_option (Pair (fst (the p))) (brother0 (node (infos db ! fst (the p))) (snd (the p)))"

text \<open>
  The state of the search: the bit list and the counter of the caller, if he gave one. The links of
  a node are followed in its own pool. The second function is the loop along the brothers, the third
  the loop over the elements of a conglomerate, with the identifier and the node of the next one.
\<close>

function check_nid ::
    "nat \<Rightarrow> PINO_DATABASE \<Rightarrow> u32 \<Rightarrow> u8 list \<times> nat option \<Rightarrow> (u8 list \<times> nat option) option"
and check_brothers ::
    "nat \<Rightarrow> PINO_DATABASE \<Rightarrow> node_ptr option \<Rightarrow> u8 list \<times> nat option \<Rightarrow> (u8 list \<times> nat option) option"
and check_elements ::
    "nat \<Rightarrow> PINO_DATABASE \<Rightarrow> u32 \<Rightarrow> node_ptr option \<Rightarrow> u16 \<Rightarrow> u8 list \<times> nat option
     \<Rightarrow> (u8 list \<times> nat option) option" where
  "check_nid k db nid s =
     (if k = 0 \<or> getbit (fst s) (nid_node nid) = None then None
      else if getbit (fst s) (nid_node nid) = Some True then Some s
      else if nid_to_node db nid = None then None
      else let p = nid_to_node db nid; elt = conglomerate_elt (ptr_node db p)
           in Option.bind
                (check_brothers (k - 1) db (ptr_member db p) (setbit (fst s) (nid_node nid), map_option Suc (snd s)))
                (\<lambda>s. Option.bind (check_brothers (k - 1) db (ptr_child db p) s)
                  (\<lambda>s. if elt = 0 then Some s
                        else check_elements (k - 1) db (first_elt nid elt) (nid_to_node db (first_elt nid elt)) 1 s)))"
| "check_brothers k db p s =
     (if k = 0 then None else if p = None then Some s
      else Option.bind (check_nid (k - 1) db (node_to_nid db (the p)) s)
             (check_brothers (k - 1) db (ptr_brother db p)))"
| "check_elements k db nid p elt s =
     (if k = 0 \<or> p = None then None
      else if sint (conglomerate_elt (ptr_node db p)) = uint elt \<and> nid_node nid < nodes (header (tree_info db))
      then Option.bind (check_nid (k - 1) db nid s)
             (check_elements (k - 1) db (make_nid (nid_tree nid) (nid_node nid + 1))
                (map_option (\<lambda>(t, i). (t, i + 1)) p) (elt + 1))
      else Some s)"
  by pat_completeness auto
termination
  by (relation "measure (case_sum fst (case_sum fst fst))") auto

declare check_nid.simps [simp del] check_brothers.simps [simp del] check_elements.simps [simp del]

text \<open>
  The bit list gets the size for the present number of nodes; \<open>mem\<close> says whether there is memory for
  it. After a failure the list is lost while its old size stays, and what a later call then finds
  there is not defined (\<open>None\<close>) unless it makes a new list of zeros.
\<close>

definition TreeDeleteNodeInitialize ::
    "nat \<Rightarrow> bool \<Rightarrow> PINO_DATABASE \<Rightarrow> u32 \<Rightarrow> nat option \<Rightarrow> bool \<Rightarrow> (status \<times> PINO_DATABASE \<times> nat option) option" where
  "TreeDeleteNodeInitialize fuel mem db nid counter reset =
     (let vm_needed = nodes (header (tree_info db)) div 8 + 4; vm = delete_list_vm db;
          old = (case delete_list db of Some l \<Rightarrow> l | None \<Rightarrow> [])
      in if \<not> IS_OPEN_FOR_EDIT db then Some (TreeNOEDIT, db, counter)
         else if vm_needed \<noteq> vm \<and> \<not> mem then Some (TreeMEMERR, db\<lparr>delete_list := None\<rparr>, counter)
         else if delete_list db = None \<and> vm \<noteq> 0 \<and> \<not> (vm_needed \<noteq> vm \<and> reset) then None
         else
           let l = (if reset then replicate vm_needed 0
                    else if vm_needed \<noteq> vm then take vm_needed (old @ replicate vm_needed 0) else old);
               counter = (if reset then map_option (\<lambda>_. 0) counter else counter)
           in map_option
                (\<lambda>(l, counter). (TreeSUCCESS, db\<lparr>delete_list := Some l, delete_list_vm := vm_needed\<rparr>, counter))
                (if nid \<noteq> 0 then check_nid fuel db nid (l, counter) else Some (l, counter)))"

text \<open>The first marked node from \<open>i\<close> on, before \<open>n\<close>.\<close>

function next_marked :: "u8 list \<Rightarrow> nat \<Rightarrow> nat \<Rightarrow> nat option option" where
  "next_marked l n i =
     (if i < n
      then if getbit l i = None then None
           else if getbit l i = Some False then next_marked l n (Suc i) else Some (Some i)
      else Some None)"
  by pat_completeness auto
termination by (relation "measure (\<lambda>(l, n, i). n - i)") auto

declare next_marked.simps [simp del]

definition TreeDeleteNodeGetNid :: "PINO_DATABASE \<Rightarrow> u32 \<Rightarrow> (status \<times> u32) option" where
  "TreeDeleteNodeGetNid db nid =
     map_option
       (\<lambda>found. case found of Some i \<Rightarrow> (TreeSUCCESS, make_nid (nid_tree nid) i) | None \<Rightarrow> (TreeNMN, nid))
       (case delete_list db of
          Some l \<Rightarrow> next_marked l (nodes (header (tree_info db))) (nid_node nid + 1)
        | None \<Rightarrow> Some None)"

section \<open>Taking nodes out of the hierarchy\<close>

text \<open>
  The brother before a node in the list of its parent, or the last one. Then the link to the node is
  led past it; the result says whether the node was found. The code does this for the children, with
  \<open>child\<close>, and then for the members, with \<open>member\<close>, of the parent.
\<close>

partial_function (option) elder_brother :: "(nat \<Rightarrow> NODE) \<Rightarrow> nat \<Rightarrow> nat \<Rightarrow> nat option" where
  "elder_brother ns i bro =
     (if brother (ns bro) \<noteq> 0 \<and> brother0 ns bro \<noteq> Some i
      then elder_brother ns i (the (brother0 ns bro)) else Some bro)"

definition unlink_brother ::
    "(NODE \<Rightarrow> int) \<Rightarrow> (int \<Rightarrow> NODE \<Rightarrow> NODE) \<Rightarrow> (nat \<Rightarrow> NODE) \<Rightarrow> nat \<Rightarrow> nat \<Rightarrow> (bool \<times> (nat \<Rightarrow> NODE)) option" where
  "unlink_brother first set_first ns p i =
     (let link = (\<lambda>q. if brother (ns i) \<noteq> 0 then node_offset (brother0 ns i) (Some q) else 0)
      in if follow p (first (ns p)) = Some i then Some (True, ns(p := set_first (link p) (ns p)))
         else if first (ns p) \<noteq> 0
         then map_option
                (\<lambda>bro. if brother0 ns bro = Some i
                       then (True, ns(bro := (ns bro)\<lparr>brother := link bro\<rparr>)) else (False, ns))
                (elder_brother ns i (the (follow p (first (ns p)))))
         else Some (False, ns))"

definition unlink_node :: "(nat \<Rightarrow> NODE) \<Rightarrow> nat \<Rightarrow> nat \<Rightarrow> (nat \<Rightarrow> NODE) option" where
  "unlink_node ns p i =
     Option.bind (unlink_brother child (\<lambda>off n. n\<lparr>child := off\<rparr>) ns p i)
       (\<lambda>(found, ns).
          if found then Some ns
          else map_option snd (unlink_brother member (\<lambda>off n. n\<lparr>member := off\<rparr>) ns p i))"

definition deleted_name :: string where "deleted_name = ''deleted node''"

text \<open>A node that has been taken out: its name and fields, and the characteristics.\<close>

definition retire_node :: "TREE_INFO \<Rightarrow> u32 \<Rightarrow> TREE_INFO" where
  "retire_node info nid =
     (let i = nid_node nid; ed = the (edit info)
      in info\<lparr>edit := Some (if i < first_in_mem ed then ed\<lparr>deleted_nid_list := nid # deleted_nid_list ed\<rparr>
                            else ed\<lparr>nci := (nci ed)(i - first_in_mem ed := empty_nci)\<rparr>),
              node := (node info)(i := (node info i)\<lparr>name := deleted_name, conglomerate_elt := 0, member := 0,
                                                     brother := 0, usage := 0\<rparr>)\<rparr>)"

definition delete_one :: "PINO_DATABASE \<Rightarrow> u32 \<Rightarrow> PINO_DATABASE option" where
  "delete_one db nid =
     Option.bind (TreeRemoveNodesTags db nid)
       (\<lambda>(status, db). Option.bind (TreeSetNoSubtree db nid)
         (\<lambda>(status, db).
            case nid_to_node db nid of
              Some (0, i) \<Rightarrow>
                let info = tree_info db
                in case parent0 (node info) i of
                     None \<Rightarrow> None
                   | Some p \<Rightarrow>
                       map_option (\<lambda>ns. db\<lparr>tree_info := retire_node (info\<lparr>node := ns\<rparr>) nid\<rparr>)
                         (unlink_node (node info) p i)
            | _ \<Rightarrow> None))"

text \<open>The loop of \<open>_TreeDeleteNodeExecute\<close>; it starts after the node 0, the top of the tree.\<close>

partial_function (option) delete_marked :: "PINO_DATABASE \<Rightarrow> u32 \<Rightarrow> PINO_DATABASE option" where
  "delete_marked db nid =
     Option.bind (TreeDeleteNodeGetNid db nid)
       (\<lambda>r. if STATUS_OK (fst r)
             then Option.bind (delete_one db (snd r)) (\<lambda>db. delete_marked db (snd r))
             else Some db)"

definition TreeDeleteNodeExecute :: "bool \<Rightarrow> PINO_DATABASE \<Rightarrow> PINO_DATABASE option" where
  "TreeDeleteNodeExecute mem db =
     (if \<not> IS_OPEN_FOR_EDIT db then Some db
      else Option.bind (delete_marked db 0)
             (\<lambda>db. map_option (\<lambda>(status, db, counter). db)
                      (TreeDeleteNodeInitialize 0 mem (db\<lparr>modified := True\<rparr>) 0 None True)))"

section \<open>Giving nodes back\<close>

definition clear_nci :: "TREE_INFO \<Rightarrow> nat \<Rightarrow> TREE_INFO" where
  "clear_nci info i =
     (case tree_get_and_lock_nci info i of Inr _ \<Rightarrow> tree_put_nci info i empty_nci | Inl _ \<Rightarrow> info)"

text \<open>
  \<open>_TreeDeleteNodesWrite\<close>: the nodes of the list in front of the free list, and their records
  cleared, as far as they can be read. \<open>firstempty\<close> is the first node of the old free list, with which
  every node is linked for the time being.
\<close>

fun write_deleted :: "TREE_INFO \<Rightarrow> nat option \<Rightarrow> nat option \<Rightarrow> nat list \<Rightarrow> TREE_INFO" where
  "write_deleted info firstempty prevnode [] = info"
| "write_deleted info firstempty prevnode (i # is) =
     (let info = (case prevnode of
            Some prev \<Rightarrow>
              info\<lparr>node := (node info)(prev := (node info prev)\<lparr>parent := node_offset (Some i) (Some prev)\<rparr>)\<rparr>
          | None \<Rightarrow> info\<lparr>header := (header info)\<lparr>free := node_offset (Some i) (Some 0)\<rparr>\<rparr>);
          info = info\<lparr>node := (node info)(i := (node info i)
                   \<lparr>child := (case prevnode of Some prev \<Rightarrow> - parent (node info prev) | None \<Rightarrow> 0)\<rparr>)\<rparr>;
          info = info\<lparr>node := (node info)(i := (node info i)
                   \<lparr>parent := (case firstempty of Some f \<Rightarrow> node_offset (Some f) (Some i) | None \<Rightarrow> 0)\<rparr>)\<rparr>;
          info = (case firstempty of
            Some f \<Rightarrow> info\<lparr>node := (node info)(f := (node info f)\<lparr>child := - parent (node info i)\<rparr>)\<rparr>
          | None \<Rightarrow> info)
      in write_deleted (clear_nci info i) firstempty (Some i) is)"

definition TreeDeleteNodesWrite :: "PINO_DATABASE \<Rightarrow> PINO_DATABASE option" where
  "TreeDeleteNodesWrite db =
     (let info = tree_info db; ed = the (edit info);
          firstempty = (if free (header info) = -1 then None else Some (free_node info));
          nids = deleted_nid_list ed
      in if list_all (\<lambda>nid. nid_to_node db nid = Some (0, nid_node nid)) nids
         then Some (db\<lparr>tree_info :=
                write_deleted (info\<lparr>edit := Some (ed\<lparr>deleted_nid_list := []\<rparr>)\<rparr>) firstempty None (map nid_node nids)\<rparr>)
         else None)"

definition TreeDeleteNodesDiscard :: "PINO_DATABASE \<Rightarrow> PINO_DATABASE" where
  "TreeDeleteNodesDiscard db =
     db\<lparr>tree_info := (tree_info db)\<lparr>edit := Some ((the (edit (tree_info db)))\<lparr>deleted_nid_list := []\<rparr>)\<rparr>\<rparr>"


section \<open>Bit lists\<close>

definition marked :: "u8 list \<Rightarrow> nat set" where
  "marked l = {k. getbit l k = Some True}"

lemma getbit_bit: "getbit l k = (if k div 8 < length l then Some (bit (l ! (k div 8)) (k mod 8)) else None)"
  using and_exp_eq_0_iff_not_bit [of "l ! (k div 8)" "k mod 8"] by (simp add: getbit_def)

lemma length_setbit [simp]: "length (setbit l k) = length l"
  by (simp add: setbit_def)

lemma getbit_setbit:
  assumes "k div 8 < length l"
  shows "getbit (setbit l k) j = (if j = k then Some True else getbit l j)"
proof (cases "j div 8 = k div 8")
  case True
  then have "j mod 8 = k mod 8 \<longleftrightarrow> j = k" by (metis div_mult_mod_eq)
  then show ?thesis
    using assms True by (auto simp: getbit_bit setbit_def bit_simps)
next
  case False
  then show ?thesis using assms by (auto simp: getbit_bit setbit_def)
qed

lemma marked_setbit: "k div 8 < length l \<Longrightarrow> marked (setbit l k) = insert k (marked l)"
  by (auto simp: marked_def getbit_setbit)

lemma marked_zeros [simp]: "marked (replicate n 0) = {}"
  by (auto simp: marked_def getbit_bit)

lemma getbit_marked: "k div 8 < length l \<Longrightarrow> getbit l k = Some (k \<in> marked l)"
  by (auto simp: marked_def getbit_bit)

lemma finite_marked [simp]: "finite (marked l)"
proof (rule finite_subset)
  show "marked l \<subseteq> {..<8 * length l}"
  proof
    fix k assume "k \<in> marked l"
    then have "k div 8 < length l" by (auto simp: marked_def getbit_bit split: if_splits)
    then show "k \<in> {..<8 * length l}" by (simp add: div_less_iff_less_mult mult.commute)
  qed
qed simp

section \<open>Depth-first search\<close>

text \<open>
  What a search from the nodes \<open>I\<close> does to the set of the marked nodes: the nodes it adds are reached
  from \<open>I\<close>, and whatever follows a node it adds is marked at the end.
\<close>

definition searched :: "(nat \<Rightarrow> nat set) \<Rightarrow> nat set \<Rightarrow> nat set \<Rightarrow> nat set \<Rightarrow> bool" where
  "searched S X I Y \<longleftrightarrow> X \<subseteq> Y \<and> I \<subseteq> Y \<and> (\<forall>j\<in>Y - X. S j \<subseteq> Y) \<and> Y - X \<subseteq> reach S I"

lemma searched_refl: "I \<subseteq> X \<Longrightarrow> searched S X I X"
  by (simp add: searched_def)

lemma searched_trans:
  assumes "searched S X I Y" "searched S Y J Z" shows "searched S X (I \<union> J) Z"
proof -
  have "Z - X \<subseteq> (Y - X) \<union> (Z - Y)" by blast
  then show ?thesis using assms unfolding searched_def below_Un by blast
qed

lemma searched_step:
  assumes "searched S (insert i X) (S i) Y" shows "searched S X {i} Y"
proof -
  have "reach S (S i) \<subseteq> reach S {i}" "i \<in> reach S {i}"
    using below_insert [of "\<lambda>_. False" S i "{}"] by auto
  then show ?thesis using assms unfolding searched_def by blast
qed

lemma searched_closed:
  assumes "searched S X I Y" "\<forall>x\<in>X. S x \<subseteq> X" shows "Y = X \<union> reach S I"
proof
  show "X \<union> reach S I \<subseteq> Y"
  proof
    fix y assume "y \<in> X \<union> reach S I"
    then show "y \<in> Y"
    proof
      assume "y \<in> reach S I"
      then show ?thesis
      proof induction
        case (down p j)
        then show ?case using assms unfolding searched_def by blast
      qed (use assms in \<open>auto simp: searched_def\<close>)
    qed (use assms in \<open>auto simp: searched_def\<close>)
  qed
qed (use assms in \<open>auto simp: searched_def\<close>)

text \<open>The same for a function of the code: with enough fuel it returns, having counted what it marked.\<close>

definition visit ::
    "(nat \<Rightarrow> nat set) \<Rightarrow> (nat \<Rightarrow> u8 list \<times> nat option \<Rightarrow> (u8 list \<times> nat option) option) \<Rightarrow>
     u8 list \<times> nat option \<Rightarrow> nat set \<Rightarrow> u8 list \<times> nat option \<Rightarrow> bool" where
  "visit S f s I s' \<longleftrightarrow> (\<exists>K. \<forall>k\<ge>K. f k s = Some s') \<and> length (fst s') = length (fst s)
     \<and> searched S (marked (fst s)) I (marked (fst s'))
     \<and> snd s' = map_option (\<lambda>c. c + card (marked (fst s') - marked (fst s))) (snd s)"

lemma visit_done: "(\<And>k. k \<ge> K \<Longrightarrow> f k s = Some s) \<Longrightarrow> I \<subseteq> marked (fst s) \<Longrightarrow> visit S f s I s"
  by (auto simp: visit_def searched_refl option.map_ident)

lemma visit_later:
  assumes "visit S f s I s'" "\<And>k. 0 < k \<Longrightarrow> h k s = f (k - 1) s" shows "visit S h s I s'"
proof -
  obtain K where "\<forall>k\<ge>K. f k s = Some s'" using assms(1) by (auto simp: visit_def)
  then have "\<forall>k\<ge>Suc K. h k s = Some s'" using assms(2) by (simp add: Suc_le_eq)
  then show ?thesis using assms(1) by (auto simp: visit_def)
qed

lemma visit_bind:
  assumes f: "visit S f s I s'" and g: "visit S g s' J s''"
  shows "visit S (\<lambda>k s. Option.bind (f k s) (g k)) s (I \<union> J) s''"
proof -
  obtain K K' where "\<forall>k\<ge>K. f k s = Some s'" "\<forall>k\<ge>K'. g k s' = Some s''" using f g by (auto simp: visit_def)
  then have "\<forall>k\<ge>max K K'. Option.bind (f k s) (g k) = Some s''" by simp
  then have "\<exists>K. \<forall>k\<ge>K. Option.bind (f k s) (g k) = Some s''" by blast
  moreover have "searched S (marked (fst s)) (I \<union> J) (marked (fst s''))"
    using f g searched_trans by (auto simp: visit_def)
  moreover have "card (marked (fst s'') - marked (fst s)) =
      card (marked (fst s') - marked (fst s)) + card (marked (fst s'') - marked (fst s'))"
  proof -
    have "marked (fst s'') - marked (fst s) = (marked (fst s') - marked (fst s)) \<union> (marked (fst s'') - marked (fst s'))"
      using f g by (auto simp: visit_def searched_def)
    then show ?thesis by (auto intro: card_Un_disjoint)
  qed
  ultimately show ?thesis
    using f g by (auto simp: visit_def option.map_comp comp_def ac_simps)
qed

lemma visit_seq:
  assumes "visit S f s I s'" "visit S g s' J s''" "\<And>k. 0 < k \<Longrightarrow> h k s = Option.bind (f (k - 1) s) (g (k - 1))"
  shows "visit S h s (I \<union> J) s''"
  by (rule visit_later [where f = "\<lambda>k s. Option.bind (f k s) (g k)", OF visit_bind [OF assms(1,2)]])
    (rule assms(3))

lemma visit_mark:
  assumes i: "i \<notin> marked (fst s)" "i div 8 < length (fst s)"
    and v: "visit S f (setbit (fst s) i, map_option Suc (snd s)) (S i) s'"
    and h: "\<And>k. 0 < k \<Longrightarrow> h k s = f (k - 1) (setbit (fst s) i, map_option Suc (snd s))"
  shows "visit S h s {i} s'"
proof -
  obtain K where "\<forall>k\<ge>K. f k (setbit (fst s) i, map_option Suc (snd s)) = Some s'" using v by (auto simp: visit_def)
  then have "\<forall>k\<ge>Suc K. h k s = Some s'" using h by (simp add: Suc_le_eq)
  moreover have m: "searched S (insert i (marked (fst s))) (S i) (marked (fst s'))"
    using v i by (simp add: visit_def marked_setbit)
  then have "marked (fst s') - marked (fst s) = insert i (marked (fst s') - insert i (marked (fst s)))"
    using i by (auto simp: searched_def)
  then have "card (marked (fst s') - marked (fst s)) = Suc (card (marked (fst s') - insert i (marked (fst s))))"
    by (metis Diff_iff card_insert_disjoint finite_Diff finite_marked insertI1)
  ultimately show ?thesis
    using v i searched_step [OF m] by (auto simp: visit_def marked_setbit option.map_comp comp_def)
qed

section \<open>What follows a node\<close>

text \<open>The elements of a conglomerate: consecutive nodes that are numbered from 1.\<close>

function el_list :: "(nat \<Rightarrow> NODE) \<Rightarrow> nat \<Rightarrow> nat \<Rightarrow> u16 \<Rightarrow> nat list" where
  "el_list ns n j e =
     (if sint (conglomerate_elt (ns j)) = uint e \<and> j < n then j # el_list ns n (Suc j) (e + 1) else [])"
  by pat_completeness auto
termination by (relation "measure (\<lambda>(ns, n, j, e). n - j)") auto

declare el_list.simps [simp del]

definition start_elt :: "(nat \<Rightarrow> NODE) \<Rightarrow> nat \<Rightarrow> nat" where
  "start_elt ns i = nid_node (first_elt (make_nid 0 i) (conglomerate_elt (ns i)))"

definition follows ::
    "(nat \<Rightarrow> NODE) \<Rightarrow> nat \<Rightarrow> (nat \<Rightarrow> nat list) \<Rightarrow> (nat \<Rightarrow> nat list) \<Rightarrow> nat \<Rightarrow> nat set" where
  "follows ns n C M i =
     set (M i) \<union> set (C i)
     \<union> (if conglomerate_elt (ns i) = 0 then {} else set (el_list ns n (start_elt ns i) 1))"

definition delete_shape :: "PINO_DATABASE \<Rightarrow> (nat \<Rightarrow> nat list) \<Rightarrow> (nat \<Rightarrow> nat list) \<Rightarrow> bool" where
  "delete_shape db C M \<longleftrightarrow>
     (let n = nodes (header (tree_info db)); ns = node (tree_info db)
      in n < 2 ^ 24
         \<and> (\<forall>i<n. linked (brother0 ns) (child0 ns i) (C i) \<and> set (C i) \<subseteq> {..<n}
              \<and> linked (brother0 ns) (member0 ns i) (M i) \<and> set (M i) \<subseteq> {..<n}
              \<and> (conglomerate_elt (ns i) \<noteq> 0 \<longrightarrow> start_elt ns i \<le> n)))"

lemma el_list_less: "set (el_list ns n j e) \<subseteq> {..<n}"
proof (induction ns n j e rule: el_list.induct)
  case (1 ns n j e)
  then show ?case by (subst el_list.simps) auto
qed

lemma main_nid:
  assumes "j \<le> nodes (header (tree_info db))" "nodes (header (tree_info db)) < 2 ^ 24"
  shows "nid_node (make_nid 0 j) = j" "nid_tree (make_nid 0 j) = 0" "nid_to_node db (make_nid 0 j) = Some (0, j)"
    "node_to_nid db (0, j) = make_nid 0 j"
proof -
  have "j < 2 ^ 24" using assms by simp
  from unat_tree_part [OF _ this, of 0] show n: "nid_node (make_nid 0 j) = j" "nid_tree (make_nid 0 j) = 0" by simp_all
  show "nid_to_node db (make_nid 0 j) = Some (0, j)" using n assms by (simp add: nid_to_node_def infos_def)
  show "node_to_nid db (0, j) = make_nid 0 j"
    using node_to_nid_in [of "(0, j)" db] assms by (simp add: infos_def)
qed

lemma ptr_main [simp]:
  "ptr_node db (Some (0, i)) = node (tree_info db) i"
  "ptr_member db (Some (0, i)) = map_option (Pair 0) (member0 (node (tree_info db)) i)"
  "ptr_child db (Some (0, i)) = map_option (Pair 0) (child0 (node (tree_info db)) i)"
  "ptr_brother db (Some (0, i)) = map_option (Pair 0) (brother0 (node (tree_info db)) i)"
  by (simp_all add: ptr_node_def ptr_member_def ptr_child_def ptr_brother_def node_at_def infos_def)

lemma first_elt_start:
  "first_elt (make_nid 0 i) (conglomerate_elt (ns i)) = make_nid 0 (start_elt ns i)" if "i < 2 ^ 24"
proof -
  have "nid_tree (make_nid 0 i) = 0" using unat_tree_part(1) [OF _ that, of 0] by simp
  moreover have "nat (x mod 2 ^ 24) < 2 ^ 24" for x :: int by (simp add: nat_less_iff)
  then have "nid_tree (make_nid 0 (nat (x mod 2 ^ 24))) = 0" for x :: int
    using unat_tree_part(1) [of 0] by simp
  ultimately have "nid_tree (first_elt (make_nid 0 i) (conglomerate_elt (ns i))) = 0"
    unfolding first_elt_def by simp
  then show ?thesis
    using make_nid_parts [of "first_elt (make_nid 0 i) (conglomerate_elt (ns i))"] by (simp add: start_elt_def)
qed

text \<open>The loops, when each call of the search on fewer unmarked nodes works.\<close>

lemma check_brothers_visit:
  assumes big: "nodes (header (tree_info db)) < 2 ^ 24" and n: "n = nodes (header (tree_info db))"
    and ns: "ns = node (tree_info db)"
    and IH: "\<And>i s. i < n \<Longrightarrow> length (fst s) = bytes \<Longrightarrow> X \<subseteq> marked (fst s) \<Longrightarrow>
      \<exists>s'. visit S (\<lambda>k. check_nid k db (make_nid 0 i)) s {i} s'"
  shows "linked (brother0 ns) x js \<Longrightarrow> set js \<subseteq> {..<n} \<Longrightarrow> length (fst s) = bytes \<Longrightarrow> X \<subseteq> marked (fst s) \<Longrightarrow>
    \<exists>s'. visit S (\<lambda>k. check_brothers k db (map_option (Pair 0) x)) s (set js) s'"
proof (induction js arbitrary: x s)
  case Nil
  then have "check_brothers k db (map_option (Pair 0) x) s = Some s" if "k \<ge> 1" for k
    using that by (subst check_brothers.simps) simp
  then have "visit S (\<lambda>k. check_brothers k db (map_option (Pair 0) x)) s (set []) s"
    by (intro visit_done [of 1]) simp_all
  then show ?case ..
next
  case (Cons j js)
  have j: "x = Some j" "linked (brother0 ns) (brother0 ns j) js" "j < n" using Cons.prems by auto
  obtain s1 where v1: "visit S (\<lambda>k. check_nid k db (make_nid 0 j)) s {j} s1"
    using IH [OF j(3) Cons.prems(3,4)] by blast
  then have s1: "length (fst s1) = bytes" "X \<subseteq> marked (fst s1)"
    using Cons.prems(3,4) by (auto simp: visit_def searched_def)
  have "set js \<subseteq> {..<n}" using Cons.prems(2) by simp
  from Cons.IH [OF j(2) this s1]
  obtain s2 where v2: "visit S (\<lambda>k. check_brothers k db (map_option (Pair 0) (brother0 ns j))) s1 (set js) s2"
    by blast
  have "visit S (\<lambda>k. check_brothers k db (map_option (Pair 0) x)) s ({j} \<union> set js) s2"
  proof (rule visit_seq [OF v1 v2])
    fix k :: nat assume "0 < k"
    then show "check_brothers k db (map_option (Pair 0) x) s =
        Option.bind (check_nid (k - 1) db (make_nid 0 j) s)
          (check_brothers (k - 1) db (map_option (Pair 0) (brother0 ns j)))"
      using j main_nid(4) [of j db] big n ns by (subst check_brothers.simps) simp
  qed
  moreover have "set (j # js) = {j} \<union> set js" by simp
  ultimately show ?case by (simp only:) blast
qed

lemma check_elements_visit:
  assumes big: "nodes (header (tree_info db)) < 2 ^ 24" and n: "n = nodes (header (tree_info db))"
    and ns: "ns = node (tree_info db)"
    and IH: "\<And>i s. i < n \<Longrightarrow> length (fst s) = bytes \<Longrightarrow> X \<subseteq> marked (fst s) \<Longrightarrow>
      \<exists>s'. visit S (\<lambda>k. check_nid k db (make_nid 0 i)) s {i} s'"
  shows "j \<le> n \<Longrightarrow> length (fst s) = bytes \<Longrightarrow> X \<subseteq> marked (fst s) \<Longrightarrow>
    \<exists>s'. visit S (\<lambda>k. check_elements k db (make_nid 0 j) (Some (0, j)) e) s (set (el_list ns n j e)) s'"
  using n ns
proof (induction ns n j e arbitrary: s rule: el_list.induct)
  case (1 ns n j e)
  note nid = main_nid(1,2) [of j db]
  show ?case
  proof (cases "sint (conglomerate_elt (ns j)) = uint e \<and> j < n")
    case False
    then have "check_elements k db (make_nid 0 j) (Some (0, j)) e s = Some s" if "k \<ge> 1" for k
      using that nid 1(2,5,6) big by (subst check_elements.simps) auto
    then have "visit S (\<lambda>k. check_elements k db (make_nid 0 j) (Some (0, j)) e) s {} s"
      by (intro visit_done [of 1]) simp_all
    moreover have "set (el_list ns n j e) = {}" using False by (subst el_list.simps) auto
    ultimately show ?thesis by (simp only:) blast
  next
    case True
    obtain s1 where v1: "visit S (\<lambda>k. check_nid k db (make_nid 0 j)) s {j} s1"
      using IH [of j s] True 1(3-5) n by blast
    then have s1: "length (fst s1) = bytes" "X \<subseteq> marked (fst s1)"
      using 1(3,4) by (auto simp: visit_def searched_def)
    have "Suc j \<le> n" using True by simp
    from "1.IH" [OF True this s1 1(5,6)] obtain s2 where v2: "visit S (\<lambda>k. check_elements k db (make_nid 0 (Suc j)) (Some (0, Suc j)) (e + 1)) s1
        (set (el_list ns n (Suc j) (e + 1))) s2"
      by blast
    have "visit S (\<lambda>k. check_elements k db (make_nid 0 j) (Some (0, j)) e) s ({j} \<union> set (el_list ns n (Suc j) (e + 1))) s2"
    proof (rule visit_seq [OF v1 v2])
      fix k :: nat assume "0 < k"
      then show "check_elements k db (make_nid 0 j) (Some (0, j)) e s =
          Option.bind (check_nid (k - 1) db (make_nid 0 j) s)
            (check_elements (k - 1) db (make_nid 0 (Suc j)) (Some (0, Suc j)) (e + 1))"
        using True nid 1(5,6) big by (subst check_elements.simps) simp
    qed
    moreover have "set (el_list ns n j e) = {j} \<union> set (el_list ns n (Suc j) (e + 1))"
      using True by (subst el_list.simps) auto
    ultimately show ?thesis by (simp only:) blast
  qed
qed


lemma check_nid_visit:
  assumes shape: "delete_shape db C M" and n: "n = nodes (header (tree_info db))" and ns: "ns = node (tree_info db)"
  shows "i < n \<Longrightarrow> n div 8 < length (fst s) \<Longrightarrow>
    \<exists>s'. visit (follows ns n C M) (\<lambda>k. check_nid k db (make_nid 0 i)) s {i} s'"
proof (induction "card ({..<n} - marked (fst s))" arbitrary: i s rule: less_induct)
  case less
  let ?S = "follows ns n C M"
  have big: "nodes (header (tree_info db)) < 2 ^ 24" using shape by (simp add: delete_shape_def Let_def)
  have i: "linked (brother0 ns) (child0 ns i) (C i)" "set (C i) \<subseteq> {..<n}"
    "linked (brother0 ns) (member0 ns i) (M i)" "set (M i) \<subseteq> {..<n}"
    "conglomerate_elt (ns i) \<noteq> 0 \<Longrightarrow> start_elt ns i \<le> n"
    using shape less(2) by (simp_all add: delete_shape_def Let_def n ns)
  have "i \<le> nodes (header (tree_info db))" using less(2) n by simp
  note nid = main_nid [OF this big]
  have "i div 8 \<le> n div 8" using less(2) by (simp add: div_le_mono)
  then have in_list: "i div 8 < length (fst s)" using less(3) by linarith
  note bit = getbit_marked [OF in_list]
  show ?case
  proof (cases "i \<in> marked (fst s)")
    case True
    then have "check_nid k db (make_nid 0 i) s = Some s" if "k \<ge> 1" for k
      using that nid bit by (subst check_nid.simps) simp
    then have "visit ?S (\<lambda>k. check_nid k db (make_nid 0 i)) s {i} s"
      using True by (intro visit_done [of 1]) simp_all
    then show ?thesis ..
  next
    case False
    let ?X = "insert i (marked (fst s))" and ?s = "(setbit (fst s) i, map_option Suc (snd s))"
    have IH: "\<exists>s'. visit ?S (\<lambda>k. check_nid k db (make_nid 0 j)) u {j} s'"
      if "j < n" "length (fst u) = length (fst s)" "?X \<subseteq> marked (fst u)" for j u
    proof (rule less(1))
      have "{..<n} - marked (fst u) \<subset> {..<n} - marked (fst s)" using that(3) less(2) False by auto
      then show "card ({..<n} - marked (fst u)) < card ({..<n} - marked (fst s))"
        by (intro psubset_card_mono) simp_all
    qed (use that less(3) in simp_all)
    have X: "?X \<subseteq> marked (fst ?s)" "length (fst ?s) = length (fst s)"
      using marked_setbit [OF in_list] by simp_all
    have keep: "?X \<subseteq> marked (fst b)" "length (fst b) = length (fst s)"
      if "visit ?S f a J b" "?X \<subseteq> marked (fst a)" "length (fst a) = length (fst s)" for f a J b
      using that by (auto simp: visit_def searched_def)
    from check_brothers_visit [OF big n ns IH i(3,4) X(2,1)] obtain s1 where
      v1: "visit ?S (\<lambda>k. check_brothers k db (map_option (Pair 0) (member0 ns i))) ?s (set (M i)) s1" by blast
    note k1 = keep [OF v1 X]
    from check_brothers_visit [OF big n ns IH i(1,2) k1(2,1)] obtain s2 where
      v2: "visit ?S (\<lambda>k. check_brothers k db (map_option (Pair 0) (child0 ns i))) s1 (set (C i)) s2" by blast
    note k2 = keep [OF v2 k1]
    define elts where "elts = (\<lambda>k s. if conglomerate_elt (ns i) = 0 then Some s
      else check_elements k db (make_nid 0 (start_elt ns i)) (Some (0, start_elt ns i)) 1 s)"
    have "\<exists>s3. visit ?S elts s2 (if conglomerate_elt (ns i) = 0 then {} else set (el_list ns n (start_elt ns i) 1)) s3"
    proof (cases "conglomerate_elt (ns i) = 0")
      case True
      then have "visit ?S elts s2 {} s2" by (intro visit_done [of 0]) (simp_all add: elts_def)
      then show ?thesis using True by (simp only: simp_thms if_True) blast
    next
      case False
      then show ?thesis
        using check_elements_visit [OF big n ns IH i(5) k2(2,1), of 1] by (simp add: elts_def)
    qed
    then obtain s3 where v3: "visit ?S elts s2 (if conglomerate_elt (ns i) = 0 then {} else set (el_list ns n (start_elt ns i) 1)) s3" ..
    have "visit ?S (\<lambda>k. check_nid k db (make_nid 0 i)) s {i} s3"
    proof (rule visit_mark [OF False in_list])
      show "visit ?S (\<lambda>k s. Option.bind (check_brothers k db (map_option (Pair 0) (member0 ns i)) s)
          (\<lambda>s. Option.bind (check_brothers k db (map_option (Pair 0) (child0 ns i)) s) (elts k))) ?s (?S i) s3"
        using visit_bind [OF v1 visit_bind [OF v2 v3]] by (simp add: follows_def Un_assoc)
      fix k :: nat assume k: "0 < k"
      have "first_elt (make_nid 0 i) (conglomerate_elt (ns i)) = make_nid 0 (start_elt ns i)"
        "conglomerate_elt (ns i) \<noteq> 0 \<Longrightarrow> nid_to_node db (make_nid 0 (start_elt ns i)) = Some (0, start_elt ns i)"
        using main_nid(3) [OF _ big] i(5) n first_elt_start [of i ns] less(2) big by simp_all
      then show "check_nid k db (make_nid 0 i) s =
          Option.bind (check_brothers (k - 1) db (map_option (Pair 0) (member0 ns i)) ?s)
            (\<lambda>s. Option.bind (check_brothers (k - 1) db (map_option (Pair 0) (child0 ns i)) s) (elts (k - 1)))"
        using k nid bit False ns
        by (cases "conglomerate_elt (ns i) = 0"; subst check_nid.simps; simp add: Let_def elts_def)
    qed
    then show ?thesis ..
  qed
qed


lemma marked_fit:
  assumes "marked l \<subseteq> {..<n}"
  shows "marked (take (n div 8 + 4) (l @ replicate (n div 8 + 4) 0)) = marked l"
proof -
  have "getbit (take (n div 8 + 4) (l @ replicate (n div 8 + 4) 0)) k = Some True \<longleftrightarrow> getbit l k = Some True" for k
  proof (cases "k div 8 < n div 8 + 4")
    case True
    then show ?thesis by (auto simp: getbit_bit nth_append)
  next
    case False
    then have "\<not> k < n" using div_le_mono [of k n 8] by linarith
    then have "k \<notin> marked l" using assms by blast
    then show ?thesis using False by (auto simp: getbit_bit marked_def)
  qed
  then show ?thesis by (simp add: marked_def)
qed

text \<open>
  C18: \<open>_TreeDeleteNodeInitialize\<close> marks exactly the nodes that are reached from the given node through
  children, members and elements of conglomerates, next to those that were marked before, and
  counts the new ones: on a tree whose lists of brothers end, there is an amount of fuel from which
  on the search returns. The bit list fits the number of nodes.
\<close>

theorem TreeDeleteNodeInitialize_marks:
  assumes "IS_OPEN_FOR_EDIT db" and "delete_shape db C M" and "n = nodes (header (tree_info db))"
    and "S = follows (node (tree_info db)) n C M" and "0 < i" and "i < n"
    and "X = (if reset then {} else case delete_list db of Some l \<Rightarrow> marked l | None \<Rightarrow> {})"
    and "case delete_list db of Some l \<Rightarrow> length l = delete_list_vm db | None \<Rightarrow> delete_list_vm db = 0"
    and "X \<subseteq> {..<n}" and "\<forall>x\<in>X. S x \<subseteq> X"
  shows "\<exists>l K. length l = n div 8 + 4 \<and> marked l = X \<union> reach S {i}
    \<and> (\<forall>k\<ge>K. TreeDeleteNodeInitialize k True db (make_nid 0 i) counter reset =
          Some (TreeSUCCESS, db\<lparr>delete_list := Some l, delete_list_vm := n div 8 + 4\<rparr>,
                map_option (\<lambda>c. (if reset then 0 else c) + card (reach S {i} - X)) counter))"
proof -
  let ?old = "case delete_list db of Some l \<Rightarrow> l | None \<Rightarrow> []"
  define l0 where "l0 = (if reset then replicate (n div 8 + 4) 0
    else if n div 8 + 4 \<noteq> delete_list_vm db then take (n div 8 + 4) (?old @ replicate (n div 8 + 4) 0) else ?old)"
  define c0 where "c0 = (if reset then map_option (\<lambda>_. 0) counter else counter)"
  have l0: "length l0 = n div 8 + 4" "marked l0 = X"
  proof -
    have "\<not> reset \<Longrightarrow> X = marked ?old" "\<not> reset \<Longrightarrow> length ?old = delete_list_vm db"
      using assms(7,8) marked_zeros [of 0] by (auto split: option.splits)
    moreover from this have "\<not> reset \<Longrightarrow> marked (take (n div 8 + 4) (?old @ replicate (n div 8 + 4) 0)) = X"
      using marked_fit [of ?old n] assms(9) by simp
    ultimately show "length l0 = n div 8 + 4" "marked l0 = X"
      using assms(7) by (auto simp: l0_def min_def)
  qed
  have big: "n < 2 ^ 24" using assms(2,3) by (simp add: delete_shape_def Let_def)
  have "nid_node (make_nid 0 i) = i" using main_nid(1) [of i db] assms(3,6) big by simp
  then have nid: "make_nid 0 i \<noteq> 0" using assms(5) by (auto simp: nid_node_def)
  obtain l c K where K: "\<forall>k\<ge>K. check_nid k db (make_nid 0 i) (l0, c0) = Some (l, c)" and l: "length l = length l0"
    and m: "searched S (marked l0) {i} (marked l)" and c: "c = map_option (\<lambda>c. c + card (marked l - marked l0)) c0"
    using check_nid_visit [OF assms(2,3) refl assms(6), of "(l0, c0)"] l0 assms(4) by (auto simp: visit_def)
  have new: "marked l = X \<union> reach S {i}" using searched_closed [OF m] assms(10) l0 by simp
  have lost: "\<not> (delete_list db = None \<and> delete_list_vm db \<noteq> 0 \<and> Q)" for Q
    using assms(8) by auto
  have "TreeDeleteNodeInitialize k True db (make_nid 0 i) counter reset =
      Some (TreeSUCCESS, db\<lparr>delete_list := Some l, delete_list_vm := n div 8 + 4\<rparr>, c)" if "k \<ge> K" for k
  proof -
    have "TreeDeleteNodeInitialize k True db (make_nid 0 i) counter reset =
        map_option (\<lambda>(l, c). (TreeSUCCESS, db\<lparr>delete_list := Some l, delete_list_vm := n div 8 + 4\<rparr>, c))
          (check_nid k db (make_nid 0 i) (l0, c0))"
      using nid assms(1) lost
      unfolding TreeDeleteNodeInitialize_def Let_def l0_def c0_def assms(3) by (simp only: simp_thms if_True if_False)
    then show ?thesis using K that by simp
  qed
  moreover have "c = map_option (\<lambda>c. (if reset then 0 else c) + card (reach S {i} - X)) counter"
  proof -
    have "marked l - marked l0 = reach S {i} - X" using new l0 by auto
    then show ?thesis by (auto simp: c c0_def option.map_comp comp_def)
  qed
  ultimately show ?thesis using l l0 new by (intro exI [of _ l] exI [of _ K]) simp
qed


section \<open>A brother unlinked\<close>

lemma linked_append: "linked f x (as @ bs) \<Longrightarrow> \<exists>y. linked f y bs"
  by (induction as arbitrary: x) auto

lemma linked_delete:
  assumes "linked f x (as @ a # i # bs)" shows "linked (f(a := f i)) x (as @ a # bs)"
proof -
  have d: "distinct (as @ a # i # bs)" using assms by (rule linked_distinct)
  show ?thesis
    using assms d
  proof (induction as arbitrary: x)
    case Nil
    then have "linked (f(a := f i)) (f i) bs = linked f (f i) bs" by (intro linked_cong) auto
    then show ?case using Nil by (simp add: fun_upd_def)
  qed auto
qed

lemma elder_brother_before:
  "linked (brother0 ns) (Some b) (as @ a # i # bs) \<Longrightarrow> i \<notin> set (as @ [a]) \<Longrightarrow> elder_brother ns i b = Some a"
proof (induction as arbitrary: b)
  case Nil
  then show ?case by (subst elder_brother.simps) auto
next
  case (Cons c as)
  obtain d where d: "brother0 ns b = Some d" "linked (brother0 ns) (Some d) (as @ a # i # bs)"
    using Cons.prems(1) by (cases as) auto
  moreover have "d \<noteq> i" using d Cons.prems by (cases as) auto
  moreover have "brother (ns b) \<noteq> 0" using d(1) by auto
  ultimately show ?case using Cons.IH [of d] Cons.prems(2) by (subst elder_brother.simps) simp
qed

lemma elder_brother_absent:
  "linked (brother0 ns) (Some b) xs \<Longrightarrow> i \<notin> set xs \<Longrightarrow> \<exists>a. elder_brother ns i b = Some a \<and> brother0 ns a \<noteq> Some i"
proof (induction xs arbitrary: b)
  case (Cons c xs)
  show ?case
  proof (cases "brother0 ns b")
    case None
    then show ?thesis by (subst elder_brother.simps) auto
  next
    case (Some d)
    have "linked (brother0 ns) (Some d) xs" "d \<noteq> i" "brother (ns b) \<noteq> 0" using Cons.prems Some by (cases xs; auto)+
    then show ?thesis using Cons.IH [of d] Cons.prems(2) Some by (subst elder_brother.simps) simp
  qed
qed simp

context brother_list begin

lemma unlink_absent:
  assumes "linked (brother0 ns) (first0 ns p) xs" "i \<notin> set xs"
  shows "unlink_brother first set_first ns p i = Some (False, ns)"
proof (cases xs)
  case Nil
  then show ?thesis using assms(1) by (simp add: unlink_brother_def)
next
  case (Cons x ys)
  then have x: "first0 ns p = Some x" "x \<noteq> i" "first (ns p) \<noteq> 0" using assms by auto
  obtain a where "elder_brother ns i x = Some a" "brother0 ns a \<noteq> Some i"
    using elder_brother_absent [of ns x xs i] assms x(1) by auto
  then show ?thesis using x by (simp add: unlink_brother_def)
qed

text \<open>What unlinking leaves as it was.\<close>

definition unlink_frame :: "(nat \<Rightarrow> NODE) \<Rightarrow> (nat \<Rightarrow> NODE) \<Rightarrow> nat \<Rightarrow> nat list \<Rightarrow> bool" where
  "unlink_frame ns ns' p xs \<longleftrightarrow>
     (\<forall>j. name (ns' j) = name (ns j) \<and> usage (ns' j) = usage (ns j) \<and> tag_link (ns' j) = tag_link (ns j)
        \<and> other (ns' j) = other (ns j) \<and> parent (ns' j) = parent (ns j)
        \<and> (j \<noteq> p \<longrightarrow> first (ns' j) = first (ns j)) \<and> (j \<notin> set xs \<longrightarrow> brother (ns' j) = brother (ns j)))"

text \<open>The links when the node \<open>i\<close> behind the brothers \<open>as\<close> is passed over.\<close>

definition past :: "(nat \<Rightarrow> NODE) \<Rightarrow> nat \<Rightarrow> nat \<Rightarrow> nat list \<Rightarrow> nat \<Rightarrow> NODE" where
  "past ns p i as =
     (if as = [] then ns(p := set_first (node_offset (brother0 ns i) (Some p)) (ns p))
      else ns(last as := (ns (last as))\<lparr>brother := node_offset (brother0 ns i) (Some (last as))\<rparr>))"

lemma past_links:
  assumes l: "linked (brother0 ns) (first0 ns p) (as @ i # bs)" and p: "p \<notin> set (as @ i # bs)"
  shows "linked (brother0 (past ns p i as)) (first0 (past ns p i as) p) (as @ bs)" "unlink_frame ns (past ns p i as) p as"
proof -
  have d: "distinct (as @ i # bs)" using l by (rule linked_distinct)
  have rest: "linked (brother0 ns) (brother0 ns i) bs" using l by (induction as arbitrary: p) (auto dest: linked_append)
  have "linked (brother0 (past ns p i as)) (first0 (past ns p i as) p) (as @ bs) \<and> unlink_frame ns (past ns p i as) p as"
  proof (cases as rule: rev_cases)
    case Nil
    let ?ns = "ns(p := set_first (node_offset (brother0 ns i) (Some p)) (ns p))"
    have "brother0 ns i \<noteq> Some p" using rest p by (cases bs) auto
    then have "first0 ?ns p = brother0 ns i" by (simp add: follow_offset_opt)
    moreover have "brother0 ?ns = brother0 ns" by (intro ext) simp
    ultimately show ?thesis using rest Nil by (simp add: past_def unlink_frame_def)
  next
    case (snoc as' a)
    let ?ns = "ns(a := (ns a)\<lparr>brother := node_offset (brother0 ns i) (Some a)\<rparr>)"
    have l': "linked (brother0 ns) (first0 ns p) (as' @ a # i # bs)" using l snoc by simp
    have "brother0 ns i \<noteq> Some a" using rest d snoc by (cases bs) auto
    then have "brother0 ?ns = (brother0 ns)(a := brother0 ns i)" by (intro ext) (simp add: follow_offset_opt)
    then have "linked (brother0 ?ns) (first0 ?ns p) (as @ bs)"
      using linked_delete [OF l'] snoc p by simp
    then show ?thesis using snoc by (simp add: past_def unlink_frame_def)
  qed
  then show "linked (brother0 (past ns p i as)) (first0 (past ns p i as) p) (as @ bs)" "unlink_frame ns (past ns p i as) p as"
    by blast+
qed

lemma unlink_found:
  assumes l: "linked (brother0 ns) (first0 ns p) (as @ i # bs)" and p: "p \<notin> set (as @ i # bs)"
  shows "\<exists>ns'. unlink_brother first set_first ns p i = Some (True, ns')
    \<and> linked (brother0 ns') (first0 ns' p) (as @ bs) \<and> unlink_frame ns ns' p as"
proof -
  have d: "distinct (as @ i # bs)" using l by (rule linked_distinct)
  have "unlink_brother first set_first ns p i = Some (True, past ns p i as)"
  proof (cases as rule: rev_cases)
    case Nil
    then show ?thesis using l by (simp add: unlink_brother_def past_def)
  next
    case (snoc as' a)
    have l': "linked (brother0 ns) (first0 ns p) (as' @ a # i # bs)" using l snoc by simp
    then obtain x where x1: "first0 ns p = Some x" by (cases as') auto
    then have x: "first0 ns p = Some x" "first (ns p) \<noteq> 0" by auto
    have "x \<noteq> i" using l' x(1) d snoc by (cases as') auto
    moreover have "elder_brother ns i x = Some a"
      by (rule elder_brother_before [of ns x as' a i bs]) (use l' x(1) d snoc in auto)
    moreover have "brother0 ns a = Some i" using l' by (induction as' arbitrary: p) (auto dest: linked_append)
    ultimately show ?thesis using x snoc by (simp add: unlink_brother_def past_def)
  qed
  then show ?thesis using past_links [OF l p] by blast
qed

end


section \<open>The hierarchy without the deleted nodes\<close>

definition thinned ::
    "(nat \<Rightarrow> NODE) \<Rightarrow> nat set \<Rightarrow> (nat \<Rightarrow> nat list) \<Rightarrow> (nat \<Rightarrow> nat list) \<Rightarrow> nat set \<Rightarrow> (nat \<Rightarrow> NODE) \<Rightarrow> bool" where
  "thinned ns L C M D ns' \<longleftrightarrow>
     (\<forall>p\<in>L. linked (brother0 ns') (child0 ns' p) (filter (\<lambda>j. j \<notin> D) (C p))
        \<and> linked (brother0 ns') (member0 ns' p) (if p \<in> D then [] else filter (\<lambda>j. j \<notin> D) (M p)))
     \<and> (\<forall>j. parent (ns' j) = parent (ns j) \<and> (j \<notin> D \<longrightarrow> name (ns' j) = name (ns j)))"

definition retired :: "NODE \<Rightarrow> NODE" where
  "retired n = n\<lparr>name := deleted_name, conglomerate_elt := 0, member := 0, brother := 0, usage := 0\<rparr>"

lemma linked_still:
  "linked (brother0 ns) x xs \<Longrightarrow> (\<And>j. j \<in> set xs \<Longrightarrow> brother (ns' j) = brother (ns j)) \<Longrightarrow> linked (brother0 ns') x xs"
  using linked_cong [of xs "brother0 ns" "brother0 ns'"] by simp

lemma filter_split:
  assumes "i \<in> set xs" "i \<notin> D" "distinct xs"
  obtains as bs where "filter (\<lambda>j. j \<notin> D) xs = as @ i # bs" "filter (\<lambda>j. j \<notin> insert i D) xs = as @ bs"
    "set as \<subseteq> set xs" "i \<notin> set (as @ bs)"
proof -
  obtain us vs where xs: "xs = us @ i # vs" using split_list [OF assms(1)] by blast
  then have "i \<notin> set us" "i \<notin> set vs" using assms(3) by auto
  then have "filter (\<lambda>j. j \<notin> insert i D) us = filter (\<lambda>j. j \<notin> D) us" "filter (\<lambda>j. j \<notin> insert i D) vs = filter (\<lambda>j. j \<notin> D) vs"
    by (auto intro!: filter_cong)
  then show thesis using that [of "filter (\<lambda>j. j \<notin> D) us" "filter (\<lambda>j. j \<notin> D) vs"] xs assms(2)
      \<open>i \<notin> set us\<close> \<open>i \<notin> set vs\<close> by auto
qed

lemma filter_absent: "i \<notin> set xs \<Longrightarrow> filter (\<lambda>j. j \<notin> insert i D) xs = filter (\<lambda>j. j \<notin> D) xs"
  by (auto intro!: filter_cong)

text \<open>
  What a step needs to know of the nodes after the links have been changed: which brothers
  changed, and the two lists of the parent.
\<close>

lemma thinned_retired:
  assumes h: "hierarchy ns L C M" and t: "thinned ns L C M D ns1" and i: "i \<in> L" "i \<notin> D" "p \<in> L" "i \<noteq> p"
    and fr: "\<And>j. parent (ns2 j) = parent (ns1 j) \<and> name (ns2 j) = name (ns1 j)"
    and first: "\<And>j. j \<noteq> p \<Longrightarrow> child (ns2 j) = child (ns1 j) \<and> member (ns2 j) = member (ns1 j)"
    and bro: "\<And>j. j \<notin> A \<Longrightarrow> brother (ns2 j) = brother (ns1 j)"
    and A: "\<And>q. q \<in> L \<Longrightarrow> q \<noteq> p \<Longrightarrow> insert i A \<inter> (set (C q) \<union> set (M q)) = {}"
    and cp: "linked (brother0 ns2) (child0 ns2 p) (filter (\<lambda>j. j \<notin> insert i D) (C p))"
    and mp: "linked (brother0 ns2) (member0 ns2 p) (if p \<in> D then [] else filter (\<lambda>j. j \<notin> insert i D) (M p))"
  shows "thinned ns L C M (insert i D) (ns2(i := retired (ns2 i)))"
proof -
  let ?ns = "ns2(i := retired (ns2 i))"
  have keep: "linked (brother0 ?ns) x (filter (\<lambda>j. j \<notin> insert i D) xs)"
    if "linked (brother0 ns2) x (filter (\<lambda>j. j \<notin> insert i D) xs)" for x xs
    using that by (rule linked_still) auto
  have "linked (brother0 ?ns) (child0 ?ns q) (filter (\<lambda>j. j \<notin> insert i D) (C q))
      \<and> linked (brother0 ?ns) (member0 ?ns q) (if q \<in> insert i D then [] else filter (\<lambda>j. j \<notin> insert i D) (M q))"
    if q: "q \<in> L" for q
  proof (cases "q = p")
    case True
    have "child (?ns p) = child (ns2 p)" "member (?ns p) = member (ns2 p)" using i(4) by auto
    then show ?thesis using keep [OF cp] keep [of _ "M p"] mp i(4) True by (cases "p \<in> D") auto
  next
    case False
    have no: "i \<notin> set (C q)" "i \<notin> set (M q)" "\<And>j. j \<in> set (C q) \<union> set (M q) \<Longrightarrow> j \<notin> A"
      using A [OF q False] by auto
    have t: "linked (brother0 ns1) (child0 ns1 q) (filter (\<lambda>j. j \<notin> D) (C q))"
      "linked (brother0 ns1) (member0 ns1 q) (if q \<in> D then [] else filter (\<lambda>j. j \<notin> D) (M q))"
      using t q by (simp_all add: thinned_def)
    have "linked (brother0 ns2) (child0 ns1 q) (filter (\<lambda>j. j \<notin> D) (C q))"
      using linked_still [OF t(1)] bro no(3) by auto
    moreover have "linked (brother0 ns2) (member0 ns1 q) (if q \<in> D then [] else filter (\<lambda>j. j \<notin> D) (M q))"
      using linked_still [OF t(2)] bro no(3) by auto
    moreover have "child (?ns q) = child (ns1 q)" "q \<noteq> i \<Longrightarrow> member (?ns q) = member (ns1 q)"
      "q = i \<Longrightarrow> member (?ns q) = 0"
      using first [OF False] by (auto simp: retired_def)
    ultimately show ?thesis
      using keep [of _ "C q"] keep [of _ "M q"] filter_absent [OF no(1), of D] filter_absent [OF no(2), of D]
      by (cases "q = i") auto
  qed
  moreover have "parent (?ns j) = parent (ns j) \<and> (j \<notin> insert i D \<longrightarrow> name (?ns j) = name (ns j))" for j
    using fr [of j] t by (auto simp: thinned_def retired_def)
  ultimately show ?thesis unfolding thinned_def by blast
qed


lemma thinned_step:
  assumes h: "hierarchy ns L C M" and t: "thinned ns L C M D ns1" and i: "i \<in> L" "i \<notin> D"
    and p: "p \<in> L" "i \<in> set (C p) \<union> set (M p)" "p \<notin> set (C p) \<union> set (M p)"
  shows "\<exists>ns2. unlink_node ns1 p i = Some ns2 \<and> thinned ns L C M (insert i D) (ns2(i := retired (ns2 i)))
    \<and> (\<forall>j. tag_link (ns2 j) = tag_link (ns1 j) \<and> usage (ns2 j) = usage (ns1 j))"
proof -
  have uniq: "q = p" if "q \<in> L" "j \<in> set (C q) \<union> set (M q)" "j \<in> set (C p) \<union> set (M p)" for q j
    using hierarchy_lists(5) [OF h that(1,2)] hierarchy_lists(5) [OF h p(1) that(3)] by simp
  have ip: "i \<noteq> p" using p by auto
  have lists: "linked (brother0 ns1) (child0 ns1 p) (filter (\<lambda>j. j \<notin> D) (C p))"
    "linked (brother0 ns1) (member0 ns1 p) (if p \<in> D then [] else filter (\<lambda>j. j \<notin> D) (M p))"
    using t p(1) by (simp_all add: thinned_def)
  have d: "distinct (C p)" "distinct (M p)"
    using hierarchy_lists(1,3) [OF h p(1)] linked_distinct by blast+
  have cm: "set (C p) \<inter> set (M p) = {}" using h p(1) by (simp add: hierarchy_def)
  have other: "insert i A \<inter> (set (C q) \<union> set (M q)) = {}" if "A \<subseteq> set (C p) \<union> set (M p)" "q \<in> L" "q \<noteq> p" for A q
    using uniq [OF that(2)] that p(2) by blast
  consider (child) "i \<in> set (C p)" | (member) "i \<in> set (M p)" "p \<notin> D" | (gone) "i \<in> set (M p)" "p \<in> D"
    using p(2) by blast
  then show ?thesis
  proof cases
    case child
    then obtain as bs where s: "filter (\<lambda>j. j \<notin> D) (C p) = as @ i # bs"
      "filter (\<lambda>j. j \<notin> insert i D) (C p) = as @ bs" "set as \<subseteq> set (C p)"
      using filter_split [OF _ i(2) d(1)] by metis
    have "p \<notin> set (as @ i # bs)" using p(3) s(1) by (metis UnCI filter_is_subset subsetD)
    then obtain ns2 where n: "unlink_brother child (\<lambda>off n. n\<lparr>child := off\<rparr>) ns1 p i = Some (True, ns2)"
      "linked (brother0 ns2) (child0 ns2 p) (as @ bs)" "children.unlink_frame ns1 ns2 p as"
      using children.unlink_found [of ns1 p as i bs] lists(1) s(1) by auto
    have "thinned ns L C M (insert i D) (ns2(i := retired (ns2 i)))"
    proof (rule thinned_retired [OF h t i p(1) ip, where A = "set as"])
      show "insert i (set as) \<inter> (set (C q) \<union> set (M q)) = {}" if "q \<in> L" "q \<noteq> p" for q
        by (rule other) (use s(3) that in auto)
      show "linked (brother0 ns2) (member0 ns2 p) (if p \<in> D then [] else filter (\<lambda>j. j \<notin> insert i D) (M p))"
      proof -
        have "i \<notin> set (M p)" using child cm by blast
        note f = filter_absent [OF this, of D]
        have "linked (brother0 ns2) (member0 ns1 p) (if p \<in> D then [] else filter (\<lambda>j. j \<notin> D) (M p))"
          by (rule linked_still [OF lists(2)]) (use n(3) s(3) cm in \<open>auto simp: children.unlink_frame_def split: if_splits\<close>)
        moreover have "member (ns2 p) = member (ns1 p)" using n(3) by (simp add: children.unlink_frame_def)
        ultimately show ?thesis unfolding f by (cases "p \<in> D") simp_all
      qed
    qed (use n s(1,2) in \<open>auto simp: children.unlink_frame_def\<close>)
    then show ?thesis using n(1,3) by (simp add: unlink_node_def children.unlink_frame_def)
  next
    case member
    have ic: "i \<notin> set (C p)" using member cm by blast
    have absent: "unlink_brother child (\<lambda>off n. n\<lparr>child := off\<rparr>) ns1 p i = Some (False, ns1)"
      using children.unlink_absent [OF lists(1)] ic by simp
    obtain as bs where s: "filter (\<lambda>j. j \<notin> D) (M p) = as @ i # bs"
      "filter (\<lambda>j. j \<notin> insert i D) (M p) = as @ bs" "set as \<subseteq> set (M p)"
      using filter_split [OF member(1) i(2) d(2)] by metis
    have "p \<notin> set (as @ i # bs)" using p(3) s(1) by (metis UnCI filter_is_subset subsetD)
    then obtain ns2 where n: "unlink_brother member (\<lambda>off n. n\<lparr>member := off\<rparr>) ns1 p i = Some (True, ns2)"
      "linked (brother0 ns2) (member0 ns2 p) (as @ bs)" "members.unlink_frame ns1 ns2 p as"
      using members.unlink_found [of ns1 p as i bs] lists(2) s(1) member(2) by auto
    have "thinned ns L C M (insert i D) (ns2(i := retired (ns2 i)))"
    proof (rule thinned_retired [OF h t i p(1) ip, where A = "set as"])
      show "insert i (set as) \<inter> (set (C q) \<union> set (M q)) = {}" if "q \<in> L" "q \<noteq> p" for q
        by (rule other) (use s(3) that in auto)
      show "linked (brother0 ns2) (child0 ns2 p) (filter (\<lambda>j. j \<notin> insert i D) (C p))"
      proof -
        have "linked (brother0 ns2) (child0 ns1 p) (filter (\<lambda>j. j \<notin> D) (C p))"
          by (rule linked_still [OF lists(1)]) (use n(3) s(3) cm in \<open>auto simp: members.unlink_frame_def\<close>)
        moreover have "child (ns2 p) = child (ns1 p)" using n(3) by (simp add: members.unlink_frame_def)
        ultimately show ?thesis using filter_absent [OF ic] by simp
      qed
      show "linked (brother0 ns2) (member0 ns2 p) (if p \<in> D then [] else filter (\<lambda>j. j \<notin> insert i D) (M p))"
        using n(2) s(2) member(2) by simp
    qed (use n(3) in \<open>auto simp: members.unlink_frame_def\<close>)
    then show ?thesis using n(1,3) absent by (simp add: unlink_node_def members.unlink_frame_def)
  next
    case gone
    have ic: "i \<notin> set (C p)" using gone cm by blast
    have "unlink_brother child (\<lambda>off n. n\<lparr>child := off\<rparr>) ns1 p i = Some (False, ns1)"
      using children.unlink_absent [OF lists(1)] ic by simp
    moreover have "unlink_brother member (\<lambda>off n. n\<lparr>member := off\<rparr>) ns1 p i = Some (False, ns1)"
      using members.unlink_absent [OF lists(2)] gone(2) by simp
    ultimately have "unlink_node ns1 p i = Some ns1" by (simp add: unlink_node_def)
    moreover have "thinned ns L C M (insert i D) (ns1(i := retired (ns1 i)))"
      by (rule thinned_retired [OF h t i p(1) ip, where A = "{}"])
        (use lists gone filter_absent [OF ic] other [of "{}"] in auto)
    ultimately show ?thesis by auto
  qed
qed


section \<open>One node deleted\<close>

lemma same_but_tagsD:
  assumes "same_but_tags info info'"
  shows "child (node info' j) = child (node info j)" "member (node info' j) = member (node info j)"
    "brother (node info' j) = brother (node info j)" "parent (node info' j) = parent (node info j)"
    "name (node info' j) = name (node info j)" "usage (node info' j) = usage (node info j)"
    "external info' = external info" "externals (header info') = externals (header info)"
    "nodes (header info') = nodes (header info)" "edit info' = edit info"
proof -
  have "(node info' j)\<lparr>tag_link := tag_link (node info j)\<rparr> = node info j"
    using assms by (simp add: same_but_tags_def)
  then show "child (node info' j) = child (node info j)" "member (node info' j) = member (node info j)"
    "brother (node info' j) = brother (node info j)" "parent (node info' j) = parent (node info j)"
    "name (node info' j) = name (node info j)" "usage (node info' j) = usage (node info j)"
    by (cases "node info j"; cases "node info' j"; simp)+
  show "external info' = external info" "externals (header info') = externals (header info)"
    "nodes (header info') = nodes (header info)" "edit info' = edit info"
    using assms by (cases info; cases info'; cases "header info"; cases "header info'"; simp add: same_but_tags_def)+
qed

lemma same_but_refD:
  assumes "same_but_ref i info info'"
  shows "child (node info' j) = child (node info j)" "member (node info' j) = member (node info j)"
    "brother (node info' j) = brother (node info j)" "parent (node info' j) = parent (node info j)"
    "name (node info' j) = name (node info j)" "tag_link (node info' j) = tag_link (node info j)"
    "tag_info info' = tag_info info" "tag_index info' = tag_index info" "tags (header info') = tags (header info)"
    "nodes (header info') = nodes (header info)" "edit info' = edit info"
proof -
  have "(node info' j)\<lparr>usage := usage (node info j)\<rparr> = node info j"
    using assms by (simp add: same_but_ref_def)
  then show "child (node info' j) = child (node info j)" "member (node info' j) = member (node info j)"
    "brother (node info' j) = brother (node info j)" "parent (node info' j) = parent (node info j)"
    "name (node info' j) = name (node info j)" "tag_link (node info' j) = tag_link (node info j)"
    by (cases "node info j"; cases "node info' j"; simp)+
  show "tag_info info' = tag_info info" "tag_index info' = tag_index info" "tags (header info') = tags (header info)"
    "nodes (header info') = nodes (header info)" "edit info' = edit info"
    using assms by (cases info; cases info'; cases "header info"; cases "header info'"; simp add: same_but_ref_def)+
qed

lemma thinned_cong:
  assumes "thinned ns L C M D ns1"
    and "\<And>j. child (ns2 j) = child (ns1 j) \<and> member (ns2 j) = member (ns1 j) \<and> brother (ns2 j) = brother (ns1 j)
      \<and> parent (ns2 j) = parent (ns1 j) \<and> name (ns2 j) = name (ns1 j)"
  shows "thinned ns L C M D ns2"
proof -
  have "brother0 ns2 = brother0 ns1" using assms(2) by (intro ext) simp
  then show ?thesis using assms by (simp add: thinned_def)
qed

text \<open>The tables of a tree without the node \<open>i\<close>; \<open>fm\<close> is the first node in memory.\<close>

definition dropped :: "nat set \<Rightarrow> nat list \<Rightarrow> TREE_INFO \<Rightarrow> TREE_INFO \<Rightarrow> bool" where
  "dropped D is info info' \<longleftrightarrow>
     tags_ok info' \<and> tag_map info' = (\<lambda>s. case tag_map info s of Some i \<Rightarrow> if i \<in> D then None else Some i | None \<Rightarrow> None)
     \<and> external_ok info' \<and> set (external info') = set (external info) - D
     \<and> nodes (header info') = nodes (header info)
     \<and> first_in_mem (the (edit info')) = first_in_mem (the (edit info))
     \<and> deleted_nid_list (the (edit info')) =
         rev (map (make_nid 0) (filter (\<lambda>i. i < first_in_mem (the (edit info))) is)) @ deleted_nid_list (the (edit info))"

lemma delete_one_ok:
  assumes op: "IS_OPEN_FOR_EDIT db" and n: "i < nodes (header (tree_info db))" "nodes (header (tree_info db)) < 2 ^ 24"
    and tg: "tags_ok (tree_info db)" and ex: "external_ok (tree_info db)"
    and h: "hierarchy ns L C M" and t: "thinned ns L C M D (node (tree_info db))" and i: "i \<in> L" "i \<notin> D"
    and p: "p \<in> L" "i \<in> set (C p) \<union> set (M p)" "p \<notin> set (C p) \<union> set (M p)"
  shows "\<exists>info' m. delete_one db (make_nid 0 i) = Some (db\<lparr>tree_info := info', modified := m\<rparr>)
    \<and> dropped {i} [i] (tree_info db) info' \<and> thinned ns L C M (insert i D) (node info')"
proof -
  let ?info = "tree_info db" and ?nid = "make_nid 0 i"
  note nid = main_nid [OF less_imp_le [OF n(1)] n(2)]
  obtain info1 where r1: "remove_tags ?info (tag_link (node ?info i)) = Some info1" "tags_ok info1"
    "tag_map info1 = (\<lambda>s. if tag_map ?info s = Some i then None else tag_map ?info s)"
    using remove_tags_ok [OF tg n(1) refl] by blast
  note f1 = same_but_tagsD [OF remove_tags_frame [OF r1(1)]]
  obtain m1 where s1: "TreeRemoveNodesTags db ?nid = Some (TreeSUCCESS, db\<lparr>tree_info := info1, modified := m1\<rparr>)"
    using op nid(3) r1(1) by (simp add: TreeRemoveNodesTags_def)
  let ?db1 = "db\<lparr>tree_info := info1, modified := m1\<rparr>"
  have "external_ok info1" using ex f1 by (simp add: external_ok_def)
  moreover have "nid_to_node ?db1 ?nid = Some (0, i)" using main_nid(3) [of i ?db1] n f1(9) by simp
  moreover have "IS_OPEN_FOR_EDIT ?db1" using op by (simp add: IS_OPEN_FOR_EDIT_def)
  ultimately obtain info2 m2 where s2: "TreeSetNoSubtree ?db1 ?nid = Some (TreeSUCCESS, ?db1\<lparr>tree_info := info2, modified := m2\<rparr>)"
    and r2: "external_ok info2" "set (external info2) = set (external info1) - {i}" "same_but_ref i info1 info2"
    using set_no_subtree_ok [of ?db1 ?nid i] by auto
  note f2 = same_but_refD [OF r2(3)]
  let ?db2 = "db\<lparr>tree_info := info2, modified := m2\<rparr>"
  have nid2: "nid_to_node ?db2 ?nid = Some (0, i)" using main_nid(3) [of i ?db2] n f1(9) f2(10) by simp
  have t2: "thinned ns L C M D (node info2)" by (rule thinned_cong [OF t]) (simp add: f1 f2)
  obtain ns3 where u: "unlink_node (node info2) p i = Some ns3"
    "thinned ns L C M (insert i D) (ns3(i := retired (ns3 i)))"
    "\<And>j. tag_link (ns3 j) = tag_link (node info2 j) \<and> usage (ns3 j) = usage (node info2 j)"
    using thinned_step [OF h t2 i p] by blast
  have par: "parent0 (node info2) i = Some p"
    using t2 hierarchy_lists(5) [OF h p(1,2)] by (simp add: thinned_def)
  define info' where "info' = retire_node (info2\<lparr>node := ns3\<rparr>) ?nid"
  have run: "delete_one db ?nid = Some (db\<lparr>tree_info := info', modified := m2\<rparr>)"
    using s1 s2 nid2 par u(1) by (simp add: delete_one_def info'_def Let_def)
  have node': "node info' = ns3(i := retired (ns3 i))"
    using nid(1) by (simp add: info'_def retire_node_def retired_def Let_def)
  have fields: "tag_info info' = tag_info info1" "tag_index info' = tag_index info1" "header info' = header info2"
    "external info' = external info2"
    using f2 by (simp_all add: info'_def retire_node_def Let_def)
  have links: "tag_link (node info' j) = tag_link (node info1 j)" for j
    using u(3) f2(6) by (simp add: node' retired_def)
  have tg': "tags_ok info'" "tag_map info' = tag_map info1"
    using tags_ok_cong [OF r1(2) fields(1,2)] fields(3) f2(9,10) links by simp_all
  have ex': "external_ok info'"
    using r2 u(3) by (auto simp: external_ok_def fields node' retired_def)
  have "dropped {i} [i] ?info info'"
    unfolding dropped_def
  proof (intro conjI)
    show "tag_map info' = (\<lambda>s. case tag_map ?info s of Some k \<Rightarrow> if k \<in> {i} then None else Some k | None \<Rightarrow> None)"
      unfolding tg'(2) r1(3) by (intro ext) (simp split: option.split)
    show "set (external info') = set (external ?info) - {i}" using r2(2) f1(7) fields(4) by simp
    show "nodes (header info') = nodes (header ?info)" using fields(3) f2(10) f1(9) by simp
    show "first_in_mem (the (edit info')) = first_in_mem (the (edit ?info))"
      using f1(10) f2(11) by (simp add: info'_def retire_node_def Let_def)
    show "deleted_nid_list (the (edit info')) =
         rev (map (make_nid 0) (filter (\<lambda>i. i < first_in_mem (the (edit ?info))) [i])) @ deleted_nid_list (the (edit ?info))"
      using f1(10) f2(11) nid(1) by (simp add: info'_def retire_node_def Let_def)
  qed (rule tg'(1) ex')+
  then show ?thesis using run u(2) node' by (intro exI [of _ info'] exI [of _ m2]) simp
qed


section \<open>All marked nodes deleted\<close>

lemma next_marked_filter:
  "\<forall>k<n. k div 8 < length l \<Longrightarrow>
   next_marked l n i = Some (case filter (\<lambda>k. k \<in> marked l) [i..<n] of [] \<Rightarrow> None | k # _ \<Rightarrow> Some k)"
proof (induction l n i rule: next_marked.induct)
  case (1 l n i)
  show ?case
  proof (cases "i < n")
    case True
    then have "getbit l i = Some (i \<in> marked l)" using 1(2) getbit_marked by blast
    then show ?thesis using 1 True by (subst next_marked.simps) (simp add: upt_conv_Cons)
  qed (simp add: next_marked.simps)
qed

lemma filter_upt_Cons:
  assumes "filter P [a..<n] = i # is" shows "a \<le> i \<and> i < n \<and> P i \<and> is = filter P [Suc i..<n]"
proof -
  obtain us vs where s: "[a..<n] = us @ i # vs" "P i" "is = filter P vs"
    using filter_eq_ConsD [OF assms] by blast
  then have "length us < length [a..<n]" by simp
  then have len: "length us < n - a" by (simp only: length_upt)
  have "[a..<n] ! length us = i" using s(1) by simp
  then have i: "i = a + length us" using len by simp
  have "vs = drop (Suc (length us)) [a..<n]" using s(1) by simp
  then have "vs = [Suc i..<n]" using i by (simp only: drop_upt add_Suc_right)
  then show ?thesis using s(2,3) i len by simp
qed

lemma dropped_refl: "tags_ok info \<Longrightarrow> external_ok info \<Longrightarrow> dropped {} [] info info"
  by (auto simp: dropped_def split: option.split)

lemma dropped_trans:
  assumes "dropped D is a b" "dropped E js b c" shows "dropped (D \<union> E) (is @ js) a c"
  using assms by (auto simp: dropped_def split: option.splits)

lemma delete_marked_ok:
  assumes h: "hierarchy ns L C M" and n: "n < 2 ^ 24" and l: "\<forall>k<n. k div 8 < length l"
    and L: "\<forall>i\<in>marked l. 0 < i \<and> i < n \<longrightarrow>
      i \<in> L \<and> (\<exists>p\<in>L. i \<in> set (C p) \<union> set (M p) \<and> p \<notin> set (C p) \<union> set (M p))"
  shows "ds = filter (\<lambda>k. k \<in> marked l) [Suc j..<n] \<Longrightarrow> j < n \<Longrightarrow> IS_OPEN_FOR_EDIT db \<Longrightarrow> delete_list db = Some l \<Longrightarrow>
    n = nodes (header (tree_info db)) \<Longrightarrow> tags_ok (tree_info db) \<Longrightarrow> external_ok (tree_info db) \<Longrightarrow>
    thinned ns L C M D (node (tree_info db)) \<Longrightarrow> \<forall>k\<in>D. k \<le> j \<Longrightarrow>
    \<exists>info' m. delete_marked db (make_nid 0 j) = Some (db\<lparr>tree_info := info', modified := m\<rparr>)
      \<and> dropped (set ds) ds (tree_info db) info' \<and> thinned ns L C M (D \<union> set ds) (node info')"
proof (induction ds arbitrary: j D db)
  case Nil
  note nid = main_nid [of j db]
  have "TreeDeleteNodeGetNid db (make_nid 0 j) = Some (TreeNMN, make_nid 0 j)"
    using Nil nid n next_marked_filter [OF l, of "Suc j"] by (simp add: TreeDeleteNodeGetNid_def)
  then have "delete_marked db (make_nid 0 j) = Some (db\<lparr>tree_info := tree_info db, modified := modified db\<rparr>)"
    by (subst delete_marked.simps) simp
  then show ?case
    using dropped_refl Nil(6-8) by (intro exI [of _ "tree_info db"] exI [of _ "modified db"]) simp
next
  case (Cons i ds)
  note nid = main_nid [of j db]
  have i: "Suc j \<le> i" "i < n" "i \<in> marked l" "ds = filter (\<lambda>k. k \<in> marked l) [Suc i..<n]"
    using filter_upt_Cons [OF Cons.prems(1) [symmetric]] by auto
  have get: "TreeDeleteNodeGetNid db (make_nid 0 j) = Some (TreeSUCCESS, make_nid 0 i)"
  proof -
    have "next_marked l n (Suc j) = Some (Some i)"
      using next_marked_filter [OF l, of "Suc j"] unfolding Cons.prems(1) [symmetric] by simp
    then show ?thesis using Cons.prems(2,4,5) nid n by (simp add: TreeDeleteNodeGetNid_def)
  qed
  have "i \<in> L \<and> (\<exists>p\<in>L. i \<in> set (C p) \<union> set (M p) \<and> p \<notin> set (C p) \<union> set (M p))"
    using L i(1-3) by simp
  then obtain p where p: "i \<in> L" "p \<in> L" "i \<in> set (C p) \<union> set (M p)" "p \<notin> set (C p) \<union> set (M p)" by blast
  have "i \<notin> D" using Cons.prems(9) i(1) by auto
  from delete_one_ok [OF Cons.prems(3) _ _ Cons.prems(6,7) h Cons.prems(8) p(1) this p(2-4)]
  obtain info1 m1 where one: "delete_one db (make_nid 0 i) = Some (db\<lparr>tree_info := info1, modified := m1\<rparr>)"
    "dropped {i} [i] (tree_info db) info1" "thinned ns L C M (insert i D) (node info1)"
    using i(2) n Cons.prems(5) by auto
  let ?db = "db\<lparr>tree_info := info1, modified := m1\<rparr>"
  have "tags_ok info1" "external_ok info1" "nodes (header info1) = n"
    using one(2) Cons.prems(5) by (simp_all add: dropped_def)
  moreover have "\<forall>k\<in>insert i D. k \<le> i" using Cons.prems(9) i(1) by auto
  ultimately obtain info' m where two: "delete_marked ?db (make_nid 0 i) = Some (?db\<lparr>tree_info := info', modified := m\<rparr>)"
    "dropped (set ds) ds info1 info'" "thinned ns L C M (insert i D \<union> set ds) (node info')"
    using Cons.IH [OF i(4,2), of ?db "insert i D"] Cons.prems(3,4) one(3)
    by (auto simp: IS_OPEN_FOR_EDIT_def)
  have "delete_marked db (make_nid 0 j) = Some (db\<lparr>tree_info := info', modified := m\<rparr>)"
    using get one(1) two(1) by (subst delete_marked.simps) simp
  moreover have "dropped (set (i # ds)) (i # ds) (tree_info db) info'"
    using dropped_trans [OF one(2) two(2)] by simp
  ultimately show ?case using two(3) by auto
qed


lemma thinned_start: "hierarchy ns L C M \<Longrightarrow> thinned ns L C M {} ns"
  using hierarchy_lists(1,3) by (auto simp: thinned_def)

lemma thinned_hierarchy:
  assumes h: "hierarchy ns L C M" and t: "thinned ns L C M D ns'"
  shows "hierarchy ns' (L - D) (\<lambda>p. filter (\<lambda>j. j \<notin> D) (C p)) (\<lambda>p. filter (\<lambda>j. j \<notin> D) (M p))"
proof -
  have par: "parent0 ns' j = parent0 ns j" for j using t by (simp add: thinned_def)
  have "children.lists ns' (L - D) (\<lambda>p. filter (\<lambda>j. j \<notin> D) (C p))"
    "members.lists ns' (L - D) (\<lambda>p. filter (\<lambda>j. j \<notin> D) (M p))"
    unfolding children.lists_def members.lists_def
    using t hierarchy_lists(2,4,5) [OF h] par by (auto simp: thinned_def)
  moreover have "set (filter (\<lambda>j. j \<notin> D) (C p)) \<inter> set (filter (\<lambda>j. j \<notin> D) (M p)) = {}
      \<and> valid_name (name (ns' p))" if "p \<in> L - D" for p
    using h t that by (auto simp: hierarchy_def thinned_def)
  ultimately show ?thesis by (simp add: hierarchy_def)
qed

text \<open>
  C6: \<open>_TreeDeleteNodeExecute\<close> ends and deletes exactly the marked nodes, except the top of the tree. The
  remaining nodes keep their hierarchy without them, the map of the tags loses the tags of the
  deleted nodes and no others, and the set of the subtree references loses the deleted nodes. The
  deleted nodes with a record in the file are noted, the last one first; deleted nodes whose
  characteristics are in memory are not noted anywhere. Afterwards no node is marked.
\<close>

theorem TreeDeleteNodeExecute_deletes:
  assumes "IS_OPEN_FOR_EDIT db" and "info = tree_info db" and "n = nodes (header info)" and "0 < n" and "n < 2 ^ 24"
    and "delete_list db = Some l" and "length l = n div 8 + 4" and "delete_list_vm db = length l"
    and "D = {i \<in> marked l. 0 < i \<and> i < n}"
    and "hierarchy (node info) L C M" and "tags_ok info" and "external_ok info"
    and "\<forall>i\<in>D. i \<in> L \<and> (\<exists>p\<in>L. i \<in> set (C p) \<union> set (M p) \<and> p \<notin> set (C p) \<union> set (M p))"
  shows "\<exists>db'. TreeDeleteNodeExecute mem db = Some db'
    \<and> hierarchy (node (tree_info db')) (L - D) (\<lambda>p. filter (\<lambda>j. j \<notin> D) (C p)) (\<lambda>p. filter (\<lambda>j. j \<notin> D) (M p))
    \<and> tags_ok (tree_info db') \<and> external_ok (tree_info db')
    \<and> tag_map (tree_info db') = (\<lambda>s. case tag_map info s of Some i \<Rightarrow> if i \<in> D then None else Some i | None \<Rightarrow> None)
    \<and> set (external (tree_info db')) = set (external info) - D
    \<and> deleted_nid_list (the (edit (tree_info db'))) =
        rev (map (make_nid 0) (filter (\<lambda>i. i \<in> D \<and> i < first_in_mem (the (edit info))) [0..<n]))
        @ deleted_nid_list (the (edit info))
    \<and> delete_list db' = Some (replicate (n div 8 + 4) 0) \<and> modified db'"
proof -
  let ?ds = "filter (\<lambda>k. k \<in> marked l) [Suc 0..<n]"
  have l: "\<forall>k<n. k div 8 < length l"
  proof (intro allI impI)
    fix k assume "k < n"
    then have "k div 8 \<le> n div 8" by (intro div_le_mono) simp
    then show "k div 8 < length l" using assms(7) by simp
  qed
  have ds: "set ?ds = D" by (auto simp: assms(9))
  have ds_eq: "filter (\<lambda>i. i < x) ?ds = filter (\<lambda>i. i \<in> D \<and> i < x) [0..<n]" for x
    using assms(4) by (auto simp: assms(9) upt_conv_Cons [of 0] intro!: filter_cong)
  have L: "\<forall>i\<in>marked l. 0 < i \<and> i < n \<longrightarrow>
      i \<in> L \<and> (\<exists>p\<in>L. i \<in> set (C p) \<union> set (M p) \<and> p \<notin> set (C p) \<union> set (M p))"
    using assms(9,13) by blast
  have t: "thinned (node info) L C M {} (node (tree_info db))"
    using thinned_start [OF assms(10)] assms(2) by simp
  have "\<exists>info' m. delete_marked db (make_nid 0 0) = Some (db\<lparr>tree_info := info', modified := m\<rparr>)
      \<and> dropped (set ?ds) ?ds (tree_info db) info' \<and> thinned (node info) L C M ({} \<union> set ?ds) (node info')"
    by (rule delete_marked_ok [OF assms(10,5) l L refl assms(4,1,6) _ _ _ t]) (use assms in simp_all)
  then obtain info' m where run: "delete_marked db 0 = Some (db\<lparr>tree_info := info', modified := m\<rparr>)"
    and d: "dropped D ?ds info info'" and t': "thinned (node info) L C M D (node info')"
    unfolding ds using assms(2) by (auto simp: make_nid_def)
  let ?db = "db\<lparr>tree_info := info', modified := True, delete_list := Some (replicate (n div 8 + 4) 0),
    delete_list_vm := n div 8 + 4\<rparr>"
  have "nodes (header info') = n" using d assms(3) by (simp add: dropped_def)
  then have "TreeDeleteNodeExecute mem db = Some ?db"
    using run assms(1,6-8) by (simp add: TreeDeleteNodeExecute_def TreeDeleteNodeInitialize_def IS_OPEN_FOR_EDIT_def Let_def)
  moreover note thinned_hierarchy [OF assms(10) t']
  ultimately show ?thesis
    using d [unfolded dropped_def ds_eq] by (intro exI [of _ ?db]) simp
qed


section \<open>Deleted nodes given back\<close>

text \<open>One round of the loop, up to the characteristics.\<close>

definition link_free :: "TREE_INFO \<Rightarrow> nat option \<Rightarrow> nat option \<Rightarrow> nat \<Rightarrow> TREE_INFO" where
  "link_free info firstempty prevnode i =
     (let ns = (case prevnode of Some q \<Rightarrow> (node info)(q := (node info q)\<lparr>parent := node_offset (Some i) (Some q)\<rparr>)
                               | None \<Rightarrow> node info);
          ns = ns(i := (ns i)\<lparr>child := node_offset prevnode (Some i), parent := node_offset firstempty (Some i)\<rparr>);
          ns = (case firstempty of Some f \<Rightarrow> ns(f := (ns f)\<lparr>child := node_offset (Some i) (Some f)\<rparr>) | None \<Rightarrow> ns)
      in (if prevnode = None then info\<lparr>header := (header info)\<lparr>free := int i * NODE_SIZE\<rparr>\<rparr> else info)\<lparr>node := ns\<rparr>)"

lemma write_deleted_Cons:
  assumes "prevnode \<noteq> Some i" "firstempty \<noteq> Some i"
  shows "write_deleted info firstempty prevnode (i # is) =
    write_deleted (clear_nci (link_free info firstempty prevnode i) i) firstempty (Some i) is"
proof -
  have "node_offset (Some i) (Some 0) = int i * NODE_SIZE" by (simp add: node_offset_def)
  then show ?thesis
    using assms by (cases prevnode; cases firstempty) (simp_all add: link_free_def Let_def minus_node_offset)
qed

lemma link_free_list:
  assumes fl: "free_list info (ps @ xs)" and i: "i \<notin> set (ps @ xs)" "i < nodes (header info)"
  shows "free_list (link_free info (first_of xs None) (last_of None ps) i) (ps @ i # xs)"
proof -
  let ?info = "link_free info (first_of xs None) (last_of None ps) i"
  have d: "distinct (ps @ xs)" "dll (node info) None ps (first_of xs None)" "dll (node info) (last_of None ps) xs None"
    using fl by (simp_all add: free_list_def)
  have fields: "child (node ?info j) = (if j = i then node_offset (last_of None ps) (Some i)
        else if first_of xs None = Some j then node_offset (Some i) (Some j) else child (node info j))"
    "parent (node ?info j) = (if j = i then node_offset (first_of xs None) (Some i)
        else if last_of None ps = Some j then node_offset (Some i) (Some j) else parent (node info j))" for j
  proof -
    have "first_of xs None \<noteq> Some i" "last_of None ps \<noteq> Some i"
      using i(1) by (cases xs; auto simp: last_of_def)+
    then show "child (node ?info j) = (if j = i then node_offset (last_of None ps) (Some i)
        else if first_of xs None = Some j then node_offset (Some i) (Some j) else child (node info j))"
      "parent (node ?info j) = (if j = i then node_offset (first_of xs None) (Some i)
        else if last_of None ps = Some j then node_offset (Some i) (Some j) else parent (node info j))"
      by (cases "first_of xs None"; cases "last_of None ps"; auto simp: link_free_def Let_def)+
  qed
  have "dll (node ?info) None ps (Some i)"
  proof (cases ps rule: rev_cases)
    case (snoc qs q)
    have "first_of xs None \<noteq> Some j" if "j \<in> set ps" for j using that d(1) by (cases xs) auto
    then show ?thesis
      using d i(1) snoc fields
      by (simp only: snoc) (rule dll_new_next [OF d(2) [unfolded snoc]], auto simp: fields last_of_def)
  qed simp
  moreover have "dll (node ?info) (Some i) xs None"
  proof (cases xs)
    case (Cons x ys)
    have "last_of None ps \<noteq> Some j" if "j \<in> set xs" for j using that d(1) last_in_set [of ps] by (auto simp: last_of_def disjoint_iff split: if_splits)
    then show ?thesis
      using d i(1) Cons fields
      by (simp only: Cons) (rule dll_new_prev [OF d(3) [unfolded Cons]], auto simp: fields)
  qed simp
  moreover have "child (node ?info i) = node_offset (last_of None ps) (Some i)"
    "parent (node ?info i) = node_offset (first_of xs None) (Some i)" by (simp_all add: fields)
  moreover have "free (header ?info) = (case ps @ i # xs of [] \<Rightarrow> - 1 | x # _ \<Rightarrow> int x * NODE_SIZE)"
    "nodes (header ?info) = nodes (header info)"
    using fl by (cases ps; auto simp: link_free_def Let_def free_list_def last_of_def split: if_splits)+
  ultimately show ?thesis
    using fl i unfolding free_list_def by auto
qed

lemma clear_nci_laws:
  "free_list (clear_nci info i) xs = free_list info xs" "nodes (header (clear_nci info i)) = nodes (header info)"
  "node (clear_nci info i) = node info" "readable info j \<Longrightarrow> readable (clear_nci info i) j"
  "readable info i \<Longrightarrow> flags_at (clear_nci info i) i = 0"
  "j \<noteq> i \<Longrightarrow> flags_at (clear_nci info i) j = flags_at info j"
  "deleted_nid_list (the (edit (clear_nci info i))) = deleted_nid_list (the (edit info))"
proof -
  note same = same_treeD [OF tree_put_nci_laws(1) [of info i empty_nci]]
  show "free_list (clear_nci info i) xs = free_list info xs" "nodes (header (clear_nci info i)) = nodes (header info)"
    "node (clear_nci info i) = node info"
    using same by (simp_all add: clear_nci_def free_list_def split: sum.split)
  show "readable info j \<Longrightarrow> readable (clear_nci info i) j"
    using readable_put by (auto simp: clear_nci_def split: sum.split)
  show "readable info i \<Longrightarrow> flags_at (clear_nci info i) i = 0"
    by (auto simp: clear_nci_def readable_def flags_put empty_nci_def split: sum.split)
  show "j \<noteq> i \<Longrightarrow> flags_at (clear_nci info i) j = flags_at info j"
    using tree_put_nci_laws(2) by (auto simp: clear_nci_def flags_at_def split: sum.split)
  show "deleted_nid_list (the (edit (clear_nci info i))) = deleted_nid_list (the (edit info))"
    by (auto simp: clear_nci_def tree_put_nci_def Let_def in_file_def split: sum.split)
qed

lemma write_deleted_ok:
  assumes "free_list info (ps @ xs)" "distinct is" "set is \<inter> set (ps @ xs) = {}" "\<forall>i\<in>set is. i < nodes (header info) \<and> readable info i"
  shows "free_list (write_deleted info (first_of xs None) (last_of None ps) is) (ps @ is @ xs)
    \<and> (\<forall>i\<in>set is. flags_at (write_deleted info (first_of xs None) (last_of None ps) is) i = 0)
    \<and> (\<forall>j. j \<notin> set is \<longrightarrow> flags_at (write_deleted info (first_of xs None) (last_of None ps) is) j = flags_at info j)
    \<and> deleted_nid_list (the (edit (write_deleted info (first_of xs None) (last_of None ps) is))) = deleted_nid_list (the (edit info))"
  using assms
proof (induction "is" arbitrary: info ps)
  case Nil
  then show ?case by simp
next
  case (Cons i "is")
  let ?info = "link_free info (first_of xs None) (last_of None ps) i"
  have i: "i \<notin> set (ps @ xs)" "i < nodes (header info)" using Cons.prems(3,4) by auto
  have "last_of None ps \<noteq> Some i" "first_of xs None \<noteq> Some i" using i(1) by (cases xs; auto simp: last_of_def)+
  note run = write_deleted_Cons [OF this, of info "is"]
  have get: "tree_get_and_lock_nci ?info j = tree_get_and_lock_nci info j" for j
    by (auto simp: link_free_def Let_def tree_get_and_lock_nci_def in_file_def)
  have fl: "free_list (clear_nci ?info i) ((ps @ [i]) @ xs)"
    using link_free_list [OF Cons.prems(1) i] by (simp add: clear_nci_laws)
  have n: "nodes (header (clear_nci ?info i)) = nodes (header info)"
    by (simp add: clear_nci_laws) (simp add: link_free_def Let_def)
  have "\<forall>j\<in>set is. j < nodes (header (clear_nci ?info i)) \<and> readable (clear_nci ?info i) j"
    using Cons.prems(4) n get clear_nci_laws(4) [of ?info] by (simp add: readable_def)
  moreover have "distinct is" "set is \<inter> set ((ps @ [i]) @ xs) = {}" using Cons.prems(2,3) by auto
  ultimately have IH: "free_list (write_deleted (clear_nci ?info i) (first_of xs None) (Some i) is) (ps @ (i # is) @ xs)"
    "\<forall>j\<in>set is. flags_at (write_deleted (clear_nci ?info i) (first_of xs None) (Some i) is) j = 0"
    "\<forall>j. j \<notin> set is \<longrightarrow> flags_at (write_deleted (clear_nci ?info i) (first_of xs None) (Some i) is) j = flags_at (clear_nci ?info i) j"
    "deleted_nid_list (the (edit (write_deleted (clear_nci ?info i) (first_of xs None) (Some i) is)))
       = deleted_nid_list (the (edit (clear_nci ?info i)))"
    using Cons.IH [OF fl] by simp_all
  have "readable ?info i" using Cons.prems(4) get by (simp add: readable_def)
  then have "flags_at (clear_nci ?info i) i = 0" by (rule clear_nci_laws(5))
  moreover have "flags_at (clear_nci ?info i) j = flags_at info j" if "j \<noteq> i" for j
    using clear_nci_laws(6) [OF that, of ?info] get by (simp add: flags_at_def)
  moreover have "deleted_nid_list (the (edit (clear_nci ?info i))) = deleted_nid_list (the (edit info))"
    by (simp add: clear_nci_laws(7)) (simp add: link_free_def Let_def)
  ultimately show ?case using IH Cons.prems(2) unfolding run by auto
qed


text \<open>
  C21: \<open>_TreeDeleteNodesWrite\<close> puts the noted nodes, in the order of the note, in front of the free list
  of the pool, whose links stay right in both directions, and empties the note. The characteristics of these
  nodes are cleared, those of no other node change.
\<close>

theorem TreeDeleteNodesWrite_free_list:
  assumes "info = tree_info db" and "free_list info xs" and "is = map nid_node (deleted_nid_list (the (edit info)))"
    and "distinct is" and "set is \<inter> set xs = {}"
    and "\<forall>nid\<in>set (deleted_nid_list (the (edit info))). nid_tree nid = 0 \<and> nid_node nid < nodes (header info)
           \<and> readable info (nid_node nid)" and "edit info \<noteq> None"
  shows "\<exists>db'. TreeDeleteNodesWrite db = Some db' \<and> free_list (tree_info db') (is @ xs)
    \<and> deleted_nid_list (the (edit (tree_info db'))) = []
    \<and> (\<forall>i\<in>set is. flags_at (tree_info db') i = 0)
    \<and> (\<forall>j. j \<notin> set is \<longrightarrow> flags_at (tree_info db') j = flags_at info j)"
proof -
  let ?ed = "the (edit info)"
  let ?info = "info\<lparr>edit := Some (?ed\<lparr>deleted_nid_list := []\<rparr>)\<rparr>"
  have get: "tree_get_and_lock_nci ?info j = tree_get_and_lock_nci info j" for j
    using assms(7) by (auto simp: tree_get_and_lock_nci_def in_file_def)
  have first: "(if free (header info) = -1 then None else Some (free_node info)) = first_of xs None"
    using free_list_empty [OF assms(2)] free_list_Cons [of info] assms(2) by (cases xs) auto
  have "list_all (\<lambda>nid. nid_to_node db nid = Some (0, nid_node nid)) (deleted_nid_list ?ed)"
    using assms(1,6) by (auto simp: list_all_iff nid_to_node_def infos_def)
  then have run: "TreeDeleteNodesWrite db = Some (db\<lparr>tree_info := write_deleted ?info (first_of xs None) None is\<rparr>)"
    unfolding TreeDeleteNodesWrite_def Let_def assms(1) [symmetric] assms(3) [symmetric] first by simp
  have "\<forall>i\<in>set is. i < nodes (header ?info) \<and> readable ?info i"
    using assms(3,6) get by (auto simp: readable_def)
  moreover have "free_list ?info ([] @ xs)" using assms(2) by simp
  ultimately show ?thesis
    using write_deleted_ok [of ?info "[]" xs "is"] assms(4,5) run get
    by (intro exI [of _ "db\<lparr>tree_info := write_deleted ?info (first_of xs None) None is\<rparr>"]) (simp add: flags_at_def)
qed

section \<open>A small tree\<close>

lemma two_tree_simps:
  "nodes (header two_tree) = 3" "node two_tree = two_nodes" "tree_info (edit_slot info) = info"
  by (simp_all add: two_tree_def edit_slot_def)

lemma two_nodes_links:
  "child0 two_nodes 0 = Some 1" "child (two_nodes 1) = 0" "child (two_nodes 2) = 0" "brother (two_nodes 1) = 0"
  "member (two_nodes i) = 0" "conglomerate_elt (two_nodes i) = 0"
proof -
  have "child (two_nodes 0) = node_offset (Some 1) (Some 0)" by (simp only: two_nodes_def) simp
  then show "child0 two_nodes 0 = Some 1" by (simp only: follow_node_offset)
qed (simp_all add: two_nodes_def zero_node_def)

lemma delete_shape_two: "delete_shape (edit_slot two_tree) ((\<lambda>_. [])(0 := [1])) (\<lambda>_. [])"
proof -
  have "linked (brother0 two_nodes) (child0 two_nodes i) (((\<lambda>_. [])(0 := [1])) i)" if "i < 3" for i
  proof -
    from that consider "i = 0" | "i = 1" | "i = 2" by linarith
    then show ?thesis by cases (use two_nodes_links in simp_all)
  qed
  moreover have "set (((\<lambda>_. [])(0 := [1])) i) \<subseteq> {..<3 :: nat}" for i :: nat by auto
  ultimately show ?thesis
    by (simp only: delete_shape_def two_tree_simps Let_def two_nodes_links) (simp add: two_nodes_links)
qed

lemma TreeDeleteNodeInitialize_marks_witness:
  "\<exists>l K. marked l = {1} \<and> (\<forall>k\<ge>K. TreeDeleteNodeInitialize k True (edit_slot two_tree) (make_nid 0 1) (Some 7) True =
     Some (TreeSUCCESS, (edit_slot two_tree)\<lparr>delete_list := Some l, delete_list_vm := 4\<rparr>, Some 1))"
proof -
  let ?db = "edit_slot two_tree" and ?S = "follows (node two_tree) 3 ((\<lambda>_. [])(0 := [1])) (\<lambda>_. [])"
  have S: "?S 1 = {}" by (simp add: follows_def two_tree_simps two_nodes_links)
  then have reach: "reach ?S {1} = {1}" using below_insert [of "\<lambda>_. False" ?S 1 "{}"] by simp
  have hyp: "IS_OPEN_FOR_EDIT ?db" "3 = nodes (header (tree_info ?db))" "?S = follows (node (tree_info ?db)) 3 ((\<lambda>_. [])(0 := [1])) (\<lambda>_. [])"
    "case delete_list ?db of Some l \<Rightarrow> length l = delete_list_vm ?db | None \<Rightarrow> delete_list_vm ?db = 0"
    by (simp_all add: two_tree_simps) (simp_all add: edit_slot_def two_tree_def IS_OPEN_FOR_EDIT_def)
  show ?thesis
    using TreeDeleteNodeInitialize_marks [OF hyp(1) delete_shape_two hyp(2,3), of 1 "{}" True "Some 7"] hyp(4) reach by auto
qed

text \<open>The same tree with node 1 marked and, as all nodes have their characteristics in the file, noted.\<close>

definition marked_tree :: PINO_DATABASE where
  "marked_tree = (edit_slot two_tree)\<lparr>delete_list := Some [2, 0, 0, 0], delete_list_vm := 4\<rparr>"

lemma TreeDeleteNodeExecute_deletes_witness:
  "\<exists>db'. TreeDeleteNodeExecute True marked_tree = Some db' \<and> child0 (node (tree_info db')) 0 = None"
proof -
  let ?D = "{i \<in> marked [2, 0, 0, 0]. 0 < i \<and> i < 3}"
  have "getbit [2, 0, 0, 0] k = Some True \<longleftrightarrow> k = 1" for k
  proof -
    have "m < 4 \<Longrightarrow> [2, 0, 0, 0] ! m = (if m = 0 then 2 else 0 :: u8)" for m
      by (simp add: nth_Cons')
    then show ?thesis by (auto simp: getbit_bit bit_2_iff)
  qed
  then have "marked [2, 0, 0, 0] = {1}" by (simp only: marked_def) simp
  then have D: "?D = {1}" by (simp only: Collect_conv_if singleton_iff) auto
  have tree: "tree_info marked_tree = two_tree" "delete_list marked_tree = Some [2, 0, 0, 0]"
    "delete_list_vm marked_tree = 4" "IS_OPEN_FOR_EDIT marked_tree"
    by (simp_all add: marked_tree_def edit_slot_def two_tree_def IS_OPEN_FOR_EDIT_def)
  have ok: "tags_ok two_tree" "external_ok two_tree"
    by (simp_all add: tags_ok_def external_ok_def two_tree_def zero_info_def zero_header_def tag_nums_def two_nodes_def zero_node_def)
  let ?C = "(\<lambda>_. [])(0 := [1 :: nat]) :: nat \<Rightarrow> nat list" and ?M = "\<lambda>_ :: nat. [] :: nat list"
  have hyp: "(0 :: nat) < 3" "(3 :: nat) < 2 ^ 24" "length [2, 0, 0, 0 :: u8] = 3 div 8 + 4"
    "delete_list_vm marked_tree = length [2, 0, 0, 0 :: u8]" "hierarchy (node two_tree) {0, 1} ?C ?M"
    "\<forall>i\<in>{1}. i \<in> {0, 1 :: nat} \<and> (\<exists>p\<in>{0, 1}. i \<in> set (?C p) \<union> set (?M p) \<and> p \<notin> set (?C p) \<union> set (?M p))"
    using tree(3) two_nodes_hierarchy by (simp_all add: two_tree_simps)
  from TreeDeleteNodeExecute_deletes [OF tree(4) tree(1) [symmetric] two_tree_simps(1) [symmetric] hyp(1,2) tree(2) hyp(3,4)
      D [symmetric] hyp(5) ok hyp(6), of True]
  have run: "\<exists>db'. TreeDeleteNodeExecute True marked_tree = Some db'
      \<and> hierarchy (node (tree_info db')) ({0, 1} - {1}) (\<lambda>p. filter (\<lambda>j. j \<notin> {1}) (?C p)) (\<lambda>p. filter (\<lambda>j. j \<notin> {1}) (?M p))"
    by blast
  then obtain db' where "TreeDeleteNodeExecute True marked_tree = Some db'"
    and h: "hierarchy (node (tree_info db')) ({0, 1} - {1}) (\<lambda>p. filter (\<lambda>j. j \<notin> {1}) (?C p)) (\<lambda>p. filter (\<lambda>j. j \<notin> {1}) (?M p))" by blast
  moreover have "child0 (node (tree_info db')) 0 = None"
    using hierarchy_lists(1) [OF h, of 0] by simp
  ultimately show ?thesis by blast
qed

text \<open>A pool of one node, which has been noted for deletion.\<close>

definition noted_tree :: TREE_INFO where
  "noted_tree = one_node\<lparr>header := zero_header\<lparr>nodes := 1, free := -1\<rparr>,
     edit := Some (zero_edit\<lparr>deleted_nid_list := [0]\<rparr>)\<rparr>"

lemma TreeDeleteNodesWrite_free_list_witness:
  "\<exists>db'. TreeDeleteNodesWrite (edit_slot noted_tree) = Some db' \<and> free_list (tree_info db') [0]"
proof -
  have hyp: "noted_tree = tree_info (edit_slot noted_tree)" "free_list noted_tree []"
    "[0] = map nid_node (deleted_nid_list (the (edit noted_tree)))" "distinct [0 :: nat]" "set [0 :: nat] \<inter> set [] = {}"
    "\<forall>nid\<in>set (deleted_nid_list (the (edit noted_tree))). nid_tree nid = 0 \<and> nid_node nid < nodes (header noted_tree)
       \<and> readable noted_tree (nid_node nid)" "edit noted_tree \<noteq> None"
    by (simp_all add: noted_tree_def one_node_def edit_slot_def free_list_def nid_node_def nid_tree_def readable_def
        tree_get_and_lock_nci_def in_file_def zero_header_def zero_edit_def)
  show ?thesis using TreeDeleteNodesWrite_free_list [OF hyp] by auto
qed

end
