(* ===== verification/TreeRename.thy ===== *)
theory TreeRename
  imports TreeEdit TreeDelete
begin

text \<open>
  Renaming a node, which also moves it (\<open>TreeRenameNode.c\<close>). The node is taken out of the list of its
  parent, gets its new name, is linked below its new parent, and the states of the nodes are passed
  on when the new parent is switched in another way than the old one. The theorem says that all invariants
  of the tree hold again and that the new path leads to the node.

  A result is \<open>None\<close> where the code does not end, follows a null pointer, subtracts pointers into two
  pools, or writes beyond the name of the node.
\<close>

section \<open>The operation\<close>

text \<open>The loop over the new parent and what is above it.\<close>

partial_function (option) is_above :: "PINO_DATABASE \<Rightarrow> node_ptr option \<Rightarrow> node_ptr option \<Rightarrow> bool option" where
  "is_above db nptr oldnode_ptr =
     (if nptr = None then Some False
      else if nptr = oldnode_ptr then Some True
      else is_above db (parent_of db nptr) oldnode_ptr)"

definition set_node :: "PINO_DATABASE \<Rightarrow> node_ptr \<Rightarrow> (NODE \<Rightarrow> NODE) \<Rightarrow> PINO_DATABASE" where
  "set_node db n f =
     (let info = infos db ! fst n
      in set_info db (fst n) (info\<lparr>node := (node info)(snd n := f (node info (snd n)))\<rparr>))"

text \<open>The link from a node to another, if they are in one pool.\<close>

definition ptr_offset :: "node_ptr option \<Rightarrow> node_ptr \<Rightarrow> int option" where
  "ptr_offset a b =
     (case a of
        None \<Rightarrow> Some 0
      | Some n \<Rightarrow> if fst n = fst b then Some (node_offset (Some (snd n)) (Some (snd b))) else None)"

text \<open>The brother before a node, from a first one on.\<close>

partial_function (option) brother_before ::
    "PINO_DATABASE \<Rightarrow> node_ptr option \<Rightarrow> node_ptr \<Rightarrow> node_ptr option option" where
  "brother_before db nptr old =
     (if nptr = None \<or> brother_of db nptr = Some old then Some nptr
      else brother_before db (brother_of db nptr) old)"

text \<open>A link to the old node, set by the last argument, is led to its brother.\<close>

definition link_past ::
    "PINO_DATABASE \<Rightarrow> node_ptr \<Rightarrow> node_ptr \<Rightarrow> (int \<Rightarrow> NODE \<Rightarrow> NODE) \<Rightarrow> (status \<times> PINO_DATABASE) option" where
  "link_past db old n set_link =
     map_option (\<lambda>off. (TreeSUCCESS, set_node db n (set_link off)))
       (if brother (node_at db old) \<noteq> 0 then ptr_offset (brother_of db (Some old)) n else Some 0)"

definition disconnect :: "PINO_DATABASE \<Rightarrow> node_ptr \<Rightarrow> (status \<times> PINO_DATABASE) option" where
  "disconnect db old =
     (let pptr = parent_of db (Some old); set_brother = (\<lambda>off n. n\<lparr>brother := off\<rparr>)
      in if child_of db pptr = Some old then link_past db old (the pptr) (\<lambda>off n. n\<lparr>child := off\<rparr>)
         else Option.bind (brother_before db (child_of db pptr) old)
           (\<lambda>nptr.
              if nptr \<noteq> None then link_past db old (the nptr) set_brother
              else if member_of db pptr = Some old then link_past db old (the pptr) (\<lambda>off n. n\<lparr>member := off\<rparr>)
              else Option.bind (brother_before db (member_of db pptr) old)
                (\<lambda>nptr.
                   if nptr \<noteq> None then link_past db old (the nptr) set_brother else Some (TreeINVTREE, db))))"

text \<open>\<open>memcpy\<close> of the name, and the blanks behind it.\<close>

definition rename :: "PINO_DATABASE \<Rightarrow> node_ptr \<Rightarrow> string \<Rightarrow> PINO_DATABASE option" where
  "rename db old nm =
     (if length nm > 12 then None
      else Some (set_node db old (\<lambda>n. n\<lparr>name := nm @ replicate (12 - length nm) CHR '' ''\<rparr>)))"

definition insert_old :: "PINO_DATABASE \<Rightarrow> node_ptr \<Rightarrow> node_ptr \<Rightarrow> bool \<Rightarrow> PINO_DATABASE option" where
  "insert_old db newnode old is_child =
     (let info = infos db ! fst old; hdr = header (tree_info db)
      in if fst newnode \<noteq> fst old then None
         else map_option (\<lambda>ns. set_info db (fst old) (info\<lparr>node := ns\<rparr>))
                (if is_child then TreeInsertChild (node info) (snd newnode) (snd old) (sort_children hdr)
                 else TreeInsertMember (node info) (snd newnode) (snd old) (sort_members hdr)))"

definition FixParentState :: "PINO_DATABASE \<Rightarrow> node_ptr \<Rightarrow> node_ptr \<Rightarrow> (status \<times> PINO_DATABASE) option" where
  "FixParentState db parent_ptr child_ptr =
     (let parent_state = STATUS_OK (TreeIsOn db (node_to_nid db parent_ptr))
      in case NciGET_FLAGS db (node_to_nid db child_ptr) of
           Inl status \<Rightarrow> Some (status, db)
         | Inr child_flags \<Rightarrow>
             if (child_flags AND NciM_PARENT_STATE = 0) \<noteq> parent_state
             then tree_set_parent_state db (Some child_ptr) (\<not> parent_state) else Some (TreeSUCCESS, db))"

definition move_node :: "PINO_DATABASE \<Rightarrow> node_ptr \<Rightarrow> node_ptr \<Rightarrow> string \<Rightarrow> bool \<Rightarrow> (status \<times> PINO_DATABASE) option" where
  "move_node db old newnode nm is_child =
     Option.bind (disconnect db old)
       (\<lambda>(status, db).
          if \<not> STATUS_OK status then Some (status, db)
          else Option.bind (rename db old nm)
            (\<lambda>db. Option.bind (insert_old db newnode old is_child)
              (\<lambda>db. map_option (\<lambda>(status, db). (status, db\<lparr>modified := modified db \<or> STATUS_OK status\<rparr>))
                       (FixParentState db newnode old))))"

definition TreeRenameNode :: "PINO_DATABASE \<Rightarrow> u32 \<Rightarrow> string \<Rightarrow> (status \<times> PINO_DATABASE) option" where
  "TreeRenameNode db nid newname =
     (if \<not> IS_OPEN_FOR_EDIT db then Some (TreeNOEDIT, db)
      else Option.bind (TreeFindNode db (map toupper newname))
        (\<lambda>(status, _).
           if STATUS_OK status then Some (TreeALREADY_THERE, db)
           else Option.bind (TreeFindParent db (map toupper newname))
             (\<lambda>(status, newnode, nm, is_child).
                if \<not> STATUS_OK status then Some (status, db)
                else Option.bind (is_above db newnode (nid_to_node db nid))
                  (\<lambda>above.
                     if above then Some (TreeINVPATH, db)
                     else case nid_to_node db nid of
                       None \<Rightarrow> None
                     | Some old \<Rightarrow>
                         if is_child \<and> usage (node_at db old) \<noteq> TreeUSAGE_STRUCTURE then Some (TreeINVPATH, db)
                         else move_node db old (the newnode) nm is_child))))"

section \<open>What is above a node\<close>

text \<open>The nodes under a node in an edited tree, as a set.\<close>

abbreviation under :: "(nat \<Rightarrow> nat list) \<Rightarrow> (nat \<Rightarrow> nat list) \<Rightarrow> nat \<Rightarrow> nat set" where
  "under C M \<equiv> \<lambda>q. set (C q) \<union> set (M q)"

lemma under_parent:
  assumes h: "hierarchy ns L C M" and "p \<in> L" "q \<in> L" "j \<in> under C M p" "j \<in> under C M q" shows "p = q"
proof -
  have "parent0 ns j = Some p" "parent0 ns j = Some q"
    using hierarchy_lists(5) [OF h assms(2,4)] hierarchy_lists(5) [OF h assms(3,5)] by simp_all
  then show ?thesis by simp
qed

lemma under_sub: "hierarchy ns L C M \<Longrightarrow> p \<in> L \<Longrightarrow> under C M p \<subseteq> L"
  using hierarchy_lists(2,4) [of ns L C M p] by simp

lemma reach_in:
  assumes "hierarchy ns L C M" "i \<in> L" shows "reach (under C M) {i} \<subseteq> L"
proof
  fix x assume "x \<in> reach (under C M) {i}"
  then show "x \<in> L" by induction (use assms under_sub in blast)+
qed

lemma reach_parent:
  assumes h: "hierarchy ns L C M" and i: "i \<in> L" "p \<in> L" "j \<in> under C M p"
  shows "j \<in> reach (under C M) {i} \<longleftrightarrow> j = i \<or> p \<in> reach (under C M) {i}"
proof
  assume "j \<in> reach (under C M) {i}"
  then show "j = i \<or> p \<in> reach (under C M) {i}"
  proof cases
    case (down q)
    have "q \<in> L" using reach_in [OF h i(1)] down(1) by blast
    then show ?thesis using under_parent [OF h _ i(2) down(3) i(3)] down(1) by blast
  qed simp
qed (use i(3) in \<open>auto intro: below.intros\<close>)

lemma is_above_main:
  assumes t: "path_tree db L C M" and i: "i \<in> L" and p: "p \<in> reach (under C M) {0}"
  shows "is_above db (Some (0, p)) (Some (0, i)) = Some (p \<in> reach (under C M) {i})"
  using p
proof induction
  case (start p)
  note d = path_treeD [OF t]
  have none: "parent_of db (Some (0, 0)) = None" using d(2,8) by (simp add: infos_def)
  have no: "0 \<notin> under C M q" if "q \<in> L" for q
    using hierarchy_lists(5) [OF d(3) that, of 0] d(8) by auto
  have "0 \<in> reach (under C M) {i} \<longleftrightarrow> i = 0"
  proof
    assume "0 \<in> reach (under C M) {i}"
    then show "i = 0"
    proof cases
      case (down q)
      then show ?thesis using no reach_in [OF d(3) i] by blast
    qed simp
  qed (auto intro: below.start)
  then show ?case using start none by (auto simp: is_above.simps)
next
  case (down p j)
  note d = path_treeD [OF t]
  have "p \<in> L" using reach_in [OF d(3,7)] down.hyps(1) by blast
  then have "parent_of db (Some (0, j)) = Some (0, p)"
    using path_tree_node(2) [OF t, of p j] down.hyps(3) by auto
  then show ?case
    using down.IH reach_parent [OF d(3) i \<open>p \<in> L\<close> down.hyps(3)]
    by (subst is_above.simps) (simp add: below.start)
qed


section \<open>Taking a node out and linking it again\<close>

context brother_list begin

lemma well_formedD:
  assumes "well_formed ns L C M" "q \<in> L"
  shows "linked (brother0 ns) (first0 ns q) (C q)" "set (C q) \<subseteq> L" "k \<in> set (C q) \<Longrightarrow> parent0 ns k = Some q"
    "linked (brother0 ns) (follow q (other (ns q))) (M q)" "set (M q) \<subseteq> L" "k \<in> set (M q) \<Longrightarrow> parent0 ns k = Some q"
    "set (C q) \<inter> set (M q) = {}" "valid_name (name (ns q))"
  using assms unfolding well_formed_def lists_def other_lists_def by blast+

lemma well_formed_apart:
  assumes "well_formed ns L C M" "p \<in> L" "q \<in> L" "p \<noteq> q"
  shows "set (C p) \<inter> set (C q) = {}" "set (C p) \<inter> set (M q) = {}"
proof -
  have "k \<notin> set (C q) \<and> k \<notin> set (M q)" if "k \<in> set (C p)" for k
    using well_formedD(3) [OF assms(1,2) that] well_formedD(3,6) [OF assms(1,3), of k] assms(4) by auto
  then show "set (C p) \<inter> set (C q) = {}" "set (C p) \<inter> set (M q) = {}" by blast+
qed

text \<open>
  A change of the links that leaves the parents of all nodes but one and the names of the nodes, and of the
  other lists the brothers.
\<close>

lemma well_formed_relink:
  assumes wf: "well_formed ns L C M" and p: "p \<in> L"
    and l: "linked (brother0 ns') (first0 ns' p) xs" "set xs \<subseteq> L" "set xs \<inter> set (M p) = {}" "\<forall>k\<in>set xs. parent0 ns' k = Some p"
    and fr: "\<And>j. other (ns' j) = other (ns j) \<and> name (ns' j) = name (ns j)"
      "\<And>j. j \<noteq> p \<Longrightarrow> first (ns' j) = first (ns j)"
    and new: "\<And>j. j \<noteq> new \<Longrightarrow> parent (ns' j) = parent (ns j)"
      "\<And>j. j \<noteq> new \<Longrightarrow> j \<notin> set (C p) \<Longrightarrow> brother (ns' j) = brother (ns j)"
    and apart: "\<And>q. q \<in> L \<Longrightarrow> q \<noteq> p \<Longrightarrow> new \<notin> set (C q)" "\<And>q. q \<in> L \<Longrightarrow> new \<notin> set (M q)"
  shows "well_formed ns' L (C(p := xs)) M"
proof -
  note c = well_formedD(1-3) [OF wf] and m = well_formedD(4-6) [OF wf] and s = well_formedD(7,8) [OF wf]
  have keep: "linked (brother0 ns') x ks" "\<forall>k\<in>set ks. parent0 ns' k = Some q"
    if "linked (brother0 ns) x ks" "new \<notin> set ks" "set ks \<inter> set (C p) = {}" "\<forall>k\<in>set ks. parent0 ns k = Some q" for x ks q
  proof -
    have b: "brother (ns' k) = brother (ns k)" "parent (ns' k) = parent (ns k)" if k: "k \<in> set ks" for k
    proof -
      have "k \<noteq> new" "k \<notin> set (C p)" using k \<open>new \<notin> set ks\<close> \<open>set ks \<inter> set (C p) = {}\<close> by blast+
      then show "brother (ns' k) = brother (ns k)" "parent (ns' k) = parent (ns k)" using new by blast+
    qed
    show "linked (brother0 ns') x ks" by (rule linked_still [OF that(1) b(1)])
    show "\<forall>k\<in>set ks. parent0 ns' k = Some q" using b(2) that(4) by simp
  qed
  have "lists ns' L (C(p := xs))"
    unfolding lists_def
  proof
    fix q assume q: "q \<in> L"
    show "linked (brother0 ns') (first0 ns' q) ((C(p := xs)) q) \<and>
      (\<forall>k\<in>set ((C(p := xs)) q). k \<in> L \<and> parent0 ns' k = Some q)"
    proof (cases "q = p")
      case True
      then show ?thesis using l by auto
    next
      case False
      then have "set (C q) \<inter> set (C p) = {}" using well_formed_apart(1) [OF wf q p] by blast
      then show ?thesis
        using keep [OF c(1) [OF q] apart(1) [OF q False], of q] c(2,3) [OF q] fr(2) [OF False] False by auto
    qed
  qed
  moreover have "other_lists ns' L M"
    unfolding other_lists_def
  proof
    fix q assume q: "q \<in> L"
    have "set (M q) \<inter> set (C p) = {}"
      using well_formed_apart(2) [OF wf p q] s(1) [OF q] by (cases "q = p") auto
    then show "linked (brother0 ns') (follow q (other (ns' q))) (M q) \<and> (\<forall>k\<in>set (M q). k \<in> L \<and> parent0 ns' k = Some q)"
      using keep [OF m(1) [OF q] apart(2) [OF q], of q] m(2,3) [OF q] fr(1) by auto
  qed
  moreover have "\<forall>q\<in>L. set ((C(p := xs)) q) \<inter> set (M q) = {} \<and> valid_name (name (ns' q))"
    using s fr(1) l(3) by simp
  ultimately show ?thesis by (simp add: well_formed_def)
qed

lemma well_formed_past:
  assumes wf: "well_formed ns L C M" and p: "p \<in> L" "C p = as @ i # bs" "p \<notin> set (C p)"
  shows "well_formed (past ns p i as) L (C(p := as @ bs)) M"
proof -
  have "linked (brother0 ns) (first0 ns p) (as @ i # bs)" using well_formedD(1) [OF wf p(1)] p(2) by simp
  note past = past_links [OF this p(3) [unfolded p(2)]]
  have c: "set (C p) \<subseteq> L" "\<forall>k\<in>set (C p). parent0 ns k = Some p" "set (C p) \<inter> set (M p) = {}"
    using well_formedD(2,3,7) [OF wf p(1)] by blast+
  have "i \<in> set (C p)" using p(2) by simp
  then have "i \<notin> set (C q)" if "q \<in> L" "q \<noteq> p" for q using well_formed_apart(1) [OF wf that(1) p(1) that(2)] by blast
  moreover have "i \<notin> set (M q)" if "q \<in> L" for q
    using well_formed_apart(2) [OF wf p(1) that] c(3) \<open>i \<in> set (C p)\<close> by (cases "q = p") auto
  ultimately show ?thesis
    using past c p(2)
    by (intro well_formed_relink [OF wf p(1) past(1), of i]) (auto simp: unlink_frame_def)
qed

lemma insert_existing:
  assumes wf: "well_formed ns L C M" and p: "p \<in> L" "new \<in> L" "new \<noteq> p"
    and none: "\<And>q. q \<in> L \<Longrightarrow> new \<notin> set (C q) \<and> new \<notin> set (M q)"
  shows "\<exists>ns'. insert_node ns p new s = Some ns' \<and> well_formed ns' L (C(p := inserted s ns new (C p))) M
    \<and> frame ns ns' p new (C p)"
proof -
  have c: "linked (brother0 ns) (first0 ns p) (C p)" "set (C p) \<subseteq> L" "\<forall>k\<in>set (C p). parent0 ns k = Some p"
      "set (C p) \<inter> set (M p) = {}"
    and names: "\<forall>q\<in>L. valid_name (name (ns q))"
    using well_formedD(1-3,7) [OF wf p(1)] well_formedD(8) [OF wf] by blast+
  obtain ns' where ins: "insert_node ns p new s = Some ns'"
    and l: "linked (brother0 ns') (first0 ns' p) (inserted s ns new (C p))" "parent0 ns' new = Some p"
    and fr: "frame ns ns' p new (C p)"
    using insert_node [OF c(1), of new s] none [OF p(1)] p(2,3) names c(2) by blast
  have "k \<noteq> new" if "k \<in> set (C p)" for k using that none [OF p(1)] by blast
  then have "\<forall>k\<in>set (inserted s ns new (C p)). parent0 ns' k = Some p"
    using l(2) c(3) fr by (auto simp: frame_def)
  then have "well_formed ns' L (C(p := inserted s ns new (C p))) M"
    using c p(1,2) none fr by (intro well_formed_relink [OF wf p(1) l(1), of new]) (auto simp: frame_def)
  then show ?thesis using ins fr by blast
qed

end


section \<open>The code on the main tree\<close>

abbreviation with_nodes :: "PINO_DATABASE \<Rightarrow> (nat \<Rightarrow> NODE) \<Rightarrow> PINO_DATABASE" where
  "with_nodes db ns \<equiv> db\<lparr>tree_info := (tree_info db)\<lparr>node := ns\<rparr>\<rparr>"

lemma set_node_main: "set_node db (0, k) f = with_nodes db ((node (tree_info db))(k := f (node (tree_info db) k)))"
  by (simp add: set_node_def set_info_def infos_def Let_def)

lemma brother_before_found:
  assumes "plain_tree db 0"
  shows "linked (brother0 (node (tree_info db))) x (as @ a # i # bs) \<Longrightarrow> i \<notin> set as \<Longrightarrow>
    brother_before db (map_option (Pair 0) x) (0, i) = Some (Some (0, a))"
proof (induction as arbitrary: x)
  case Nil
  then show ?case using assms by (subst brother_before.simps) (auto simp: infos_def)
next
  case (Cons c as)
  then obtain d where d: "x = Some c" "brother0 (node (tree_info db)) c = Some d"
      "linked (brother0 (node (tree_info db))) (Some d) (as @ a # i # bs)"
    by (cases as) auto
  have "distinct (c # as @ a # i # bs)" using linked_distinct [OF Cons.prems(1)] by simp
  then have "d \<noteq> i" using d(3) by (cases as) auto
  then have "brother_before db (Some (0, c)) (0, i) = brother_before db (Some (0, d)) (0, i)"
    using assms d(2) by (subst brother_before.simps) (simp add: infos_def)
  then show ?case using Cons.IH [OF d(3)] Cons.prems(2) d(1) by simp
qed

lemma brother_before_absent:
  assumes "plain_tree db 0"
  shows "linked (brother0 (node (tree_info db))) x xs \<Longrightarrow> i \<notin> set xs \<Longrightarrow>
    brother_before db (map_option (Pair 0) x) (0, i) = Some None"
proof (induction xs arbitrary: x)
  case Nil
  then show ?case by (simp add: brother_before.simps)
next
  case (Cons c xs)
  then have c: "x = Some c" "linked (brother0 (node (tree_info db))) (brother0 (node (tree_info db)) c) xs" by auto
  then have "brother0 (node (tree_info db)) c \<noteq> Some i" using Cons.prems(2) by (cases xs) auto
  then have "brother_before db (Some (0, c)) (0, i) = brother_before db (map_option (Pair 0) (brother0 (node (tree_info db)) c)) (0, i)"
    using assms by (subst brother_before.simps) (auto simp: infos_def)
  then show ?case using Cons.IH [OF c(2)] Cons.prems(2) c(1) by simp
qed

lemma link_past_main:
  assumes "plain_tree db 0" and "ns = node (tree_info db)"
  shows "link_past db (0, i) (0, k) set_link =
    Some (TreeSUCCESS, with_nodes db (ns(k := set_link (node_offset (brother0 ns i) (Some k)) (ns k))))"
proof -
  have "(if brother (node_at db (0, i)) \<noteq> 0 then ptr_offset (brother_of db (Some (0, i))) (0, k) else Some 0)
      = Some (node_offset (brother0 ns i) (Some k))"
  proof (cases "brother0 ns i")
    case (Some a)
    then have "brother (ns i) \<noteq> 0" by auto
    then show ?thesis using assms Some by (simp add: node_at_def infos_def ptr_offset_def)
  qed (use assms in \<open>simp add: node_at_def infos_def ptr_offset_def\<close>)
  then show ?thesis using assms(2) by (simp add: link_past_def set_node_main)
qed

lemma disconnect_main:
  assumes plain: "plain_tree db 0" and ns: "ns = node (tree_info db)" and h: "hierarchy ns L C M" and q: "q \<in> L"
  shows "C q = as @ i # bs \<Longrightarrow> disconnect db (0, i) = Some (TreeSUCCESS, with_nodes db (children.past ns q i as))"
    "M q = as @ i # bs \<Longrightarrow> disconnect db (0, i) = Some (TreeSUCCESS, with_nodes db (members.past ns q i as))"
proof -
  note l = hierarchy_lists [OF h q]
  have at: "infos db ! 0 = tree_info db" by (simp add: infos_def)
  have p: "parent_of db (Some (0, i)) = Some (0, q)" if "i \<in> set (C q) \<union> set (M q)"
    using l(5) [OF that] plain ns by (simp add: at)
  have c: "child_of db (Some (0, q)) = map_option (Pair 0) (child0 ns q)"
    and m: "member_of db (Some (0, q)) = map_option (Pair 0) (member0 ns q)"
    using plain ns by (simp_all add: at)
  note past = link_past_main [OF plain ns]
  show "disconnect db (0, i) = Some (TreeSUCCESS, with_nodes db (children.past ns q i as))" if i: "C q = as @ i # bs"
  proof -
    have lk: "linked (brother0 ns) (child0 ns q) (as @ i # bs)" using l(1) i by simp
    have pi: "parent_of db (Some (0, i)) = Some (0, q)" using p i by simp
    have i0: "i \<notin> set as" using linked_distinct [OF lk] by simp
    show ?thesis
    proof (cases as rule: rev_cases)
      case Nil
      then have "child0 ns q = Some i" using lk by simp
      then show ?thesis using Nil pi c past by (simp add: disconnect_def Let_def children.past_def)
    next
      case (snoc us a)
      have "child0 ns q \<noteq> Some i" using lk i0 snoc by (cases us) auto
      moreover have "brother_before db (map_option (Pair 0) (child0 ns q)) (0, i) = Some (Some (0, a))"
        using brother_before_found [OF plain, of "child0 ns q" us a i bs] lk snoc i0 ns by simp
      ultimately show ?thesis
        using snoc pi c past by (auto simp: disconnect_def Let_def children.past_def)
    qed
  qed
  show "disconnect db (0, i) = Some (TreeSUCCESS, with_nodes db (members.past ns q i as))" if i: "M q = as @ i # bs"
  proof -
    have lk: "linked (brother0 ns) (member0 ns q) (as @ i # bs)" using l(3) i by simp
    have pi: "parent_of db (Some (0, i)) = Some (0, q)" using p i by simp
    have i0: "i \<notin> set as" using linked_distinct [OF lk] by simp
    have "i \<notin> set (C q)" using h q i by (auto simp: hierarchy_def)
    then have no: "brother_before db (map_option (Pair 0) (child0 ns q)) (0, i) = Some None"
      using brother_before_absent [OF plain, of "child0 ns q" "C q" i] l(1) ns by simp
    have no': "child0 ns q \<noteq> Some i" using l(1) \<open>i \<notin> set (C q)\<close> by (cases "C q") auto
    show ?thesis
    proof (cases as rule: rev_cases)
      case Nil
      then have "member0 ns q = Some i" using lk by simp
      then show ?thesis using Nil pi c m no no' past by (auto simp: disconnect_def Let_def members.past_def)
    next
      case (snoc us a)
      have "member0 ns q \<noteq> Some i" using lk i0 snoc by (cases us) auto
      moreover have "brother_before db (map_option (Pair 0) (member0 ns q)) (0, i) = Some (Some (0, a))"
        using brother_before_found [OF plain, of "member0 ns q" us a i bs] lk snoc i0 ns by simp
      ultimately show ?thesis
        using snoc pi c m no no' past by (auto simp: disconnect_def Let_def members.past_def)
    qed
  qed
qed


section \<open>The hierarchy with the node at its new place\<close>

definition without :: "nat \<Rightarrow> (nat \<Rightarrow> nat list) \<Rightarrow> nat \<Rightarrow> nat list" where
  "without i K q = filter (\<lambda>j. j \<noteq> i) (K q)"

definition moved ::
    "bool \<Rightarrow> bool \<Rightarrow> (nat \<Rightarrow> NODE) \<Rightarrow> nat \<Rightarrow> nat \<Rightarrow> (nat \<Rightarrow> nat list) \<Rightarrow> nat \<Rightarrow> nat list" where
  "moved here s ns p i K = (if here then (without i K)(p := inserted s ns i (without i K p)) else without i K)"

lemma without_absent: "i \<notin> set (K q) \<Longrightarrow> without i K q = K q"
  by (auto simp: without_def filter_id_conv)

lemma without_split:
  assumes "distinct (as @ i # bs)" "K q = as @ i # bs" shows "without i K q = as @ bs"
proof -
  have "filter (\<lambda>j. j \<noteq> i) as = as" "filter (\<lambda>j. j \<noteq> i) bs = bs" using assms(1) by (auto simp: filter_id_conv)
  then show ?thesis using assms(2) by (simp add: without_def)
qed

lemma set_without: "set (without i K q) = set (K q) - {i}"
  by (auto simp: without_def)

lemma under_moved:
  "under (moved b s1 ns p i C) (moved (\<not> b) s2 ns p i M) q = (if q = p then insert i (under C M q) else under C M q - {i})"
  by (cases b) (auto simp: moved_def set_without)

lemma hierarchy_cong:
  assumes "\<And>q. q \<in> L \<Longrightarrow> C q = C' q \<and> M q = M' q" shows "hierarchy ns L C M \<longleftrightarrow> hierarchy ns L C' M'"
  unfolding hierarchy_def children.lists_def members.lists_def using assms by simp

lemma hierarchy_name:
  assumes "hierarchy ns L C M" "valid_name t" shows "hierarchy (ns(i := (ns i)\<lparr>name := t\<rparr>)) L C M"
proof -
  let ?ns = "ns(i := (ns i)\<lparr>name := t\<rparr>)"
  have eqs: "\<And>j. child0 ?ns j = child0 ns j" "\<And>j. member0 ?ns j = member0 ns j" "\<And>j. parent0 ?ns j = parent0 ns j"
    "brother0 ?ns = brother0 ns" by (auto intro!: ext)
  have "valid_name (name (ns j)) \<Longrightarrow> valid_name (name (?ns j))" for j using assms(2) by simp
  then show ?thesis using assms(1) unfolding hierarchy_def children.lists_def members.lists_def eqs by blast
qed

lemma taken_out:
  assumes plain: "plain_tree db 0" and ns: "ns = node (tree_info db)" and h: "hierarchy ns L C M"
    and q: "q \<in> L" "i \<in> under C M q" "q \<notin> under C M q"
  shows "\<exists>ns'. disconnect db (0, i) = Some (TreeSUCCESS, with_nodes db ns') \<and> hierarchy ns' L (without i C) (without i M)
    \<and> (\<forall>j. name (ns' j) = name (ns j) \<and> usage (ns' j) = usage (ns j) \<and> tag_link (ns' j) = tag_link (ns j)
        \<and> parent (ns' j) = parent (ns j) \<and> (j \<noteq> q \<longrightarrow> child (ns' j) = child (ns j)))"
proof -
  have one: "i \<notin> under C M r" if "r \<in> L" "r \<noteq> q" for r using under_parent [OF h that(1) q(1) _ q(2)] that(2) by blast
  have apart: "set (C q) \<inter> set (M q) = {}" using h q(1) by (simp add: hierarchy_def)
  have other: "without i K r = K r" if "K \<in> {C, M}" "r \<in> L" "r \<noteq> q" for K r
    using one [OF that(2,3)] that(1) by (auto intro: without_absent)
  show ?thesis
  proof (cases "i \<in> set (C q)")
    case True
    then obtain as bs where i: "C q = as @ i # bs" using split_list [OF True] by blast
    have l: "linked (brother0 ns) (child0 ns q) (as @ i # bs)" using hierarchy_lists(1) [OF h q(1)] i by simp
    have w: "without i C q = as @ bs" "without i M q = M q"
      using without_split [OF linked_distinct [OF l]] i apart True by (auto intro: without_absent)
    have "hierarchy (children.past ns q i as) L (C(q := as @ bs)) M"
      using children.well_formed_past [OF h [unfolded hierarchy_children] q(1), of as i bs] i q(3)
      unfolding hierarchy_children by simp
    then have "hierarchy (children.past ns q i as) L (without i C) (without i M)"
      using hierarchy_cong [of L "C(q := as @ bs)" "without i C" M "without i M"] w other by auto
    moreover have "children.unlink_frame ns (children.past ns q i as) q as"
      using children.past_links(2) [of ns q as i bs] l i q(3) by simp
    ultimately show ?thesis
      using disconnect_main(1) [where C = C, OF plain ns h q(1) i] by (auto simp: children.unlink_frame_def)
  next
    case False
    then have im: "i \<in> set (M q)" using q(2) by blast
    then obtain as bs where i: "M q = as @ i # bs" using split_list [OF im] by blast
    have l: "linked (brother0 ns) (member0 ns q) (as @ i # bs)" using hierarchy_lists(3) [OF h q(1)] i by simp
    have w: "without i M q = as @ bs" "without i C q = C q"
      using without_split [OF linked_distinct [OF l]] i False by (auto intro: without_absent)
    have "hierarchy (members.past ns q i as) L C (M(q := as @ bs))"
      using members.well_formed_past [OF h [unfolded hierarchy_members] q(1), of as i bs] i q(3)
      unfolding hierarchy_members by simp
    then have "hierarchy (members.past ns q i as) L (without i C) (without i M)"
      using hierarchy_cong [of L C "without i C" "M(q := as @ bs)" "without i M"] w other by auto
    moreover have "members.unlink_frame ns (members.past ns q i as) q as"
      using members.past_links(2) [of ns q as i bs] l i q(3) by simp
    ultimately show ?thesis
      using disconnect_main(2) [where M = M, OF plain ns h q(1) i] by (auto simp: members.unlink_frame_def)
  qed
qed

lemma insert_old_main:
  assumes h: "hierarchy ns L C M" and p: "p \<in> L" "i \<in> L" "i \<noteq> p" and ns: "ns = node (tree_info db)"
    and none: "\<And>q. q \<in> L \<Longrightarrow> i \<notin> under C M q"
  shows "\<exists>ns'. insert_old db (0, p) (0, i) here = Some (with_nodes db ns')
    \<and> hierarchy ns' L (if here then C(p := inserted (sort_children (header (tree_info db))) ns i (C p)) else C)
        (if here then M else M(p := inserted (sort_members (header (tree_info db))) ns i (M p)))
    \<and> (\<forall>j. name (ns' j) = name (ns j) \<and> usage (ns' j) = usage (ns j) \<and> tag_link (ns' j) = tag_link (ns j)
        \<and> (j \<noteq> i \<longrightarrow> parent (ns' j) = parent (ns j)) \<and> (j \<noteq> p \<longrightarrow> child (ns' j) = child (ns j)))"
proof -
  have run: "insert_old db (0, p) (0, i) here = map_option (with_nodes db)
      (if here then TreeInsertChild ns p i (sort_children (header (tree_info db)))
       else TreeInsertMember ns p i (sort_members (header (tree_info db))))"
    using ns by (simp add: insert_old_def Let_def infos_def set_info_def)
  show ?thesis
  proof (cases here)
    case True
    obtain ns' where r: "TreeInsertChild ns p i (sort_children (header (tree_info db))) = Some ns'"
      and w: "children.well_formed ns' L (C(p := inserted (sort_children (header (tree_info db))) ns i (C p))) M"
      and fr: "children.frame ns ns' p i (C p)"
      using children.insert_existing [OF h [unfolded hierarchy_children] p] none unfolding TreeInsertChild_def by blast
    have "tag_link (ns' j) = tag_link (ns j)" for j
      using children.insert_node_tag_link r unfolding TreeInsertChild_def by blast
    then show ?thesis
      using True run r w fr unfolding hierarchy_children by (intro exI [of _ ns']) (simp add: children.frame_def)
  next
    case False
    obtain ns' where r: "TreeInsertMember ns p i (sort_members (header (tree_info db))) = Some ns'"
      and w: "members.well_formed ns' L (M(p := inserted (sort_members (header (tree_info db))) ns i (M p))) C"
      and fr: "members.frame ns ns' p i (M p)"
      using members.insert_existing [OF h [unfolded hierarchy_members] p] none unfolding TreeInsertMember_def by blast
    have "tag_link (ns' j) = tag_link (ns j)" for j
      using members.insert_node_tag_link r unfolding TreeInsertMember_def by blast
    then show ?thesis
      using False run r w fr unfolding hierarchy_members by (intro exI [of _ ns']) (simp add: members.frame_def)
  qed
qed


text \<open>The steps of a move together: what is left as it was, and the hierarchy.\<close>

definition move_frame :: "(nat \<Rightarrow> NODE) \<Rightarrow> (nat \<Rightarrow> NODE) \<Rightarrow> nat \<Rightarrow> nat set \<Rightarrow> bool" where
  "move_frame ns ns' i L \<longleftrightarrow>
     (\<forall>j. usage (ns' j) = usage (ns j) \<and> tag_link (ns' j) = tag_link (ns j)
        \<and> (j \<noteq> i \<longrightarrow> name (ns' j) = name (ns j) \<and> parent (ns' j) = parent (ns j))
        \<and> (j \<notin> L \<longrightarrow> child (ns' j) = child (ns j)))"

lemma not_under_itself: "edit_tree db L C M xs \<Longrightarrow> q \<in> L \<Longrightarrow> q \<notin> under C M q"
  using edit_treeD(11) [of db L C M xs] by (fastforce simp: ranked_def)

lemma moved_links:
  assumes e: "edit_tree db L C M xs" and ns: "ns = node (tree_info db)"
    and q: "q \<in> L" "i \<in> under C M q" and p: "p \<in> L" "p \<noteq> i" and nm: "path_name nm"
  shows "\<exists>ns1 ns2 ns3. disconnect db (0, i) = Some (TreeSUCCESS, with_nodes db ns1)
    \<and> rename (with_nodes db ns1) (0, i) nm = Some (with_nodes db ns2)
    \<and> insert_old (with_nodes db ns2) (0, p) (0, i) here = Some (with_nodes db ns3)
    \<and> hierarchy ns3 L (moved here (sort_children (header (tree_info db))) ns3 p i C)
        (moved (\<not> here) (sort_members (header (tree_info db))) ns3 p i M)
    \<and> name (ns3 i) = node_text nm \<and> move_frame ns ns3 i L"
proof -
  note d = path_treeD [OF edit_treeD(1) [OF e]]
  have i: "i \<in> L" using under_sub [OF d(3) q(1)] q(2) by blast
  obtain ns1 where r1: "disconnect db (0, i) = Some (TreeSUCCESS, with_nodes db ns1)"
    and h1: "hierarchy ns1 L (without i C) (without i M)"
    and f1: "\<And>j. name (ns1 j) = name (ns j) \<and> usage (ns1 j) = usage (ns j) \<and> tag_link (ns1 j) = tag_link (ns j)
        \<and> parent (ns1 j) = parent (ns j) \<and> (j \<noteq> q \<longrightarrow> child (ns1 j) = child (ns j))"
    using taken_out [OF d(2) ns d(3) [folded ns] q not_under_itself [OF e q(1)]] by blast
  let ?ns2 = "ns1(i := (ns1 i)\<lparr>name := node_text nm\<rparr>)"
  have len: "length nm \<le> 12" using nm by (simp add: path_name_def)
  then have r2: "rename (with_nodes db ns1) (0, i) nm = Some (with_nodes db ?ns2)"
    by (simp add: rename_def set_node_main node_text_def)
  have h2: "hierarchy ?ns2 L (without i C) (without i M)"
    by (rule hierarchy_name [OF h1 node_text_name(1) [OF nm]])
  have "?ns2 = node (tree_info (with_nodes db ?ns2))" "\<And>r. r \<in> L \<Longrightarrow> i \<notin> under (without i C) (without i M) r"
    by (simp_all add: set_without)
  from insert_old_main [OF h2 p(1) i p(2) [symmetric] this, of here] obtain ns3 where
    r: "insert_old (with_nodes db ?ns2) (0, p) (0, i) here = Some (with_nodes (with_nodes db ?ns2) ns3)"
      "hierarchy ns3 L
        (if here then (without i C)(p := inserted (sort_children (header (tree_info (with_nodes db ?ns2)))) ?ns2 i (without i C p)) else without i C)
        (if here then without i M else (without i M)(p := inserted (sort_members (header (tree_info (with_nodes db ?ns2)))) ?ns2 i (without i M p)))"
    and f3: "\<And>j. name (ns3 j) = name (?ns2 j) \<and> usage (ns3 j) = usage (?ns2 j) \<and> tag_link (ns3 j) = tag_link (?ns2 j)
        \<and> (j \<noteq> i \<longrightarrow> parent (ns3 j) = parent (?ns2 j)) \<and> (j \<noteq> p \<longrightarrow> child (ns3 j) = child (?ns2 j))"
    by blast
  have r3: "insert_old (with_nodes db ?ns2) (0, p) (0, i) here = Some (with_nodes db ns3)" using r(1) by simp
  have h3: "hierarchy ns3 L
      (if here then (without i C)(p := inserted (sort_children (header (tree_info db))) ?ns2 i (without i C p)) else without i C)
      (if here then without i M else (without i M)(p := inserted (sort_members (header (tree_info db))) ?ns2 i (without i M p)))"
    using r(2) by (cases here) (simp_all del: fun_upd_apply)
  have "(\<lambda>j. name (ns3 j)) = (\<lambda>j. name (?ns2 j))" using f3 by (intro ext) simp
  then have ins: "inserted s ?ns2 i ks = inserted s ns3 i ks" for s ks by (simp only: inserted_def)
  have "hierarchy ns3 L (moved here (sort_children (header (tree_info db))) ns3 p i C)
      (moved (\<not> here) (sort_members (header (tree_info db))) ns3 p i M)"
    using h3 unfolding ins by (cases here) (simp_all add: moved_def)
  moreover have "name (ns3 i) = node_text nm" using f3 [of i] by simp
  moreover have "move_frame ns ns3 i L"
    unfolding move_frame_def
  proof
    fix j
    have "j \<notin> L \<Longrightarrow> j \<noteq> p \<and> j \<noteq> q \<and> j \<noteq> i" using p(1) q(1) i by blast
    then show "usage (ns3 j) = usage (ns j) \<and> tag_link (ns3 j) = tag_link (ns j)
        \<and> (j \<noteq> i \<longrightarrow> name (ns3 j) = name (ns j) \<and> parent (ns3 j) = parent (ns j))
        \<and> (j \<notin> L \<longrightarrow> child (ns3 j) = child (ns j))"
      using f1 [of j] f3 [of j] by (cases "j = i") auto
  qed
  ultimately show ?thesis using r1 r2 r3 by blast
qed

lemma moved_path_tree:
  assumes e: "edit_tree db L C M xs" and ns: "ns = node (tree_info db)" and i: "i \<in> L" "i \<noteq> 0" and p: "p \<in> L"
    and h: "hierarchy ns' L (moved b s1 ns' p i C) (moved (\<not> b) s2 ns' p i M)" and f: "move_frame ns ns' i L"
    and n: "name (ns' i) = node_text nm"
    and nm: "path_name nm" "map toupper nm = nm" "nm \<notin> node_name ns ` set (M p @ C p)"
  shows "path_tree (with_nodes db ns') L (moved b s1 ns' p i C) (moved (\<not> b) s2 ns' p i M)"
    "node_name ns' i = nm" "\<And>j. j \<noteq> i \<Longrightarrow> node_name ns' j = node_name ns j" "free_list ((tree_info db)\<lparr>node := ns'\<rparr>) xs"
proof -
  note ed = edit_treeD [OF e]
  note d = path_treeD [OF ed(1)]
  show new: "node_name ns' i = nm" using n node_text_name(2) [OF nm(1)] by (simp add: node_name_def)
  show old: "node_name ns' j = node_name ns j" if "j \<noteq> i" for j using f that by (simp add: move_frame_def node_name_def)
  have map: "map (node_name ns') (without i M r @ without i C r) = map (node_name ns) (without i M r @ without i C r)" for r
    by (rule map_cong [OF refl]) (auto simp: without_def old)
  have dist: "distinct (map (node_name ns) (without i M r @ without i C r))" if "r \<in> L" for r
  proof -
    have "distinct (map (node_name ns) (M r @ C r))" using d(4) that ns by (simp add: unique_names_def)
    then have "distinct (map (node_name ns) (filter (\<lambda>j. j \<noteq> i) (M r @ C r)))" by (rule distinct_map_filter)
    then show ?thesis by (simp add: without_def)
  qed
  have "distinct (map (node_name ns') (moved (\<not> b) s2 ns' p i M r @ moved b s1 ns' p i C r))" if r: "r \<in> L" for r
  proof (cases "r = p")
    case True
    have "nm \<notin> set (map (node_name ns) (without i M p @ without i C p))" using nm(3) by (auto simp: set_without)
    then have "nm \<notin> set (map (node_name ns') (without i M p @ without i C p))"
      "distinct (map (node_name ns') (without i M p @ without i C p))" unfolding map using dist [OF p] by blast+
    then have "distinct (map (node_name ns') (i # without i M p @ without i C p))" using new by simp
    then show ?thesis
      using True by (cases b) (simp_all only: moved_def fun_upd_same simp_thms if_True if_False distinct_inserted_append)
  next
    case False
    have "distinct (map (node_name ns') (without i M r @ without i C r))" unfolding map by (rule dist [OF r])
    then show ?thesis using False by (cases b) (simp_all only: moved_def fun_upd_other simp_thms if_True if_False)
  qed
  then have uniq: "unique_names ns' L (\<lambda>r. moved (\<not> b) s2 ns' p i M r @ moved b s1 ns' p i C r)" by (simp add: unique_names_def)
  have "upper_word 12 (node_name ns' j)" if "j \<in> L" for j
    using d(5) that new old [of j] nm(1,2) ns by (cases "j = i") (auto simp: tidy_def upper_word_def tag_word_def path_name_def)
  then have tidy: "tidy ((tree_info db)\<lparr>node := ns'\<rparr>) L" using d(5) by (simp add: tidy_def)
  have tags: "tags_ok ((tree_info db)\<lparr>node := ns'\<rparr>)"
    by (rule tags_ok_cong(1) [OF d(6)]) (use f ns in \<open>simp_all add: move_frame_def\<close>)
  have "plain_tree (with_nodes db ns') 0"
    using d(2) f ns by (simp add: plain_tree_def infos_def plain_usage_def move_frame_def)
  moreover have "parent (ns' 0) = 0" using d(8) f i(2) ns by (simp add: move_frame_def)
  ultimately show "path_tree (with_nodes db ns') L (moved b s1 ns' p i C) (moved (\<not> b) s2 ns' p i M)"
    using d(1,7,9-11) h uniq tidy tags by (auto simp: path_tree_def)
  have "child (ns' j) = child (ns j) \<and> parent (ns' j) = parent (ns j)" if "j \<in> set xs" for j
    using f that ed(7) i(1) by (auto simp: move_frame_def)
  then have "dll ns' None xs None = dll ns None xs None" by (intro dll_cong) simp
  then show "free_list ((tree_info db)\<lparr>node := ns'\<rparr>) xs" using ed(6) ns by (simp add: free_list_def)
qed


section \<open>The order of the tree and the states after a move\<close>

text \<open>The node \<open>i\<close> at its new place, seen as sets.\<close>

definition hung :: "(nat \<Rightarrow> nat set) \<Rightarrow> nat \<Rightarrow> nat \<Rightarrow> nat \<Rightarrow> nat set" where
  "hung S p i q = (if q = p then insert i (S q) else S q - {i})"

lemma hung_ranked:
  assumes r: "ranked L S r" and L: "\<And>q. q \<in> L \<Longrightarrow> S q \<subseteq> L" "i \<in> L"
    and par: "\<And>q j. q \<in> L \<Longrightarrow> j \<in> S q \<Longrightarrow> j \<in> reach S {i} \<longleftrightarrow> j = i \<or> q \<in> reach S {i}"
    and p: "p \<notin> reach S {i}"
  shows "\<exists>r. ranked L (hung S p i) r"
proof -
  let ?r = "\<lambda>j. if j \<in> reach S {i} then r j else r j + r i + 1"
  have top: "i \<in> reach S {i}" by (rule below.start) simp
  have "?r j < ?r q" if q: "q \<in> L" "j \<in> hung S p i q" for q j
  proof (cases "j = i")
    case True
    then have "q = p" using q(2) by (auto simp: hung_def split: if_splits)
    then show ?thesis using True p top by simp
  next
    case False
    then have j: "j \<in> S q" using q(2) by (auto simp: hung_def split: if_splits)
    then have "r j < r q" using r q(1) by (simp add: ranked_def)
    then show ?thesis using par [OF q(1) j] False by simp
  qed
  then have "ranked L (hung S p i) ?r" by (simp add: ranked_def)
  then show ?thesis by blast
qed

lemma hung_reach:
  assumes L: "\<And>q. q \<in> L \<Longrightarrow> S q \<subseteq> L" "0 \<in> L" "i \<in> L"
    and par: "\<And>q j. q \<in> L \<Longrightarrow> j \<in> S q \<Longrightarrow> j \<in> reach S {i} \<longleftrightarrow> j = i \<or> q \<in> reach S {i}"
    and p: "p \<in> reach S {0}" "p \<notin> reach S {i}" and j: "j \<in> reach S {0}"
  shows "j \<in> reach (hung S p i) {0}"
proof -
  have inL: "x \<in> L" if "x \<in> reach S {k}" "k \<in> L" for x k
    using that by (induction rule: below.induct) (use L(1) in auto)
  have outside: "x \<in> reach S {0} \<Longrightarrow> x \<notin> reach S {i} \<Longrightarrow> x \<in> reach (hung S p i) {0}" for x
  proof (induction rule: below.induct)
    case (down q x)
    have q: "q \<notin> reach S {i}" "x \<noteq> i"
      using down.prems par [OF inL [OF down.hyps(1) L(2)] down.hyps(3)] by auto
    then have "x \<in> hung S p i q" using down.hyps(3) by (auto simp: hung_def)
    then show ?case using down.IH [OF q(1)] below.down by fastforce
  qed (simp add: below.start)
  have "i \<in> hung S p i p" by (simp add: hung_def)
  then have i: "i \<in> reach (hung S p i) {0}" using outside [OF p] below.down by fastforce
  have inside: "x \<in> reach S {i} \<Longrightarrow> x \<in> reach (hung S p i) {0}" for x
  proof (induction rule: below.induct)
    case (down q x)
    show ?case
    proof (cases "x = i")
      case False
      then have "x \<in> hung S p i q" using down.hyps(3) by (auto simp: hung_def)
      then show ?thesis using down.IH below.down by fastforce
    qed (use i in simp)
  qed (use i in simp)
  show ?thesis using inside outside j by (cases "j \<in> reach S {i}") blast+
qed

lemma states_ok_hung:
  assumes ok: "states_ok info L S" and r: "ranked L (hung S p i) r" and L: "\<forall>q\<in>L. hung S p i q \<subseteq> L" "p \<in> L"
    and uniq: "\<forall>q\<in>L. \<forall>s\<in>L. hung S p i q \<inter> hung S p i s \<noteq> {} \<longrightarrow> q = s"
    and J: "i \<in> J" "J \<subseteq> hung S p i p" and b: "b \<longleftrightarrow> off info p \<or> parent_off info p"
    and set: "flags_set L b (if parent_off info i = b then {} else below (off info) (hung S p i) J) info info'"
  shows "states_ok info' L (hung S p i)"
  unfolding states_ok_def
proof (intro ballI)
  fix q k assume q: "q \<in> L" "k \<in> hung S p i q"
  let ?S = "hung S p i" and ?D = "if parent_off info i = b then {} else below (off info) (hung S p i) J"
  have kL: "k \<in> L" using q L(1) by blast
  have new: "parent_off info' x = (if x \<in> ?D then b else parent_off info x)" "off info' x = off info x" if "x \<in> L" for x
    using set that by (auto simp: flags_set_def off_bit)
  have rank: "x \<in> L \<and> r x < r p" if "x \<in> below (off info) ?S J" for x
    using that
  proof induction
    case (start x)
    then show ?case using J(2) L r by (auto simp: ranked_def)
  next
    case (down y x)
    then show ?case using L(1) r unfolding ranked_def by fastforce
  qed
  have pD: "p \<notin> ?D" using rank by auto
  show "parent_off info' k \<longleftrightarrow> off info' q \<or> parent_off info' q"
  proof (cases "q = p")
    case True
    have "parent_off info' k \<longleftrightarrow> b"
    proof (cases "k = i")
      case True
      then show ?thesis using new [OF kL] J(1) by (auto intro: below.start)
    next
      case False
      then have "k \<in> S p" using q(2) \<open>q = p\<close> by (simp add: hung_def)
      then have "parent_off info k \<longleftrightarrow> b" using ok L(2) b by (simp add: states_ok_def)
      then show ?thesis using new [OF kL] by simp
    qed
    then show ?thesis using True new [OF L(2)] pD b by simp
  next
    case False
    then have k: "k \<in> S q" using q(2) by (simp add: hung_def)
    have old: "parent_off info k \<longleftrightarrow> off info q \<or> parent_off info q" using ok q(1) k by (simp add: states_ok_def)
    have "k \<in> below (off info) ?S J \<longleftrightarrow> q \<in> below (off info) ?S J \<and> \<not> off info q"
    proof
      assume "k \<in> below (off info) ?S J"
      then show "q \<in> below (off info) ?S J \<and> \<not> off info q"
      proof cases
        case start
        then have "k \<in> ?S p" using J(2) by blast
        then show ?thesis using uniq q L(2) False by blast
      next
        case (down s)
        then have "s \<in> L" using rank by blast
        then have "s = q" using uniq q down(3) by blast
        then show ?thesis using down by blast
      qed
    qed (use q(2) in \<open>auto intro: below.down\<close>)
    then show ?thesis using new [OF kL] new [OF q(1)] old by auto
  qed
qed


section \<open>Passing the state on\<close>

text \<open>What writing the characteristics keeps readable, also outside of the tree.\<close>

definition reads :: "PINO_DATABASE \<Rightarrow> PINO_DATABASE \<Rightarrow> bool" where
  "reads db db' \<longleftrightarrow> length (infos db') = length (infos db)
     \<and> (\<forall>t<length (infos db). (edit (infos db ! t) \<noteq> None \<longrightarrow> edit (infos db' ! t) \<noteq> None)
          \<and> (\<forall>j. readable (infos db ! t) j \<longrightarrow> readable (infos db' ! t) j))"

lemma reads_refl [simp]: "reads db db"
  by (simp add: reads_def)

lemma reads_trans: "reads a b \<Longrightarrow> reads b c \<Longrightarrow> reads a c"
  by (simp add: reads_def)

lemma reads_set_node: "reads db (snd (set_node_parent_state db p b))"
proof (cases "find_tree (infos db) 0 p")
  case None
  then show ?thesis by (simp add: set_node_parent_state_def)
next
  case (Some t)
  have len: "u < s + length xs" if "find_tree xs s p = Some u" for xs u s
    using that by (induction xs arbitrary: s) (fastforce split: if_splits)+
  then have t: "t < length (infos db)" using Some by fastforce
  have put: "edit info \<noteq> None \<Longrightarrow> edit (tree_put_nci info i n) \<noteq> None" for info i n
    by (simp add: tree_put_nci_def Let_def)
  have "reads db (set_info db t (tree_put_nci (infos db ! t) i n))" for i n
    unfolding reads_def infos_set_info [OF t] nth_list_update [OF t] using put readable_put by auto
  then show ?thesis using Some by (auto simp: set_node_parent_state_def Let_def split: sum.splits)
qed

lemma reads_set_parent_states:
  assumes "set_parent_states db n b st = Some r" shows "reads db (snd r)"
proof (rule set_parent_states.raw_induct [OF _ assms, where P = "\<lambda>db n b st r. reads db (snd r)"], goal_cases)
  case (1 f db n b st r)
  note IH = 1(1)
  show ?case
  proof (cases "n = None \<or> \<not> STATUS_OK st")
    case True
    then have "r = (st, db)" using 1(2) by auto
    then show ?thesis by simp
  next
    case False
    have part: "reads c (snd x)" if "(if Q then f c m b TreeSUCCESS else Some (s, c)) = Some x" for Q c m s x
      using that 1(1) by (cases Q) auto
    have part': "reads (snd y) (snd x)" if "(if Q then f (snd y) m b TreeSUCCESS else Some y) = Some x" for Q y m x
      using that 1(1) by (cases Q) auto
    show ?thesis
      using 1(2) unfolding Let_def bind_eq_Some_conv if_not_P [OF False]
    proof (elim exE conjE, goal_cases)
      case (1 x y)
      show ?case
        by (rule reads_trans [OF reads_set_node reads_trans [OF part [OF 1(1)] reads_trans [OF part' [OF 1(2)] IH [OF 1(3)]]]])
    qed
  qed
qed


text \<open>The loop of \<open>tree_set_parent_state\<close> goes on to the brothers behind the node, which have the state already.\<close>

lemma brothers_behind:
  assumes h: "hierarchy ns L C M" and p: "p \<in> L" "i \<in> under C M p"
  shows "\<exists>js. i \<in> set js \<and> set js \<subseteq> under C M p \<and> linked (brother0 ns) (Some i) js"
proof -
  note l = hierarchy_lists [OF h p(1)]
  have from_list: "\<exists>js. i \<in> set js \<and> set js \<subseteq> set ks \<and> linked (brother0 ns) (Some i) js"
    if lk: "linked (brother0 ns) x ks" and i: "i \<in> set ks" for x ks
  proof -
    obtain as bs where ks: "ks = as @ i # bs" using split_list [OF i] by blast
    then obtain y where "linked (brother0 ns) y (i # bs)" using linked_append lk by blast
    then have "linked (brother0 ns) (Some i) (i # bs)" by simp
    then show ?thesis using ks by (intro exI [of _ "i # bs"]) auto
  qed
  show ?thesis
  proof (cases "i \<in> set (C p)")
    case True
    then show ?thesis using from_list [OF l(1)] by blast
  next
    case False
    then have "i \<in> set (M p)" using p(2) by blast
    then show ?thesis using from_list [OF l(3)] by blast
  qed
qed

lemma FixParentState_ok:
  assumes t: "path_tree db L C M" and r: "ranked L (under C M) r" and p: "p \<in> L" "i \<in> under C M p"
    and info: "info = tree_info db" and rd: "\<And>j. readable info j" and e: "edit info \<noteq> None"
    and b: "b \<longleftrightarrow> off info p \<or> parent_off info p"
  shows "\<exists>J info'. FixParentState db (0, p) (0, i) = Some (TreeSUCCESS, db\<lparr>tree_info := info'\<rparr>)
    \<and> i \<in> J \<and> J \<subseteq> under C M p
    \<and> flags_set L b (if parent_off info i = b then {} else below (off info) (under C M) J) info info'
    \<and> (\<forall>j. readable info' j) \<and> edit info' \<noteq> None"
proof -
  note d = path_treeD [OF t]
  have i: "i \<in> L" using under_sub [OF d(3) p(1)] p(2) by blast
  have nid: "node_to_nid db (0, j) = make_nid 0 j" if "j \<in> L" for j
    using main_tree_nid [of 0 db j] d(10) [OF that] d(11) by (simp add: infos_def)
  have on: "STATUS_OK (TreeIsOn db (make_nid 0 p)) \<longleftrightarrow> \<not> b"
    using TreeIsOn_main [OF t p(1)] rd b info by simp
  have fl: "NciGET_FLAGS db (make_nid 0 i) = Inr (flags_at info i)"
    using NciGET_FLAGS_main [OF t i] rd info by simp
  have run: "FixParentState db (0, p) (0, i) =
      (if parent_off info i = b then Some (TreeSUCCESS, db) else tree_set_parent_state db (Some (0, i)) b)"
    using nid [OF p(1)] nid [OF i] on fl by (auto simp: FixParentState_def parent_off_def)
  obtain js where js: "i \<in> set js" "set js \<subseteq> under C M p" "linked (brother0 (node info)) (Some i) js"
    using brothers_behind [OF d(3) p] info by blast
  show ?thesis
  proof (cases "parent_off info i = b")
    case True
    then have "FixParentState db (0, p) (0, i) = Some (TreeSUCCESS, db\<lparr>tree_info := info\<rparr>)" using run info by simp
    moreover have "flags_set L b {} info info" using rd by (simp add: flags_set_refl)
    ultimately show ?thesis using True js rd e by (intro exI [of _ "set js"] exI [of _ info]) simp
  next
    case False
    have len: "0 < length (infos db)" "infos db ! 0 = info" using info by (simp_all add: infos_def)
    have ranks: "\<forall>l\<in>set js. r l < Suc (Max (insert 0 (r ` set js)))" by (auto simp: less_Suc_eq_le intro!: Max_ge)
    have sub: "set js \<subseteq> L" using under_sub [OF d(3) p(1)] js(2) by blast
    have hdr: "\<forall>l\<in>L. l \<le> nodes (header info)" using d(10) info by (simp add: less_imp_le)
    have plain: "\<forall>l. plain_usage (node info l)" using d(2) info by (simp add: plain_tree_def infos_def)
    obtain info' where s: "set_parent_states (set_info db 0 info) (map_option (Pair 0) (Some i)) b TreeSUCCESS =
        Some (TreeSUCCESS, set_info db 0 info')" and f: "flags_set L b (below (off info) (under C M) (set js)) info info'"
      using set_parent_states_ok [where is_off = "off info" and b = b and x = "Some i" and info = info and hdr = "header info",
          OF d(3) refl r _ len(1) _ ranks sub] js(3) hdr plain info rd
      by auto
    have "set_info db 0 info = db" using info by (simp add: set_info_def)
    then have run': "tree_set_parent_state db (Some (0, i)) b = Some (TreeSUCCESS, db\<lparr>tree_info := info'\<rparr>)"
      using s by (simp add: tree_set_parent_state_def set_info_def)
    then have "reads db (db\<lparr>tree_info := info'\<rparr>)"
      using reads_set_parent_states unfolding tree_set_parent_state_def by fastforce
    then have "\<forall>j. readable info' j" "edit info' \<noteq> None"
      using rd e info by (auto simp: reads_def infos_def dest: spec [of _ 0])
    then show ?thesis using False run run' js f by (intro exI [of _ "set js"] exI [of _ info']) simp
  qed
qed


section \<open>The invariant after a move\<close>

lemma under_hung:
  "under (moved b s1 ns p i C) (moved (\<not> b) s2 ns p i M) = hung (under C M) p i"
  by (rule ext) (simp only: under_moved hung_def)

lemma get_with_nodes [simp]:
  "tree_get_and_lock_nci (info\<lparr>node := ns\<rparr>) = tree_get_and_lock_nci info"
  by (rule ext) (simp add: tree_get_and_lock_nci_def in_file_def)

lemma flags_with_nodes [simp]:
  "readable (info\<lparr>node := ns\<rparr>) = readable info" "off (info\<lparr>node := ns\<rparr>) = off info"
  "parent_off (info\<lparr>node := ns\<rparr>) = parent_off info" "states_ok (info\<lparr>node := ns\<rparr>) = states_ok info"
proof -
  show r: "readable (info\<lparr>node := ns\<rparr>) = readable info" "off (info\<lparr>node := ns\<rparr>) = off info"
    "parent_off (info\<lparr>node := ns\<rparr>) = parent_off info"
    by (rule ext, simp add: readable_def off_def parent_off_def flags_at_def)+
  show "states_ok (info\<lparr>node := ns\<rparr>) = states_ok info" by (intro ext) (simp add: states_ok_def r)
qed

lemma fixed_edit_tree:
  assumes e: "edit_tree db L C M xs" and i: "i \<in> L" "i \<noteq> 0" and p: "p \<in> L" "p \<notin> reach (under C M) {i}"
    and t: "path_tree (with_nodes db ns) L C' M'" and h: "under C' M' = hung (under C M) p i"
    and fl: "free_list ((tree_info db)\<lparr>node := ns\<rparr>) xs"
  shows "\<exists>info. FixParentState (with_nodes db ns) (0, p) (0, i) = Some (TreeSUCCESS, db\<lparr>tree_info := info\<rparr>)
    \<and> edit_tree (db\<lparr>tree_info := info\<rparr>) L C' M' xs \<and> node info = ns \<and> header info = header (tree_info db)"
proof -
  note ed = edit_treeD [OF e]
  note d = path_treeD [OF ed(1)] and d' = path_treeD [OF t]
  let ?S = "under C M" and ?info = "(tree_info db)\<lparr>node := ns\<rparr>"
  obtain r0 where r0: "ranked L ?S r0" using ed(11) by blast
  obtain r where r: "ranked L (hung ?S p i) r"
    using hung_ranked [where S = ?S, OF r0 under_sub [OF d(3)] i(1) reach_parent [OF d(3) i(1)] p(2)] by blast
  have b: "(off (tree_info db) p \<or> parent_off (tree_info db) p) \<longleftrightarrow> off ?info p \<or> parent_off ?info p" by simp
  have hq: "under C' M' u = hung ?S p i u" for u using fun_cong [OF h, of u] .
  have ip: "i \<in> under C' M' p" unfolding hq by (simp add: hung_def)
  define on where "on \<longleftrightarrow> off ?info p \<or> parent_off ?info p"
  obtain J info where run: "FixParentState (with_nodes db ns) (0, p) (0, i) = Some (TreeSUCCESS, (with_nodes db ns)\<lparr>tree_info := info\<rparr>)"
    and J: "i \<in> J" "J \<subseteq> hung ?S p i p"
    and f: "flags_set L on (if parent_off ?info i = on then {} else below (off ?info) (hung ?S p i) J) ?info info"
    and rd: "\<forall>j. readable info j" "edit info \<noteq> None"
    using FixParentState_ok [OF t r [folded h] p(1) ip _ _ _ on_def] ed(3,9) unfolding h hq by auto
  have st: "same_tree ?info info" using f by (simp add: flags_set_def)
  note eq = same_treeD [OF st]
  have ok: "states_ok info L (hung ?S p i)"
  proof (rule states_ok_hung [OF _ r _ p(1) _ J on_def f])
    show "states_ok ?info L ?S" using ed(10) by simp
    show "\<forall>q\<in>L. hung ?S p i q \<subseteq> L" using under_sub [OF d'(3)] unfolding hq by blast
    show "\<forall>q\<in>L. \<forall>s\<in>L. hung ?S p i q \<inter> hung ?S p i s \<noteq> {} \<longrightarrow> q = s"
      using under_parent [OF d'(3)] unfolding hq [symmetric] by blast
  qed
  have "path_tree (db\<lparr>tree_info := info\<rparr>) L C' M'" using path_tree_same [OF t, of info] st by simp
  moreover have "free_list info xs"
    using fl eq(1,2) by (simp add: free_list_def)
  moreover have "fst (default_node db) = 0" using ed(4) by (metis fst_conv)
  ultimately have "edit_tree (db\<lparr>tree_info := info\<rparr>) L C' M' xs"
    using ed(2,5,7,8) ok rd r eq unfolding edit_tree_def Let_def h by (auto simp: IS_OPEN_FOR_EDIT_def)
  then show ?thesis using run eq(1,2) by auto
qed

lemma move_node_ok:
  assumes e: "edit_tree db L C M xs" and ns: "ns = node (tree_info db)" and hdr: "hdr = header (tree_info db)"
    and q: "q \<in> L" "i \<in> under C M q" and p: "p \<in> L" "p \<notin> reach (under C M) {i}"
    and nm: "path_name nm" "map toupper nm = nm" "nm \<notin> node_name ns ` set (M p @ C p)"
  shows "\<exists>db'. move_node db (0, i) (0, p) nm here = Some (TreeSUCCESS, db') \<and> modified db' \<and> default_node db' = default_node db
    \<and> edit_tree db' L (moved here (sort_children hdr) (node (tree_info db')) p i C)
        (moved (\<not> here) (sort_members hdr) (node (tree_info db')) p i M) xs
    \<and> node_name (node (tree_info db')) i = nm
    \<and> (\<forall>j. j \<noteq> i \<longrightarrow> node_name (node (tree_info db')) j = node_name ns j)"
proof -
  note ed = edit_treeD [OF e]
  note d = path_treeD [OF ed(1)]
  have i: "i \<in> L" "i \<noteq> 0"
    using under_sub [OF d(3) q(1)] q path_tree_node(8) [OF ed(1) q(1), of i] by auto
  have pi: "p \<noteq> i" using p(2) by (auto intro: below.start)
  from moved_links [OF e ns q p(1) pi nm(1), of here] obtain ns1 ns2 ns3 where
    r: "disconnect db (0, i) = Some (TreeSUCCESS, with_nodes db ns1)"
      "rename (with_nodes db ns1) (0, i) nm = Some (with_nodes db ns2)"
      "insert_old (with_nodes db ns2) (0, p) (0, i) here = Some (with_nodes db ns3)"
    and h: "hierarchy ns3 L (moved here (sort_children hdr) ns3 p i C) (moved (\<not> here) (sort_members hdr) ns3 p i M)"
    and n: "name (ns3 i) = node_text nm" and f: "move_frame ns ns3 i L"
    unfolding hdr by blast
  note m = moved_path_tree [OF e ns i p(1) h f n nm]
  obtain info where x: "FixParentState (with_nodes db ns3) (0, p) (0, i) = Some (TreeSUCCESS, db\<lparr>tree_info := info\<rparr>)"
    "edit_tree (db\<lparr>tree_info := info\<rparr>) L (moved here (sort_children hdr) ns3 p i C) (moved (\<not> here) (sort_members hdr) ns3 p i M) xs"
    "node info = ns3"
    using fixed_edit_tree [OF e i p m(1) under_hung m(4)] by blast
  have "move_node db (0, i) (0, p) nm here = Some (TreeSUCCESS, db\<lparr>tree_info := info, modified := True\<rparr>)"
    using r x(1) by (simp add: move_node_def)
  then show ?thesis
    using x(2,3) m(2,3) by (intro exI [of _ "db\<lparr>tree_info := info, modified := True\<rparr>"]) simp
qed


section \<open>The new path\<close>

text \<open>A path that does not end below the moved node does not pass it.\<close>

lemma paths_moved:
  assumes keep: "\<And>q. set (S q) - {i} \<subseteq> set (S' q)" "\<And>j. j \<noteq> i \<Longrightarrow> nm' j = nm j" and U: "\<And>q. set (S q) = U q"
  shows "j \<in> set (paths S nm ts d) \<Longrightarrow> j \<notin> reach U {i} \<Longrightarrow> j \<in> set (paths S' nm' ts d)"
proof (induction ts arbitrary: j rule: rev_induct)
  case (snoc t ts)
  then obtain q where q: "q \<in> set (paths S nm ts d)" "j \<in> set (S q)" "nm j = t" unfolding paths_snoc by blast
  have "j \<noteq> i" using snoc.prems(2) by (auto intro: below.start)
  moreover have "q \<notin> reach U {i}" using snoc.prems(2) q(2) U by (auto intro: below.down)
  ultimately show ?case unfolding paths_snoc using snoc.IH [OF q(1)] q(2,3) keep by blast
qed simp

lemma find_moved_node:
  assumes e: "edit_tree db L C M xs" and e': "edit_tree db' L C' M' xs" and ok: "path_ok (ps @ [(c, nm)])"
    and dn: "default_node db' = default_node db"
    and p: "p \<in> set (paths (\<lambda>i. M i @ C i) (node_name (node (tree_info db))) (path_names ps) (snd (default_node db)))"
      "p \<notin> reach (under C M) {i}"
    and C': "C' = moved b s1 ns p i C" and M': "M' = moved (\<not> b) s2 ns p i M"
    and names: "node_name (node (tree_info db')) i = map toupper nm"
      "\<And>j. j \<noteq> i \<Longrightarrow> node_name (node (tree_info db')) j = node_name (node (tree_info db)) j"
  shows "TreeFindNode db' (path_text (ps @ [(c, nm)])) = Some (TreeSUCCESS, Some (make_nid 0 i))"
proof -
  let ?nm' = "node_name (node (tree_info db'))" and ?d = "snd (default_node db)"
  note ed' = edit_treeD [OF e']
  note t' = path_treeD [OF ed'(1)]
  have S': "set (M' q @ C' q) = hung (under C M) p i q" for q
    using under_moved [of b s1 ns p i C q s2 M] by (simp add: C' M' hung_def Un_commute)
  have "p \<in> set (paths (\<lambda>j. M' j @ C' j) ?nm' (path_names ps) ?d)"
  proof (rule paths_moved [OF _ names(2) _ p])
    show "set (M q @ C q) - {i} \<subseteq> set (M' q @ C' q)" for q unfolding S' by (auto simp: hung_def)
  qed auto
  moreover have "i \<in> set (M' p @ C' p)" unfolding S' by (simp add: hung_def)
  ultimately have "i \<in> set (paths (\<lambda>j. M' j @ C' j) ?nm' (path_names ps @ [map toupper nm]) ?d)"
    unfolding paths_snoc using names(1) by blast
  then have "paths (\<lambda>j. M' j @ C' j) ?nm' (path_names ps @ [map toupper nm]) ?d = [i]"
    using paths_unique [OF t'(3,4) ed'(5), of "path_names ps @ [map toupper nm]"] unfolding dn by auto
  then show ?thesis using find_path [OF e' ok] dn by simp
qed

text \<open>
  C3: \<open>_TreeRenameNode\<close> ends and moves a node to the path it is given. Without a parent at the path the status is
  \<open>TreeNNF\<close>, when there is a node at the path already it is \<open>TreeALREADY_THERE\<close>, and it is \<open>TreeINVPATH\<close> when the parent is
  the node itself or below it or when a node that is no structure would become a child, all without a change.
  Otherwise the node, with all that is below it, becomes a child or a member of the parent, all invariants of
  the tree hold again, those of the states included, every node still hangs under the top, and the path,
  which led nowhere, leads to the node.
\<close>

theorem TreeRenameNode_moves:
  assumes "edit_tree db L C M xs" and "S = (\<lambda>q. set (C q) \<union> set (M q))" and "L \<subseteq> reach S {0}" and "i \<in> L"
    and "path_ok (ps @ [(c, nm)])" and "info = tree_info db"
    and "parents = paths (\<lambda>i. M i @ C i) (node_name (node info)) (path_names ps) (snd (default_node db))"
    and "result = TreeRenameNode db (make_nid 0 i) (path_text (ps @ [(c, nm)]))"
  shows "case parents of
      [] \<Rightarrow> result = Some (TreeNNF, db)
    | p # _ \<Rightarrow>
        if map toupper nm \<in> node_name (node info) ` set (M p @ C p) then result = Some (TreeALREADY_THERE, db)
        else if p \<in> reach S {i} \<or> c = ''.'' \<and> usage (node info i) \<noteq> TreeUSAGE_STRUCTURE
        then result = Some (TreeINVPATH, db)
        else \<exists>C' M' db'. result = Some (TreeSUCCESS, db') \<and> modified db'
          \<and> C' = moved (c = ''.'') (sort_children (header info)) (node (tree_info db')) p i C
          \<and> M' = moved (c \<noteq> ''.'') (sort_members (header info)) (node (tree_info db')) p i M
          \<and> edit_tree db' L C' M' xs \<and> L \<subseteq> reach (\<lambda>q. set (C' q) \<union> set (M' q)) {0}
          \<and> node_name (node (tree_info db')) i = map toupper nm
          \<and> TreeFindNode db' (path_text (ps @ [(c, nm)])) = Some (TreeSUCCESS, Some (make_nid 0 i))"
proof -
  let ?path = "path_text (ps @ [(c, nm)])" and ?NM = "map toupper nm"
  note e = assms(1) and S = assms(2) and i = assms(4) and ok = assms(5)
  note d = edit_treeD [OF e]
  note t = path_treeD [OF d(1)]
  have NM: "path_name ?NM" "map toupper ?NM = ?NM"
    using path_ok_last(1) [OF ok] path_name_upper name_upper_twice by blast+
  have parent: "TreeFindParent db (map toupper ?path) = Some (case parents of
      [] \<Rightarrow> (TreeNNF, None, ?NM, c = ''.'') | p # _ \<Rightarrow> (TreeSUCCESS, Some (0, p), ?NM, c = ''.''))"
    using find_parent [OF e ok] assms(6,7) by simp
  have nid: "nid_to_node db (make_nid 0 i) = Some (0, i)"
    using main_tree_nid [of 0 db i] t(10) [OF i] t(11) by (simp add: infos_def)
  have at: "node_at db (0, i) = node info i" using assms(6) by (simp add: node_at_def infos_def)
  note run = assms(8) TreeRenameNode_def d(2) parent nid at
  show ?thesis
  proof (cases parents)
    case Nil
    then have "TreeFindNode db (map toupper ?path) = Some (TreeNNF, None)" using find_below [OF e ok _ assms(7)] assms(6) by simp
    then show ?thesis using run Nil by simp
  next
    case (Cons p rest)
    then have par: "parents = [p]" and p: "p \<in> L"
      using paths_unique [OF t(3,4) d(5), of "path_names ps"] assms(6,7) by auto
    have found: "\<exists>nid. TreeFindNode db (map toupper ?path) =
        Some (if ?NM \<in> node_name (node info) ` set (M p @ C p) then (TreeSUCCESS, nid) else (TreeNNF, None))"
      using find_below [OF e ok _ assms(7)] Cons assms(6) by simp
    show ?thesis
    proof (cases "?NM \<in> node_name (node info) ` set (M p @ C p)")
      case True
      then show ?thesis using run found Cons by auto
    next
      case new: False
      then have there: "TreeFindNode db (map toupper ?path) = Some (TreeNNF, None)" using found by auto
      have above: "is_above db (Some (0, p)) (Some (0, i)) = Some (p \<in> reach S {i})"
        using is_above_main [OF d(1) i, of p] assms(3) p unfolding S by blast
      show ?thesis
      proof (cases "p \<in> reach S {i} \<or> c = ''.'' \<and> usage (node info i) \<noteq> TreeUSAGE_STRUCTURE")
        case True
        then show ?thesis using run there Cons new above by auto
      next
        case False
        have "i \<in> reach S {0}" using assms(3) i by blast
        then obtain q where q: "q \<in> L" "i \<in> under C M q"
        proof cases
          case start
          then show thesis using False assms(3) p by auto
        next
          case (down q)
          then show thesis using that reach_in [OF t(3,7)] unfolding S by blast
        qed
        have out: "p \<notin> reach (under C M) {i}" using False S by simp
        obtain db' where m: "move_node db (0, i) (0, p) ?NM (c = ''.'') = Some (TreeSUCCESS, db')" "modified db'"
          "default_node db' = default_node db"
          and e': "edit_tree db' L (moved (c = ''.'') (sort_children (header info)) (node (tree_info db')) p i C)
            (moved (c \<noteq> ''.'') (sort_members (header info)) (node (tree_info db')) p i M) xs"
          and names: "node_name (node (tree_info db')) i = ?NM"
            "\<And>j. j \<noteq> i \<Longrightarrow> node_name (node (tree_info db')) j = node_name (node info) j"
          using move_node_ok [OF e assms(6) [THEN arg_cong, of node] assms(6) [THEN arg_cong, of header] q p out NM new] by blast
        have res: "result = Some (TreeSUCCESS, db')" using run there Cons above False m(1) by auto
        have find: "TreeFindNode db' ?path = Some (TreeSUCCESS, Some (make_nid 0 i))"
          by (rule find_moved_node [OF e e' ok m(3) _ out refl refl names(1)]) (use names(2) par assms(6,7) in simp_all)
        have "L \<subseteq> reach (under (moved (c = ''.'') (sort_children (header info)) (node (tree_info db')) p i C)
            (moved (c \<noteq> ''.'') (sort_members (header info)) (node (tree_info db')) p i M)) {0}"
          unfolding under_hung
          using hung_reach [where S = "under C M", OF under_sub [OF t(3)] t(7) i reach_parent [OF t(3) i] _ out] assms(3) p S
          by blast
        then have "\<exists>C' M' db'. result = Some (TreeSUCCESS, db') \<and> modified db'
          \<and> C' = moved (c = ''.'') (sort_children (header info)) (node (tree_info db')) p i C
          \<and> M' = moved (c \<noteq> ''.'') (sort_members (header info)) (node (tree_info db')) p i M
          \<and> edit_tree db' L C' M' xs \<and> L \<subseteq> reach (under C' M') {0}
          \<and> node_name (node (tree_info db')) i = ?NM \<and> TreeFindNode db' ?path = Some (TreeSUCCESS, Some (make_nid 0 i))"
          using res find e' names(1) m(2) by blast
        then show ?thesis unfolding Cons list.case if_not_P [OF new] if_not_P [OF False] .
      qed
    qed
  qed
qed


lemma TreeRenameNode_moves_witness:
  "\<exists>db'. TreeRenameNode (edit_slot full_tree) (make_nid 0 1) '':x'' = Some (TreeSUCCESS, db')
     \<and> TreeFindNode db' '':x'' = Some (TreeSUCCESS, Some (make_nid 0 1))"
proof -
  let ?db = "edit_slot full_tree"
  have info: "tree_info ?db = full_tree" "node full_tree = two_nodes" "snd (default_node ?db) = 0"
    by (simp_all add: edit_slot_def full_tree_def switches_def zero_info_def)
  have ok: "path_ok ([] @ [('':'', ''x'')])"
    by (simp add: path_name_def name_char_def alphaplus_def letter_def digit_def code_def)
  have up: "map toupper ''x'' = ''X''" by code_simp
  have path: "path_text ([] @ [('':'', ''x'')]) = '':x''" by (simp add: path_text_def)
  have "1 \<in> reach one_child {0}" by (rule below.down [of 0]) (auto intro: below.start)
  then have sub: "{0, 1} \<subseteq> reach one_child {0}" by (auto intro: below.start)
  have "x = 1" if "x \<in> reach one_child {1}" for x using that by induction auto
  then have "0 \<notin> reach one_child {1}" by auto
  then show ?thesis
    using TreeRenameNode_moves [OF full_edit_tree refl sub _ ok refl refl refl, of 1] small_names(1)
    unfolding path info up by auto
qed

end
