(* ===== verification/Descriptor.thy ===== *)
theory Descriptor
  imports TreeNci "HOL-Library.Monad_Syntax"
begin

text \<open>
  Descriptors, the data of all of MDSplus (\<open>mdsdescrip.h\<close>): copying (\<open>MdsXdRoutines.c\<close>) and comparison
  (\<open>MdsCompareXd.c\<close>).

  A descriptor is a tree here: a pointer to a descriptor is the descriptor, a null pointer is \<open>NULL\<close>, a
  pointer to data is the list of the bytes, whose number is the length (of a string, of a record) or the size
  (of an array) in the head. Where the pointers of a copy point to is not modelled. A pointer \<open>a0\<close> into an array
  is its distance from the start of the data. A length that is filled in for the copy is also filled in in the
  original, which is not modelled. A result is \<open>None\<close> where the code divides by zero, reads or
  writes outside of a descriptor, or computes with addresses that a value does not determine.
\<close>

section \<open>Descriptors\<close>

definition DTYPE_TXT :: u8 where "DTYPE_TXT = 14"
definition DTYPE_DSC :: u8 where "DTYPE_DSC = 24"

text \<open>
  The head of an array: \<open>a_length\<close> is the length of an element, \<open>mults\<close> has the multipliers, if \<open>coeff\<close> is set, and
  behind them the lower and upper bounds, if \<open>bounds\<close> is set.
\<close>

record array_head =
  a_length :: u16
  a_dtype :: u8
  scale :: u8
  digits :: u8
  binscale :: bool
  redim :: bool
  column :: bool
  coeff :: bool
  bounds :: bool
  dimct :: u8
  arsize :: u32
  a0 :: "64 word"
  mults :: "u32 list"

text \<open>
  The classes. \<open>DSC_S\<close> is \<open>CLASS_D\<close> instead of \<open>CLASS_S\<close> when its first argument is true, \<open>DSC_XS\<close> likewise
  \<open>CLASS_XD\<close>; the list of \<open>DSC_APD\<close> is the whole array of pointers; \<open>DSC_DSC\<close> is a descriptor of the
  type \<open>DTYPE_DSC\<close>, of any class but \<open>CLASS_APD\<close>, that points to a descriptor; \<open>DSC_other\<close> has a class that no routine knows.
\<close>

datatype descr =
    NULL
  | DSC_S bool u8 "u8 list"
  | DSC_XS bool u16 u8 "u8 list"
  | DSC_R u8 "u8 list" "descr list"
  | DSC_A array_head "u8 list"
  | DSC_NCA array_head "u8 list"
  | DSC_APD array_head "descr list"
  | DSC_CA array_head descr
  | DSC_DSC descr
  | DSC_other

section \<open>Copying\<close>

definition MdsFixDscLength :: "u8 \<Rightarrow> u16 \<Rightarrow> u16" where
  "MdsFixDscLength dtype len =
     (if dtype = 6 \<or> dtype = 2 then 1
      else if dtype = 7 \<or> dtype = 3 then 2
      else if dtype = 8 \<or> dtype = 4 \<or> dtype = 10 \<or> dtype = 52 then 4
      else if dtype = 11 \<or> dtype = 27 \<or> dtype = 53 \<or> dtype = 9 \<or> dtype = 5 then 8
      else if dtype = 26 \<or> dtype = 25 then 16
      else len)"

definition FixLength :: "u8 \<Rightarrow> u16 \<Rightarrow> u16" where
  "FixLength dtype len = (if len = 0 then MdsFixDscLength dtype len else len)"

definition compression_threshold :: nat where "compression_threshold = 128"

text \<open>
  The array of a non-contiguous array. Its descriptor is copied without its last four bytes, the last upper
  bound, where the copy of the data begins.
\<close>

definition FixedArray :: "array_head \<Rightarrow> array_head option" where
  "FixedArray a =
     (let n = unat (dimct a); bound = (\<lambda>i. mults a ! (n + i))
      in if length (mults a) < 3 * n \<or> n = 0 \<or> 0 \<in> set (take (n - 1) (mults a)) then None
         else Some (a\<lparr>column := True, coeff := True, bounds := True,
                      mults := map (\<lambda>i. mults a ! (i + 1) div mults a ! i) [0..<n - 1]
                        @ [bound (2 * n - 1) - bound (2 * n - 2) + 1] @ take (2 * n) (drop n (mults a))\<rparr>))"

definition copy_nca :: "array_head \<Rightarrow> u8 list \<Rightarrow> (array_head \<times> u8 list) option" where
  "copy_nca a data = do {
     a \<leftarrow> FixedArray a;
     if length data < 4 then None
     else Some (a\<lparr>mults := butlast (mults a) @ [le_word (take 4 data)]\<rparr>, data)
   }"

definition num_dsc :: "array_head \<Rightarrow> nat option" where
  "num_dsc a = (if a_length a = 0 then None else Some (unat (arsize a) div unat (a_length a)))"

text \<open>
  The status, the copy and whether there is a large array. An \<open>a0\<close> of an array of pointers is copied as it is,
  so its distance from the data is not determined; a copy of extended data that is not empty is written behind
  the end of the descriptor.
\<close>

fun copy_dx :: "descr \<Rightarrow> (status \<times> descr \<times> bool) option"
and copy_all :: "descr list \<Rightarrow> (status \<times> descr list \<times> bool) option" where
  "copy_dx NULL = Some (MDSplusSUCCESS, NULL, False)"
| "copy_dx (DSC_DSC d) = copy_dx d"
| "copy_dx (DSC_S dyn dtype data) =
     (if dtype = DTYPE_DSC then None else Some (MDSplusSUCCESS, DSC_S False dtype data, False))"
| "copy_dx (DSC_XS dyn len dtype data) =
     (if dtype = DTYPE_DSC \<or> data \<noteq> [] then None else Some (MDSplusSUCCESS, DSC_XS False len dtype [], False))"
| "copy_dx (DSC_R dtype data ds) =
     (if dtype = DTYPE_DSC then None
      else do {
        (status, copies, compressible) \<leftarrow> copy_all ds;
        Some (status, DSC_R dtype data copies, compressible)
      })"
| "copy_dx (DSC_NCA a data) =
     (if a_dtype a = DTYPE_DSC then None
      else do {
        (a, data) \<leftarrow> copy_nca a data;
        Some (MDSplusSUCCESS, DSC_A a data, length data > compression_threshold)
      })"
| "copy_dx (DSC_A a data) =
     (if a_dtype a = DTYPE_DSC then None
      else Some (MDSplusSUCCESS, DSC_A (a\<lparr>a_length := FixLength (a_dtype a) (a_length a)\<rparr>) data,
                 length data > compression_threshold))"
| "copy_dx (DSC_APD a ds) =
     (case num_dsc a of
        None \<Rightarrow> None
      | Some n \<Rightarrow>
          if n \<noteq> length ds \<or> coeff a then None
          else do {
            (status, copies, compressible) \<leftarrow> copy_all ds;
            Some (status, DSC_APD a copies, compressible)
          })"
| "copy_dx (DSC_CA a d) =
     (if a_dtype a = DTYPE_DSC then None
      else do {
        (status, copy, compressible) \<leftarrow> copy_dx d;
        if d \<noteq> NULL \<and> copy = NULL then None else Some (status, DSC_CA a copy, compressible)
      })"
| "copy_dx DSC_other = Some (LibINVSTRDES, DSC_other, False)"
| "copy_all [] = Some (MDSplusSUCCESS, [], False)"
| "copy_all (d # ds) = do {
     (status, copy, compressible) \<leftarrow> copy_dx d;
     if STATUS_OK status then do {
       (status, copies, compressible') \<leftarrow> copy_all ds;
       Some (status, copy # copies, compressible \<or> compressible')
     } else Some (status, [copy], compressible)
   }"

text \<open>Without the conversion of nodes and paths. The copy is what the output points to.\<close>

definition MdsCopyDxXd :: "descr \<Rightarrow> (status \<times> descr) option" where
  "MdsCopyDxXd d = do {
     (status, copy, compressible) \<leftarrow> copy_dx d;
     if STATUS_OK status \<and> copy \<noteq> NULL then Some (if compressible then MdsCOMPRESSIBLE else status, copy)
     else Some (status, NULL)
   }"

section \<open>Comparison\<close>

definition dtype_of :: "descr \<Rightarrow> u8" where
  "dtype_of d =
     (case d of
        DSC_S dyn dtype data \<Rightarrow> dtype
      | DSC_XS dyn len dtype data \<Rightarrow> dtype
      | DSC_R dtype data ds \<Rightarrow> dtype
      | DSC_A a data \<Rightarrow> a_dtype a
      | DSC_NCA a data \<Rightarrow> a_dtype a
      | DSC_APD a ds \<Rightarrow> a_dtype a
      | DSC_CA a d \<Rightarrow> a_dtype a
      | DSC_DSC d \<Rightarrow> DTYPE_DSC
      | _ \<Rightarrow> 0)"

fun strip :: "descr \<Rightarrow> descr option" where
  "strip (DSC_DSC d) = strip d"
| "strip d = (if dtype_of d = DTYPE_DSC then None else Some d)"

definition same_head :: "array_head \<Rightarrow> array_head \<Rightarrow> bool" where
  "same_head a b \<longleftrightarrow> a_dtype a = a_dtype b \<and> a_length a = a_length b \<and> arsize a = arsize b \<and> scale a = scale b
     \<and> digits a = digits b \<and> dimct a = dimct b \<and> binscale a = binscale b \<and> redim a = redim b \<and> column a = column b
     \<and> coeff a = coeff b \<and> bounds a = bounds b"

definition same_mults :: "array_head \<Rightarrow> array_head \<Rightarrow> bool" where
  "same_mults a b \<longleftrightarrow>
     (let n = unat (dimct a)
      in coeff a \<longrightarrow> a0 a = a0 b \<and> take n (mults a) = take n (mults b)
           \<and> (bounds a \<longrightarrow> take (2 * n) (drop n (mults a)) = take (2 * n) (drop n (mults b))))"

text \<open>
  A compressed array with multipliers compares the distances of addresses from offsets. The loop over an array
  of pointers does not count, and takes the pointers for the descriptors.
\<close>

definition same_leaf :: "descr \<Rightarrow> descr \<Rightarrow> bool option" where
  "same_leaf d e =
     (case (d, e) of
        (NULL, NULL) \<Rightarrow> Some True
      | (DSC_S dyn dtype data, DSC_S dyn' dtype' data') \<Rightarrow> Some (dtype = dtype' \<and> data = data')
      | (DSC_XS dyn len dtype data, DSC_XS dyn' len' dtype' data') \<Rightarrow> Some (dtype = dtype' \<and> data = data')
      | (DSC_A a data, DSC_A b data') \<Rightarrow> Some (same_head a b \<and> same_mults a b \<and> data = data')
      | (DSC_APD a ds, DSC_APD b ds') \<Rightarrow>
          if same_head a b \<and> same_mults a b
          then (case num_dsc a of Some 0 \<Rightarrow> Some True | _ \<Rightarrow> None) else Some False
      | _ \<Rightarrow> Some False)"

fun MdsCompareXd :: "descr \<Rightarrow> descr \<Rightarrow> bool option"
and compare_all :: "descr list \<Rightarrow> descr list \<Rightarrow> bool option" where
  "MdsCompareXd (DSC_DSC d) e = MdsCompareXd d e"
| "MdsCompareXd (DSC_R dtype data ds) e =
     (if dtype = DTYPE_DSC then None
      else do {
        e \<leftarrow> strip e;
        case e of
          DSC_R dtype' data' ds' \<Rightarrow>
            if dtype = dtype' \<and> length ds = length ds' \<and> data = data' then compare_all ds ds' else Some False
        | _ \<Rightarrow> Some False
      })"
| "MdsCompareXd (DSC_CA a d) e =
     (if a_dtype a = DTYPE_DSC then None
      else do {
        e \<leftarrow> strip e;
        case e of
          DSC_CA b d' \<Rightarrow>
            if \<not> same_head a b then Some False else if coeff a then None else MdsCompareXd d d'
        | _ \<Rightarrow> Some False
      })"
| "MdsCompareXd d e = do { d \<leftarrow> strip d; e \<leftarrow> strip e; same_leaf d e }"
| "compare_all (d # ds) (e # es) = do {
     isequal \<leftarrow> MdsCompareXd d e;
     if isequal then compare_all ds es else Some False
   }"
| "compare_all _ _ = Some True"

section \<open>The copy of a descriptor\<close>

text \<open>
  Descriptors the copy is meant for: each pointer points to something of a known class, and an array has the
  size its head says. Non-contiguous arrays, extended data and arrays of pointers with multipliers, which the
  code copies wrongly, are left out.
\<close>

fun pointee :: "descr \<Rightarrow> descr" where
  "pointee (DSC_DSC d) = pointee d"
| "pointee d = d"

fun proper :: "descr \<Rightarrow> bool" where
  "proper NULL = True"
| "proper (DSC_S dyn dtype data) = (dtype \<noteq> DTYPE_DSC)"
| "proper (DSC_XS dyn len dtype data) = (dtype \<noteq> DTYPE_DSC \<and> data = [])"
| "proper (DSC_R dtype data ds) = (dtype \<noteq> DTYPE_DSC \<and> list_all proper ds)"
| "proper (DSC_A a data) = (a_dtype a \<noteq> DTYPE_DSC \<and> unat (arsize a) = length data)"
| "proper (DSC_NCA a data) = False"
| "proper (DSC_APD a ds) = (num_dsc a = Some (length ds) \<and> \<not> coeff a \<and> list_all proper ds)"
| "proper (DSC_CA a d) = (a_dtype a \<noteq> DTYPE_DSC \<and> proper d \<and> (pointee d = NULL \<longrightarrow> d = NULL))"
| "proper (DSC_DSC d) = proper d"
| "proper DSC_other = False"

fun copied :: "descr \<Rightarrow> descr" where
  "copied (DSC_DSC d) = copied d"
| "copied (DSC_S dyn dtype data) = DSC_S False dtype data"
| "copied (DSC_XS dyn len dtype data) = DSC_XS False len dtype data"
| "copied (DSC_R dtype data ds) = DSC_R dtype data (map copied ds)"
| "copied (DSC_A a data) = DSC_A (a\<lparr>a_length := FixLength (a_dtype a) (a_length a)\<rparr>) data"
| "copied (DSC_APD a ds) = DSC_APD a (map copied ds)"
| "copied (DSC_CA a d) = DSC_CA a (copied d)"
| "copied d = d"

fun large :: "descr \<Rightarrow> bool" where
  "large (DSC_DSC d) = large d"
| "large (DSC_R dtype data ds) = list_ex large ds"
| "large (DSC_A a data) = (length data > compression_threshold)"
| "large (DSC_APD a ds) = list_ex large ds"
| "large (DSC_CA a d) = large d"
| "large d = False"

lemma copied_NULL: "copied d = NULL \<longleftrightarrow> pointee d = NULL"
  by (induction d rule: copied.induct) simp_all

lemma copy_dx_proper:
  "proper d \<Longrightarrow> copy_dx d = Some (MDSplusSUCCESS, copied d, large d)"
  "list_all proper ds \<Longrightarrow> copy_all ds = Some (MDSplusSUCCESS, map copied ds, list_ex large ds)"
  by (induction d and ds rule: copy_dx_copy_all.induct) (auto simp: copied_NULL)

text \<open>Descriptors the comparison can decide, with the lengths that the copy fills in.\<close>

fun comparable :: "descr \<Rightarrow> bool" where
  "comparable (DSC_R dtype data ds) = list_all comparable ds"
| "comparable (DSC_A a data) = (a_length a = FixLength (a_dtype a) (a_length a))"
| "comparable (DSC_APD a ds) = (a_dtype a \<noteq> DTYPE_DSC \<and> ds = [])"
| "comparable (DSC_CA a d) = (\<not> coeff a \<and> comparable d)"
| "comparable (DSC_DSC d) = comparable d"
| "comparable d = True"

lemma same_head_refl [simp]: "same_head a a" "same_mults a a"
  by (simp_all add: same_head_def same_mults_def)

lemma dtype_of_NULL [simp]: "dtype_of NULL = 0"
  by (simp add: dtype_of_def)

lemma DTYPE_DSC_0 [simp]: "0 \<noteq> DTYPE_DSC" "DTYPE_DSC \<noteq> 0"
  by (simp_all add: DTYPE_DSC_def)

lemma compare_copied:
  "proper d \<Longrightarrow> comparable d \<Longrightarrow> MdsCompareXd d (copied d) = Some True"
  "list_all proper ds \<Longrightarrow> list_all comparable ds \<Longrightarrow> compare_all ds (map copied ds) = Some True"
proof (induction d and ds rule: copy_dx_copy_all.induct)
  case (7 a data)
  have "a\<lparr>a_length := FixLength (a_dtype a) (a_length a)\<rparr> = a" using 7 by simp
  then show ?case using 7 by (simp add: dtype_of_def same_leaf_def)
qed (simp_all add: dtype_of_def same_leaf_def copy_dx_proper(1))




end
