(* ===== verification/Serialize.thy ===== *)
theory Serialize
  imports Descriptor
begin

text \<open>
  Descriptors as a sequence of bytes, the form in which they are stored and sent (\<open>MdsSerialize.c\<close>, little-endian
  build): \<open>MdsSerializeDscOut\<close>, \<open>MdsSerializeDscIn\<close>, and that reading gives back what was written.

  The sequence that is written is a buffer of its counted length; a position in it stands for the pointer
  \<open>out_ptr\<close>, \<open>None\<close> for the null pointer of the pass that only counts. Pointers of descriptors are the descriptors
  themselves, so \<open>PointerToOffset\<close> changes nothing here, and the size of what is read, in memory, is not modelled.
  A result is \<open>None\<close> where the code divides by zero or reads or writes outside of its buffers.
\<close>

section \<open>Writing\<close>

definition put :: "u8 list \<Rightarrow> nat \<Rightarrow> u8 list \<Rightarrow> u8 list option" where
  "put buf k bs =
     (if k + length bs \<le> length buf then Some (take k buf @ bs @ drop (k + length bs) buf) else None)"

definition put_at :: "nat option \<Rightarrow> nat \<Rightarrow> u8 list \<Rightarrow> u8 list \<Rightarrow> u8 list option" where
  "put_at out k bs buf = (case out of None \<Rightarrow> Some buf | Some p \<Rightarrow> put buf (p + k) bs)"

definition aflags_byte :: "array_head \<Rightarrow> u8" where
  "aflags_byte a =
     push_bit 3 (of_bool (binscale a)) OR push_bit 4 (of_bool (redim a)) OR push_bit 5 (of_bool (column a))
       OR push_bit 6 (of_bool (coeff a)) OR push_bit 7 (of_bool (bounds a))"

text \<open>The size of the head of an array in the record, as it is counted.\<close>

definition head_size :: "array_head \<Rightarrow> nat" where
  "head_size a =
     16 + (if coeff a then 4 + 4 * unat (dimct a) else 0) + (if bounds a then 8 * unat (dimct a) else 0)"

lemma head_size_16 [simp]: "16 \<le> head_size a" "0 < head_size a"
  by (simp_all add: head_size_def)

definition LoadInts :: "u32 list \<Rightarrow> u8 list" where
  "LoadInts ws = concat (map (le_bytes 4) ws)"

text \<open>The head as it is written, with the class, the length of an element, the size of the array and \<open>a0\<close>.\<close>

definition put_head :: "array_head \<Rightarrow> u8 \<Rightarrow> u16 \<Rightarrow> u32 \<Rightarrow> u32 \<Rightarrow> u32 \<Rightarrow> u8 list option" where
  "put_head a cls len dscsize arsz offset =
     (let n = unat (dimct a); start = le_bytes 2 len @ [a_dtype a, cls] @ le_bytes 4 dscsize
            @ [scale a, digits a, aflags_byte a, dimct a] @ le_bytes 4 arsz
      in if \<not> coeff a then Some start
         else if length (mults a) < (if bounds a then 3 * n else n) then None
         else Some (start @ le_bytes 4 offset @ LoadInts (take n (mults a))
                @ (if bounds a then LoadInts (take (2 * n) (drop n (mults a))) else [])))"

text \<open>
  The second function is the loop over the pointers of a record or, when \<open>apd\<close> is set, of an array of pointers:
  \<open>slot\<close> is the place for the next offset and \<open>pos\<close> that for the next descriptor, from the start of the whole.
  The loop goes on when a descriptor has failed, with the status of the next.
\<close>

fun copy_dx_rec :: "descr \<Rightarrow> nat option \<Rightarrow> u8 list \<Rightarrow> (status \<times> nat \<times> u8 list) option"
and copy_dscs ::
    "descr list \<Rightarrow> bool \<Rightarrow> nat option \<Rightarrow> nat \<Rightarrow> nat \<Rightarrow> status \<Rightarrow> u8 list \<Rightarrow> (status \<times> nat \<times> u8 list) option" where
  "copy_dx_rec NULL out buf = Some (MDSplusSUCCESS, 0, buf)"
| "copy_dx_rec (DSC_S dyn dtype data) out buf = do {
     buf \<leftarrow> put_at out 0 (le_bytes 2 (of_nat (length data) :: u16) @ [dtype, if dyn then 2 else 1]
              @ le_bytes 4 (8 :: u32) @ data) buf;
     Some (MDSplusSUCCESS, 8 + length data, buf)
   }"
| "copy_dx_rec (DSC_XS dyn len dtype data) out buf = do {
     buf \<leftarrow> put_at out 0 (le_bytes 2 len @ [dtype, if dyn then 192 else 193] @ le_bytes 4 (12 :: u32)
              @ le_bytes 4 (of_nat (length data) :: u32) @ data) buf;
     Some (MDSplusSUCCESS, 12 + length data, buf)
   }"
| "copy_dx_rec (DSC_R dtype data ds) out buf =
     (let n = length ds; start = 12 + 4 * n
      in do {
        buf \<leftarrow> put_at out 0 (le_bytes 2 (of_nat (length data) :: u16) @ [dtype, 194]
                 @ le_bytes 4 (if data = [] then 0 else of_nat start :: u32) @ [of_nat n]) buf;
        buf \<leftarrow> put_at out 12 (replicate (4 * n) 0 @ data) buf;
        (status, total, buf) \<leftarrow> copy_dscs ds False out 12 (start + length data) MDSplusSUCCESS buf;
        Some (status, start + length data + total, buf)
      })"
| "copy_dx_rec (DSC_A a data) out buf =
     (if unat (arsize a) \<noteq> length data then None
      else do {
        head \<leftarrow> put_head a 4 (a_length a) (of_nat (head_size a)) (arsize a) (of_nat (head_size a) + ucast (a0 a));
        buf \<leftarrow> put_at out 0 (head @ data) buf;
        Some (MDSplusSUCCESS, head_size a + length data, buf)
      })"
| "copy_dx_rec (DSC_APD a ds) out buf = do {
     n \<leftarrow> num_dsc a;
     if n \<noteq> length ds then None
     else do {
       head \<leftarrow> put_head a 196 4 (of_nat (head_size a)) (of_nat (4 * n)) (of_nat (head_size a) + ucast (a0 a));
       buf \<leftarrow> put_at out 0 (head @ replicate (4 * n) 0) buf;
       (status, total, buf) \<leftarrow> copy_dscs ds True out (length head) (length head + 4 * n) MDSplusSUCCESS buf;
       Some (status, 16 + (if coeff a then 8 + 4 * unat (dimct a) else 0)
               + (if bounds a then 8 * unat (dimct a) else 4 * n) + total, buf)
     }
   }"
| "copy_dx_rec (DSC_CA a d) out buf = do {
     head \<leftarrow> put_head a 195 (a_length a) (if d = NULL then 0 else of_nat (head_size a)) (arsize a) (ucast (a0 a));
     buf \<leftarrow> put_at out 0 head buf;
     if d = NULL then Some (MDSplusSUCCESS, head_size a, buf)
     else do {
       (status, total, buf) \<leftarrow> copy_dx_rec d (map_option (\<lambda>p. p + length head) out) buf;
       Some (status, head_size a + total, buf)
     }
   }"
| "copy_dx_rec (DSC_DSC d) out buf = None"
| "copy_dx_rec (DSC_NCA a data) out buf = Some (LibINVSTRDES, 0, buf)"
| "copy_dx_rec DSC_other out buf = Some (LibINVSTRDES, 0, buf)"
| "copy_dscs [] apd out slot pos status buf = Some (status, 0, buf)"
| "copy_dscs (d # ds) apd out slot pos status buf =
     (if d = NULL
      then if apd
           then do {
             buf \<leftarrow> put_at out slot (replicate 4 0) buf;
             (status, total, buf) \<leftarrow> copy_dscs ds apd out (slot + 4) (pos + 4) status buf;
             Some (status, 4 + total, buf)
           }
           else copy_dscs ds apd out (slot + 4) pos status buf
      else do {
        (status, n, buf) \<leftarrow> copy_dx_rec d (map_option (\<lambda>p. p + pos) out) buf;
        buf \<leftarrow> put_at out slot (le_bytes 4 (of_nat pos :: u32)) buf;
        (status, total, buf) \<leftarrow> copy_dscs ds apd out (slot + 4) (pos + n) status buf;
        Some (status, n + total, buf)
      })"

text \<open>Counting, and writing into a cleared buffer; \<open>None\<close> also when the count does not fit into 32 bits.\<close>

definition Dsc2Rec :: "descr \<Rightarrow> (status \<times> u8 list) option" where
  "Dsc2Rec d = do {
     (status, n, _) \<leftarrow> copy_dx_rec d None [];
     if n \<ge> 2 ^ 32 then None
     else if STATUS_OK status \<and> n \<noteq> 0
     then do {
       (status, _, buf) \<leftarrow> copy_dx_rec d (Some 0) (replicate n 0);
       Some (status, buf)
     }
     else Some (status, [])
   }"

text \<open>The status of \<open>Dsc2Rec\<close> is not looked at.\<close>

definition MdsSerializeDscOut :: "descr \<Rightarrow> (status \<times> u8 list) option" where
  "MdsSerializeDscOut d = do {
     (status, copy) \<leftarrow> MdsCopyDxXd d;
     if STATUS_OK status \<and> copy \<noteq> NULL
     then do { (_, buf) \<leftarrow> Dsc2Rec copy; Some (MDSplusSUCCESS, buf) }
     else Some (status, [])
   }"

section \<open>Reading\<close>

definition get :: "u8 list \<Rightarrow> nat \<Rightarrow> nat \<Rightarrow> u8 list option" where
  "get bs k n = (if k + n \<le> length bs then Some (take n (drop k bs)) else None)"

definition get8 :: "u8 list \<Rightarrow> nat \<Rightarrow> u8 option" where "get8 bs k = map_option hd (get bs k 1)"
definition get16 :: "u8 list \<Rightarrow> nat \<Rightarrow> u16 option" where "get16 bs k = map_option le_word (get bs k 2)"
definition get32 :: "u8 list \<Rightarrow> nat \<Rightarrow> u32 option" where "get32 bs k = map_option le_word (get bs k 4)"

fun words32 :: "u8 list \<Rightarrow> u32 list" where
  "words32 (a # b # c # d # bs) = le_word [a, b, c, d] # words32 bs"
| "words32 _ = []"

text \<open>The head of an array, without \<open>a0\<close> and the multipliers.\<close>

definition get_head :: "u8 list \<Rightarrow> array_head option" where
  "get_head bs = do {
     len \<leftarrow> get16 bs 0; dtype \<leftarrow> get8 bs 2; scl \<leftarrow> get8 bs 8; dig \<leftarrow> get8 bs 9; fl \<leftarrow> get8 bs 10;
     dim \<leftarrow> get8 bs 11; arsz \<leftarrow> get32 bs 12;
     Some \<lparr>a_length = FixLength dtype len, a_dtype = dtype, scale = scl, digits = dig, binscale = bit fl 3,
       redim = bit fl 4, column = bit fl 5, coeff = bit fl 6, bounds = bit fl 7, dimct = dim, arsize = arsz,
       a0 = 0, mults = []\<rparr>
   }"

text \<open>The multipliers and bounds, which only the pass that writes reads.\<close>

definition get_mults :: "bool \<Rightarrow> u8 list \<Rightarrow> array_head \<Rightarrow> array_head option" where
  "get_mults po bs a =
     (if po \<and> coeff a
      then map_option (\<lambda>ms. a\<lparr>mults := words32 ms\<rparr>) (get bs 20 ((if bounds a then 12 else 4) * unat (dimct a)))
      else Some a)"

text \<open>The difference of \<open>a0\<close> and the offset of the data is unsigned and of 32 bits.\<close>

definition get_a0 :: "bool \<Rightarrow> u8 list \<Rightarrow> array_head \<Rightarrow> array_head option" where
  "get_a0 po bs a =
     (if po \<and> coeff a
      then do { offset \<leftarrow> get32 bs 4; a0' \<leftarrow> get32 bs 16; Some (a\<lparr>a0 := ucast (a0' - offset)\<rparr>) }
      else Some a)"

definition get_ca_a0 :: "bool \<Rightarrow> u8 list \<Rightarrow> array_head \<Rightarrow> array_head option" where
  "get_ca_a0 po bs a = do {
     offset \<leftarrow> get32 bs 4;
     a \<leftarrow> (if po \<and> coeff a then do { a0' \<leftarrow> get32 bs 16; Some (a\<lparr>a0 := ucast a0'\<rparr>) } else Some a);
     if po \<and> offset \<noteq> 0 \<and> bounds a
     then if unat (dimct a) < length (mults a)
          then Some (a\<lparr>a0 := ucast (- (mults a ! unat (dimct a) * ucast (a_length a)))\<rparr>) else None
     else Some a
   }"

definition get_data :: "bool \<Rightarrow> u8 list \<Rightarrow> nat \<Rightarrow> nat \<Rightarrow> u8 list option" where
  "get_data po bs k n = (if po then get bs k n else Some [])"

text \<open>
  The first argument tells whether there is an output, or only its size is wanted. The second function reads the
  descriptors of a record or of an array of pointers, those that are there.
\<close>

function (sequential) copy_rec_dx :: "bool \<Rightarrow> u8 list \<Rightarrow> (status \<times> descr \<times> nat) option"
and copy_recs :: "bool \<Rightarrow> bool list \<Rightarrow> u8 list \<Rightarrow> (status \<times> descr list \<times> nat) option" where
  "copy_rec_dx po bs = do {
     start \<leftarrow> get bs 0 4;
     if start = replicate 4 0 then Some (MDSplusSUCCESS, DSC_DSC NULL, 4)
     else if start ! 3 = 1 \<or> start ! 3 = 2 then do {
       len \<leftarrow> get16 bs 0; dtype \<leftarrow> get8 bs 2;
       let n = unat (FixLength dtype len);
       data \<leftarrow> get_data po bs 8 n;
       Some (MDSplusSUCCESS, DSC_S False dtype data, 8 + n)
     }
     else if start ! 3 = 193 \<or> start ! 3 = 192 then do {
       dtype \<leftarrow> get8 bs 2; len \<leftarrow> get32 bs 8;
       data \<leftarrow> get_data po bs 12 (unat len);
       Some (MDSplusSUCCESS, DSC_XS False 0 dtype data, 12 + unat len)
     }
     else if start ! 3 = 194 then do {
       len \<leftarrow> get16 bs 0; dtype \<leftarrow> get8 bs 2; ndesc \<leftarrow> get8 bs 8;
       let n = unat (FixLength dtype len);
       let table = 12 + 4 * unat ndesc;
       data \<leftarrow> get_data po bs table n;
       offsets \<leftarrow> get bs 12 (4 * unat ndesc);
       (status, ds, total) \<leftarrow> copy_recs po (map (\<lambda>k. k \<noteq> 0) (words32 offsets)) (drop (table + n) bs);
       Some (status, DSC_R dtype data ds, table + n + total)
     }
     else if start ! 3 = 4 then do {
       a \<leftarrow> get_head bs;
       let n = unat (arsize a);
       if po \<and> a_dtype a \<noteq> DTYPE_TXT \<and> a_length a = 0 then None
       else do {
         a \<leftarrow> get_mults po bs a;
         data \<leftarrow> get_data po bs (head_size a) n;
         a \<leftarrow> get_a0 po bs a;
         Some (MDSplusSUCCESS, DSC_A a data, head_size a + n)
       }
     }
     else if start ! 3 = 196 then do {
       a \<leftarrow> get_head bs;
       if a_length a = 0 then None
       else do {
         let n = unat (arsize a div ucast (a_length a) * 8) div 8;
         a \<leftarrow> get_mults po bs (a\<lparr>a_length := 8, arsize := of_nat n * 8\<rparr>);
         a \<leftarrow> get_a0 po bs a;
         (status, ds, total) \<leftarrow> copy_recs po (replicate n True) (drop (head_size a + 4 * n) bs);
         Some (status, DSC_APD a ds, head_size a + 4 * n + total)
       }
     }
     else if start ! 3 = 195 then do {
       a \<leftarrow> get_head bs;
       offset \<leftarrow> get32 bs 4;
       a \<leftarrow> get_mults po bs a;
       a \<leftarrow> get_ca_a0 po bs a;
       if offset = 0 then Some (MDSplusSUCCESS, DSC_CA a NULL, head_size a)
       else do {
         (status, d, total) \<leftarrow> copy_rec_dx po (drop (head_size a) bs);
         Some (status, DSC_CA a d, head_size a + total)
       }
     }
     else Some (LibINVSTRDES, NULL, 0)
   }"
| "copy_recs po [] bs = Some (MDSplusSUCCESS, [], 0)"
| "copy_recs po (False # there) bs = do {
     (status, ds, total) \<leftarrow> copy_recs po there bs;
     Some (status, NULL # ds, total)
   }"
| "copy_recs po (True # there) bs = do {
     (status, d, n) \<leftarrow> copy_rec_dx po bs;
     if STATUS_OK status then do {
       (status, ds, total) \<leftarrow> copy_recs po there (drop n bs);
       Some (status, d # ds, n + total)
     } else Some (status, [d], n)
   }"
  by pat_completeness auto
termination
proof (relation "measures [case_sum (\<lambda>(po, bs). length bs) (\<lambda>(po, there, bs). length bs),
    case_sum (\<lambda>_. 0) (\<lambda>(po, there, bs). Suc (length there))]", goal_cases)
qed (use head_size_16(2) in \<open>auto simp: get_def split: if_splits intro!: diff_less\<close>)

declare copy_rec_dx.simps [simp del]

definition MdsSerializeDscIn :: "u8 list \<Rightarrow> (status \<times> descr) option" where
  "MdsSerializeDscIn bs = do {
     (status, _, _) \<leftarrow> copy_rec_dx False bs;
     if STATUS_OK status then do { (status, d, _) \<leftarrow> copy_rec_dx True bs; Some (status, d) }
     else Some (status, NULL)
   }"


section \<open>The record of a descriptor\<close>

text \<open>
  Descriptors that a record can hold, after the copy: lengths fit into their fields and are not filled in by
  the reader, bounds come with multipliers, as \<open>mdsdescrip.h\<close> demands, and arrays of pointers have none.
\<close>

definition head_ok :: "array_head \<Rightarrow> bool" where
  "head_ok a \<longleftrightarrow> (bounds a \<longrightarrow> coeff a)
     \<and> (coeff a \<longrightarrow> length (mults a) = (if bounds a then 3 else 1) * unat (dimct a))
     \<and> a_length a = FixLength (a_dtype a) (a_length a)"

definition length_ok :: "u8 \<Rightarrow> u8 list \<Rightarrow> bool" where
  "length_ok dtype data \<longleftrightarrow> length data < 2 ^ 16
     \<and> FixLength dtype (of_nat (length data)) = of_nat (length data)"

fun good :: "descr \<Rightarrow> bool" where
  "good NULL = True"
| "good (DSC_S dyn dtype data) = (\<not> dyn \<and> length_ok dtype data)"
| "good (DSC_XS dyn len dtype data) = (\<not> dyn \<and> length data < 2 ^ 32)"
| "good (DSC_R dtype data ds) = (length_ok dtype data \<and> length ds < 256 \<and> list_all good ds)"
| "good (DSC_A a data) = (head_ok a \<and> unat (arsize a) = length data \<and> (a_dtype a = DTYPE_TXT \<or> a_length a \<noteq> 0))"
| "good (DSC_APD a ds) =
     (head_ok a \<and> \<not> coeff a \<and> num_dsc a = Some (length ds) \<and> 8 * length ds < 2 ^ 32 \<and> list_all good ds)"
| "good (DSC_CA a d) = (head_ok a \<and> (d \<noteq> NULL \<longrightarrow> bounds a \<longrightarrow> dimct a \<noteq> 0) \<and> good d)"
| "good d = False"

definition head_bytes :: "array_head \<Rightarrow> u8 \<Rightarrow> u16 \<Rightarrow> u32 \<Rightarrow> u32 \<Rightarrow> u32 \<Rightarrow> u8 list" where
  "head_bytes a cls len dscsize arsz offset = the (put_head a cls len dscsize arsz offset)"

lemma length_LoadInts [simp]: "length (LoadInts ws) = 4 * length ws"
  by (induction ws) (simp_all add: LoadInts_def)

lemma put_head_ok:
  assumes "head_ok a"
  shows "put_head a cls len dscsize arsz offset = Some (head_bytes a cls len dscsize arsz offset)"
    "length (head_bytes a cls len dscsize arsz offset) = head_size a"
  using assms by (auto simp: put_head_def head_bytes_def head_ok_def head_size_def Let_def)

text \<open>The offsets of descriptors whose bytes are given, from a first one on.\<close>

fun offsets_from :: "nat \<Rightarrow> (descr \<times> u8 list) list \<Rightarrow> u32 list" where
  "offsets_from k [] = []"
| "offsets_from k ((d, bs) # ds) = (if d = NULL then 0 else of_nat k) # offsets_from (k + length bs) ds"

lemma length_offsets_from [simp]: "length (offsets_from k ds) = length ds"
  by (induction k ds rule: offsets_from.induct) simp_all

text \<open>
  The bytes of a record, written from the start, and of several descriptors, a null pointer being \<open>z\<close> zero bytes.
\<close>

fun rec_bytes :: "descr \<Rightarrow> u8 list"
and recs_bytes :: "nat \<Rightarrow> descr list \<Rightarrow> u8 list list" where
  "rec_bytes NULL = []"
| "rec_bytes (DSC_S dyn dtype data) =
     le_bytes 2 (of_nat (length data) :: u16) @ [dtype, 1] @ le_bytes 4 (8 :: u32) @ data"
| "rec_bytes (DSC_XS dyn len dtype data) =
     le_bytes 2 len @ [dtype, 193] @ le_bytes 4 (12 :: u32) @ le_bytes 4 (of_nat (length data) :: u32) @ data"
| "rec_bytes (DSC_R dtype data ds) =
     (let start = 12 + 4 * length ds
      in le_bytes 2 (of_nat (length data) :: u16) @ [dtype, 194]
           @ le_bytes 4 (if data = [] then 0 else of_nat start :: u32) @ [of_nat (length ds)] @ [0, 0, 0]
           @ LoadInts (offsets_from (start + length data) (zip ds (recs_bytes 0 ds))) @ data @ concat (recs_bytes 0 ds))"
| "rec_bytes (DSC_A a data) =
     head_bytes a 4 (a_length a) (of_nat (head_size a)) (arsize a) (of_nat (head_size a) + ucast (a0 a)) @ data"
| "rec_bytes (DSC_APD a ds) =
     head_bytes a 196 4 (of_nat (head_size a)) (of_nat (4 * length ds)) (of_nat (head_size a) + ucast (a0 a))
       @ LoadInts (offsets_from (head_size a + 4 * length ds) (zip ds (recs_bytes 4 ds))) @ concat (recs_bytes 4 ds)"
| "rec_bytes (DSC_CA a d) =
     head_bytes a 195 (a_length a) (if d = NULL then 0 else of_nat (head_size a)) (arsize a) (ucast (a0 a)) @ rec_bytes d"
| "rec_bytes d = []"
| "recs_bytes z [] = []"
| "recs_bytes z (d # ds) = (if d = NULL then replicate z 0 else rec_bytes d) # recs_bytes z ds"

lemma length_recs_bytes [simp]: "length (recs_bytes z ds) = length ds"
  by (induction ds) simp_all

lemma put_at_None [simp]: "put_at None k bs buf = Some buf"
  by (simp add: put_at_def)

lemma put_at_replace:
  assumes "length pre = p + k" "length X = length Y"
  shows "put_at (Some p) k X (pre @ Y @ post) = Some (pre @ X @ post)"
  using assms by (simp add: put_at_def put_def)

lemma LoadInts_Cons: "LoadInts (w # ws) = le_bytes 4 w @ LoadInts ws"
  by (simp add: LoadInts_def)

lemma zeros_split: "replicate (4 * Suc n) (0 :: u8) = replicate 4 0 @ replicate (4 * n) 0"
  by (simp add: replicate_add [symmetric])

lemma copy_dx_rec_counts:
  fixes z :: nat
  shows "good d \<Longrightarrow> copy_dx_rec d None buf = Some (MDSplusSUCCESS, length (rec_bytes d), buf)"
    "list_all good ds \<Longrightarrow> z = 0 \<or> z = 4 \<Longrightarrow> copy_dscs ds (z = 4) None slot pos MDSplusSUCCESS buf =
       Some (MDSplusSUCCESS, length (concat (recs_bytes z ds)), buf)"
proof (induction d and z ds arbitrary: buf and buf slot pos rule: rec_bytes_recs_bytes.induct)
qed (auto simp: put_head_ok Let_def head_size_def head_ok_def)

lemma le_bytes_0 [simp]: "le_bytes n 0 = replicate n 0"
  by (simp add: le_bytes_def map_replicate_const)

text \<open>What is written behind \<open>pre\<close> into a part of the buffer that is zero.\<close>

lemma copy_dx_rec_writes:
  fixes z :: nat
  shows "good d \<Longrightarrow> copy_dx_rec d (Some (length pre)) (pre @ replicate (length (rec_bytes d)) 0 @ post) =
      Some (MDSplusSUCCESS, length (rec_bytes d), pre @ rec_bytes d @ post)"
    "list_all good ds \<Longrightarrow> z = 0 \<or> z = 4 \<Longrightarrow> pos = length A + 4 * length ds + length B \<Longrightarrow>
      copy_dscs ds (z = 4) (Some (length pre)) (length A) pos MDSplusSUCCESS
        (pre @ A @ replicate (4 * length ds) 0 @ B @ replicate (length (concat (recs_bytes z ds))) 0 @ post) =
      Some (MDSplusSUCCESS, length (concat (recs_bytes z ds)),
        pre @ A @ LoadInts (offsets_from pos (zip ds (recs_bytes z ds))) @ B @ concat (recs_bytes z ds) @ post)"
proof (induction d and z ds arbitrary: pre post and pos A B pre post rule: rec_bytes_recs_bytes.induct)
  case (1)
  then show ?case by simp
next
  case (2 dyn dtype data)
  then show ?case using put_at_replace [of pre "length pre" 0] by simp
next
  case (3 dyn len dtype data)
  then show ?case using put_at_replace [of pre "length pre" 0] by simp
next
  case (5 a data)
  then show ?case using put_at_replace [of pre "length pre" 0] by (simp add: put_head_ok)
next
  case (9 z)
  then show ?case by (simp add: LoadInts_def)
next
  case (4 dtype data ds)
  define start where "start = 12 + 4 * length ds"
  define head where "head = le_bytes 2 (of_nat (length data) :: u16) @ [dtype, 194]
    @ le_bytes 4 (if data = [] then 0 else of_nat start :: u32) @ [of_nat (length ds)]"
  let ?zeros = "\<lambda>n. replicate n (0 :: u8)" and ?n = "length ds" and ?total = "length (concat (recs_bytes 0 ds))"
  let ?m = "length data"
  have len: "length head = 9" by (simp add: head_def)
  have run: "copy_dx_rec (DSC_R dtype data ds) (Some (length pre)) buf = do {
      buf \<leftarrow> put_at (Some (length pre)) 0 head buf;
      buf \<leftarrow> put_at (Some (length pre)) 12 (?zeros (4 * ?n) @ data) buf;
      (status, total, buf) \<leftarrow> copy_dscs ds False (Some (length pre)) 12 (start + ?m) MDSplusSUCCESS buf;
      Some (status, start + ?m + total, buf)
    }" for buf by (simp only: copy_dx_rec.simps Let_def head_def start_def)
  have w1: "put_at (Some (length pre)) 0 head (pre @ ?zeros 9 @ (?zeros 3 @ ?zeros (4 * ?n + ?m) @ ?zeros ?total @ post))
      = Some (pre @ head @ (?zeros 3 @ ?zeros (4 * ?n + ?m) @ ?zeros ?total @ post))"
    by (rule put_at_replace) (simp_all add: len)
  have w2: "put_at (Some (length pre)) 12 (?zeros (4 * ?n) @ data)
      ((pre @ head @ ?zeros 3) @ ?zeros (4 * ?n + ?m) @ (?zeros ?total @ post))
      = Some ((pre @ head @ ?zeros 3) @ (?zeros (4 * ?n) @ data) @ (?zeros ?total @ post))"
    by (rule put_at_replace) (simp_all add: len)
  have w3: "copy_dscs ds False (Some (length pre)) 12 (start + ?m) MDSplusSUCCESS
      (pre @ (head @ ?zeros 3) @ ?zeros (4 * ?n) @ data @ ?zeros ?total @ post) = Some (MDSplusSUCCESS, ?total,
        pre @ (head @ ?zeros 3) @ LoadInts (offsets_from (start + ?m) (zip ds (recs_bytes 0 ds))) @ data @ concat (recs_bytes 0 ds) @ post)"
    using "4.IH"(1) [of _ "start + ?m" "head @ ?zeros 3" data pre post] "4.prems" by (simp add: len start_def)
  have z: "?zeros (start + (?m + ?total)) = ?zeros 9 @ ?zeros 3 @ ?zeros (4 * ?n + ?m) @ ?zeros ?total"
    by (simp add: replicate_add [symmetric] start_def ac_simps)
  have im: "rec_bytes (DSC_R dtype data ds) = head @ ?zeros 3
      @ LoadInts (offsets_from (start + ?m) (zip ds (recs_bytes 0 ds))) @ data @ concat (recs_bytes 0 ds)"
    by (simp add: head_def start_def numeral_3_eq_3 Let_def)
  have ln: "length (rec_bytes (DSC_R dtype data ds)) = start + (?m + ?total)" by (simp add: Let_def start_def)
  show ?case
    unfolding run ln unfolding im using z w1 w2 w3 by simp
next
  case (6 a ds)
  define head where "head = head_bytes a 196 4 (of_nat (head_size a)) (of_nat (4 * length ds)) (of_nat (head_size a) + ucast (a0 a))"
  have head: "put_head a 196 4 (of_nat (head_size a)) (of_nat (4 * length ds)) (of_nat (head_size a) + ucast (a0 a)) = Some head"
    "length head = head_size a" using "6.prems" by (simp_all only: put_head_ok good.simps head_def)
  let ?zeros = "\<lambda>n. replicate n (0 :: u8)" and ?n = "length ds" and ?total = "length (concat (recs_bytes 4 ds))"
  have "put_at (Some (length pre)) 0 (head @ ?zeros (4 * ?n)) (pre @ (?zeros (length head + 4 * ?n)) @ ?zeros ?total @ post)
      = Some (pre @ (head @ ?zeros (4 * ?n)) @ ?zeros ?total @ post)"
    by (rule put_at_replace) simp_all
  moreover have "copy_dscs ds True (Some (length pre)) (length head) (length head + 4 * ?n) MDSplusSUCCESS
      (pre @ head @ ?zeros (4 * ?n) @ [] @ ?zeros ?total @ post) = Some (MDSplusSUCCESS, ?total,
        pre @ head @ LoadInts (offsets_from (length head + 4 * ?n) (zip ds (recs_bytes 4 ds))) @ [] @ concat (recs_bytes 4 ds) @ post)"
    using "6.IH"(1) [of "length head + 4 * ?n" head "[]" pre post] "6.prems" by simp
  moreover have "num_dsc a = Some ?n" "\<not> coeff a" "\<not> bounds a" using "6.prems" by (auto simp: head_ok_def)
  moreover from this have "head_size a = 16" by (simp add: head_size_def)
  moreover from this have "head_bytes a 196 4 16 (4 * of_nat ?n) (16 + ucast (a0 a)) = head" by (simp add: head_def)
  ultimately show ?case
    using head by (simp add: replicate_add Let_def)
next
  case (7 a d)
  let ?head = "head_bytes a 195 (a_length a) (if d = NULL then 0 else of_nat (head_size a)) (arsize a) (ucast (a0 a))"
  have head: "put_head a 195 (a_length a) (if d = NULL then 0 else of_nat (head_size a)) (arsize a) (ucast (a0 a)) = Some ?head"
    "length ?head = head_size a" using 7(2) by (simp_all only: put_head_ok good.simps)
  let ?rest = "replicate (length (rec_bytes d)) (0 :: u8) @ post"
  have "put_at (Some (length pre)) 0 ?head (pre @ replicate (length ?head) 0 @ ?rest) = Some (pre @ ?head @ ?rest)"
    by (rule put_at_replace) simp_all
  moreover have "d \<noteq> NULL \<Longrightarrow> copy_dx_rec d (Some (length pre + length ?head)) (pre @ ?head @ ?rest) =
      Some (MDSplusSUCCESS, length (rec_bytes d), pre @ ?head @ rec_bytes d @ post)"
    using 7(1) [of "pre @ ?head" post] 7(2) by simp
  ultimately show ?case using head by (auto simp: replicate_add)
next
  case (10 z d ds)
  let ?zeros = "\<lambda>n. replicate n (0 :: u8)" and ?n = "length ds"
  show ?case
  proof (cases "d = NULL")
    case True
    note IH = 10(2) [of pos "A @ ?zeros 4"]
    show ?thesis
    proof (cases "z = 0")
      case z: True
      show ?thesis using IH [of B pre post] 10(3,4,5) True z by (simp add: replicate_add LoadInts_Cons)
    next
      case False
      have "put_at (Some (length pre)) (length A) (?zeros 4) ((pre @ A) @ ?zeros 4 @ rest) = Some ((pre @ A) @ ?zeros 4 @ rest)" for rest
        by (rule put_at_replace) simp_all
      then show ?thesis
        using 10(2) [of "pos + 4" "A @ ?zeros 4" "B @ ?zeros 4" pre post] 10(3,4,5) True False
        by (simp add: zeros_split LoadInts_Cons replicate_add)
    qed
  next
    case False
    define rest where "rest = length (concat (recs_bytes z ds))"
    have "copy_dx_rec d (Some (length pre + pos)) ((pre @ A @ ?zeros 4 @ ?zeros (4 * ?n) @ B) @ ?zeros (length (rec_bytes d)) @ ?zeros rest @ post)
        = Some (MDSplusSUCCESS, length (rec_bytes d), (pre @ A @ ?zeros 4 @ ?zeros (4 * ?n) @ B) @ rec_bytes d @ ?zeros rest @ post)"
      using 10(1) [OF False, of "pre @ A @ ?zeros 4 @ ?zeros (4 * ?n) @ B" "?zeros rest @ post"] 10(3,5) by (simp add: ac_simps)
    moreover have "put_at (Some (length pre)) (length A) (le_bytes 4 (of_nat pos :: u32))
        ((pre @ A) @ ?zeros 4 @ ?zeros (4 * ?n) @ B @ rec_bytes d @ ?zeros rest @ post)
      = Some ((pre @ A) @ le_bytes 4 (of_nat pos :: u32) @ ?zeros (4 * ?n) @ B @ rec_bytes d @ ?zeros rest @ post)"
      by (rule put_at_replace) simp_all
    moreover have "copy_dscs ds (z = 4) (Some (length pre)) (length A + 4) (pos + length (rec_bytes d)) MDSplusSUCCESS
        (pre @ (A @ le_bytes 4 (of_nat pos :: u32)) @ ?zeros (4 * ?n) @ (B @ rec_bytes d) @ ?zeros rest @ post) =
      Some (MDSplusSUCCESS, rest, pre @ (A @ le_bytes 4 (of_nat pos :: u32))
        @ LoadInts (offsets_from (pos + length (rec_bytes d)) (zip ds (recs_bytes z ds))) @ (B @ rec_bytes d) @ concat (recs_bytes z ds) @ post)"
      using 10(2) [of "pos + length (rec_bytes d)" "A @ le_bytes 4 (of_nat pos :: u32)" "B @ rec_bytes d" pre post] 10(3,4,5)
      by (simp add: rest_def)
    ultimately show ?thesis
      using False by (simp add: zeros_split LoadInts_Cons replicate_add rest_def [symmetric])
  qed
qed simp_all


lemma rec_bytes_nonempty: "good d \<Longrightarrow> d \<noteq> NULL \<Longrightarrow> rec_bytes d \<noteq> []"
  by (cases d) (auto simp: Let_def head_bytes_def put_head_def head_ok_def)

lemma Dsc2Rec_good:
  assumes "good d" "d \<noteq> NULL" "length (rec_bytes d) < 2 ^ 32"
  shows "Dsc2Rec d = Some (MDSplusSUCCESS, rec_bytes d)"
  using copy_dx_rec_counts(1) [OF assms(1), of "[]"] copy_dx_rec_writes(1) [OF assms(1), of "[]" "[]"]
    rec_bytes_nonempty [OF assms(1,2)] assms(3)
  by (simp add: Dsc2Rec_def)

section \<open>Reading a record\<close>

lemma get_here [simp]: "n = length xs \<Longrightarrow> get (xs @ ys) 0 n = Some xs" "n = length xs \<Longrightarrow> get xs 0 n = Some xs"
  by (simp_all add: get_def)

lemma get_skip [simp]: "length xs \<le> k \<Longrightarrow> get (xs @ ys) k n = get ys (k - length xs) n"
  by (auto simp: get_def)

lemma get_Cons [simp]: "0 < k \<Longrightarrow> get (x # xs) k n = get xs (k - 1) n"
  by (cases k) (auto simp: get_def)

lemma get_start [simp]: "get (le_bytes 2 len @ t # c # bs) 0 4 = Some (le_bytes 2 len @ [t, c])"
  using get_here(1) [of 4 "le_bytes 2 len @ [t, c]" bs] by simp

lemma get8_nth: "k < length bs \<Longrightarrow> get8 bs k = Some (bs ! k)"
  by (simp add: get8_def get_def hd_drop_conv_nth take_Suc_conv_app_nth)

lemma start_class [simp]: "(le_bytes 2 len @ [t, c]) ! 3 = c"
  by (simp add: nth_append)

lemma start_nonzero [simp]: "c \<noteq> 0 \<Longrightarrow> le_bytes 2 len @ [t, c] \<noteq> replicate 4 0"
proof
  assume "c \<noteq> 0" "le_bytes 2 len @ [t, c] = replicate 4 0"
  then have "(le_bytes 2 len @ [t, c]) ! 3 = replicate 4 0 ! 3" "c \<noteq> 0" by (simp_all only: not_False_eq_True)
  then show False by simp
qed

lemma words32_LoadInts [simp]: "words32 (LoadInts ws) = ws"
proof (induction ws)
  case (Cons w ws)
  have "le_bytes 4 w = [le_bytes 4 w ! 0, le_bytes 4 w ! 1, le_bytes 4 w ! 2, le_bytes 4 w ! 3]"
    by (simp add: le_bytes_def upt_conv_Cons)
  then have "words32 (le_bytes 4 w @ LoadInts ws) = le_word (le_bytes 4 w) # words32 (LoadInts ws)"
    by (metis append_Cons append_Nil words32.simps(1))
  then show ?case using Cons.IH by (simp add: LoadInts_Cons)
qed (simp add: LoadInts_def)

lemma aflags_bits [simp]:
  "bit (aflags_byte a) 3 = binscale a" "bit (aflags_byte a) 4 = redim a" "bit (aflags_byte a) 5 = column a"
  "bit (aflags_byte a) 6 = coeff a" "bit (aflags_byte a) 7 = bounds a"
  by (auto simp: aflags_byte_def bit_simps)

lemma head_bytes_eq:
  assumes "head_ok a"
  shows "head_bytes a cls len dscsize arsz offset = le_bytes 2 len @ [a_dtype a, cls] @ le_bytes 4 dscsize
    @ [scale a, digits a, aflags_byte a, dimct a] @ le_bytes 4 arsz
    @ (if coeff a then le_bytes 4 offset @ LoadInts (mults a) else [])"
proof -
  let ?n = "unat (dimct a)"
  have "coeff a \<Longrightarrow> bounds a \<Longrightarrow> LoadInts (take ?n (mults a)) @ LoadInts (take (2 * ?n) (drop ?n (mults a))) = LoadInts (mults a)"
    using assms by (simp add: head_ok_def LoadInts_def flip: concat_append map_append)
  then show ?thesis using assms by (auto simp: head_bytes_def put_head_def head_ok_def)
qed

lemma get_head_bytes:
  assumes "head_ok a"
  shows "get_head (head_bytes a cls len dscsize arsz offset @ rest) =
    Some (a\<lparr>a_length := FixLength (a_dtype a) len, arsize := arsz, a0 := 0, mults := []\<rparr>)"
  unfolding head_bytes_eq [OF assms] get_head_def
  by (simp add: get8_nth nth_append get16_def get32_def)

lemma get_mults_bytes:
  assumes "head_ok a" and "coeff b = coeff a" "bounds b = bounds a" "dimct b = dimct a"
  shows "get_mults po (head_bytes a cls len dscsize arsz offset @ rest) b =
    Some (if po \<and> coeff a then b\<lparr>mults := mults a\<rparr> else b)"
  using assms unfolding head_bytes_eq [OF assms(1)] get_mults_def by (auto simp: head_ok_def)

lemma get_a0_bytes:
  assumes "head_ok a" and "coeff b = coeff a"
  shows "get_a0 po (head_bytes a cls len dscsize arsz offset @ rest) b =
    Some (if po \<and> coeff a then b\<lparr>a0 := ucast (offset - dscsize)\<rparr> else b)"
  using assms unfolding head_bytes_eq [OF assms(1)] get_a0_def by (auto simp: get32_def)


lemma get_ca_a0_bytes:
  assumes "head_ok a" and "coeff b = coeff a" "bounds b = bounds a" "dimct b = dimct a"
    and "po \<Longrightarrow> mults b = (if coeff a then mults a else [])" and "dscsize \<noteq> 0 \<Longrightarrow> bounds a \<Longrightarrow> dimct a \<noteq> 0"
  shows "get_ca_a0 po (head_bytes a cls len dscsize arsz offset @ rest) b =
    Some (if \<not> po then b
      else if dscsize \<noteq> 0 \<and> bounds a then b\<lparr>a0 := ucast (- (mults a ! unat (dimct a) * ucast (a_length b)))\<rparr>
      else if coeff a then b\<lparr>a0 := ucast offset\<rparr> else b)"
proof -
  have "dscsize \<noteq> 0 \<Longrightarrow> bounds a \<Longrightarrow> unat (dimct a) < length (mults a)"
    using assms(1,6) by (auto simp: head_ok_def unat_gt_0)
  moreover have "get32 (head_bytes a cls len dscsize arsz offset @ rest) 4 = Some dscsize"
    "coeff a \<Longrightarrow> get32 (head_bytes a cls len dscsize arsz offset @ rest) 16 = Some offset"
    unfolding head_bytes_eq [OF assms(1)] by (simp_all add: get32_def)
  ultimately show ?thesis using assms by (auto simp: get_ca_a0_def head_ok_def)
qed

text \<open>
  What is read back. The distance of \<open>a0\<close> has 32 bits without a sign; that of a compressed array with bounds is
  computed anew; null pointers in an array of pointers become empty descriptors; the lengths are those of this
  machine.
\<close>

definition back_head :: "array_head \<Rightarrow> array_head" where
  "back_head a = a\<lparr>a0 := (if coeff a then ucast (ucast (a0 a) :: u32) else 0), mults := (if coeff a then mults a else [])\<rparr>"

fun read_back :: "descr \<Rightarrow> descr" where
  "read_back (DSC_S dyn dtype data) = DSC_S False dtype data"
| "read_back (DSC_XS dyn len dtype data) = DSC_XS False 0 dtype data"
| "read_back (DSC_R dtype data ds) = DSC_R dtype data (map read_back ds)"
| "read_back (DSC_A a data) = DSC_A (back_head a) data"
| "read_back (DSC_APD a ds) =
     DSC_APD ((back_head a)\<lparr>a_length := 8, arsize := of_nat (length ds) * 8\<rparr>)
       (map (\<lambda>d. if d = NULL then DSC_DSC NULL else read_back d) ds)"
| "read_back (DSC_CA a d) =
     DSC_CA (if d \<noteq> NULL \<and> bounds a
             then (back_head a)\<lparr>a0 := ucast (- (mults a ! unat (dimct a) * ucast (a_length a)))\<rparr> else back_head a) (read_back d)"
| "read_back d = d"

lemma small_unat: "n < 2 ^ LENGTH('a) \<Longrightarrow> unat (of_nat n :: 'a::len word) = n"
  by (simp add: unat_of_nat take_bit_nat_eq_self)

lemma small_nonzero:
  assumes "0 < n" "n < 2 ^ LENGTH('a)" shows "(of_nat n :: 'a::len word) \<noteq> 0"
proof
  assume "(of_nat n :: 'a word) = 0"
  then show False using small_unat [OF assms(2)] assms(1) by simp
qed

lemma offsets_nonzero:
  "0 < k \<Longrightarrow> k + length (concat (recs_bytes 0 ds)) < 2 ^ 32 \<Longrightarrow>
    map (\<lambda>x. x \<noteq> 0) (offsets_from k (zip ds (recs_bytes 0 ds))) = map (\<lambda>d. d \<noteq> NULL) ds"
proof (induction ds arbitrary: k)
  case (Cons d ds)
  have "(of_nat k :: u32) \<noteq> 0" using Cons.prems by (intro small_nonzero) simp_all
  then show ?case using Cons by simp
qed simp

lemma length_unat:
  assumes "length_ok dtype data"
  shows "unat (FixLength dtype (of_nat (length data))) = length data"
  using assms small_unat [of "length data", where 'a = 16] by (simp add: length_ok_def)

lemma elements_unat:
  assumes "8 * n < 2 ^ 32" shows "unat (of_nat (4 * n) div (4 :: u32) * 8) div 8 = n"
proof -
  have "unat (of_nat (4 * n) div (4 :: u32)) = n"
    using assms small_unat [of "4 * n", where 'a = 32] by (simp add: unat_div)
  then have "unat (of_nat (4 * n) div (4 :: u32) * 8) = n * 8" using assms by (simp only: unat_word_ariths) simp
  then show ?thesis by simp
qed

lemma copy_rec_dx_R:
  assumes "good (DSC_R dtype data ds)" "length (rec_bytes (DSC_R dtype data ds)) < 2 ^ 32"
    and "copy_recs po (map (\<lambda>d. d \<noteq> NULL) ds) (concat (recs_bytes 0 ds) @ rest) =
      Some (MDSplusSUCCESS, xs, length (concat (recs_bytes 0 ds)))"
  shows "copy_rec_dx po (rec_bytes (DSC_R dtype data ds) @ rest) =
    Some (MDSplusSUCCESS, DSC_R dtype (if po then data else []) xs, length (rec_bytes (DSC_R dtype data ds)))"
proof -
  define table where "table = 12 + 4 * length ds"
  define tab where "tab = LoadInts (offsets_from (table + length data) (zip ds (recs_bytes 0 ds)))"
  let ?body = "concat (recs_bytes 0 ds)"
  have n: "unat (FixLength dtype (of_nat (length data))) = length data" using assms(1) by (simp add: length_unat)
  have nd: "unat (of_nat (length ds) :: u8) = length ds" using small_unat [of "length ds", where 'a = 8] assms(1) by simp
  have len: "table + length data + length ?body < 2 ^ 32" using assms(2) by (simp add: Let_def table_def)
  have there: "map (\<lambda>x. x \<noteq> 0) (words32 tab) = map (\<lambda>d. d \<noteq> NULL) ds"
    using offsets_nonzero [of "table + length data" ds] len by (simp add: tab_def table_def)
  have im: "rec_bytes (DSC_R dtype data ds) @ rest = le_bytes 2 (of_nat (length data) :: u16) @ dtype # 194
      # le_bytes 4 (if data = [] then 0 else of_nat table :: u32) @ of_nat (length ds) # 0 # 0 # 0 # tab @ data @ ?body @ rest"
    by (simp add: Let_def table_def tab_def)
  have tab: "length tab = 4 * length ds" by (simp add: tab_def)
  define X where "X = le_bytes 2 (of_nat (length data) :: u16) @ dtype # 194
      # le_bytes 4 (if data = [] then 0 else of_nat table :: u32) @ of_nat (length ds) # 0 # 0 # 0 # tab @ data"
  have "rec_bytes (DSC_R dtype data ds) @ rest = X @ (?body @ rest)" "length X = table + length data"
    unfolding im by (simp_all add: X_def table_def tab)
  then have drop: "drop (table + length data) (rec_bytes (DSC_R dtype data ds) @ rest) = ?body @ rest"
    by (metis append_eq_conv_conj)
  have reads: "get (rec_bytes (DSC_R dtype data ds) @ rest) 0 4 = Some (le_bytes 2 (of_nat (length data) :: u16) @ [dtype, 194])"
    "get16 (rec_bytes (DSC_R dtype data ds) @ rest) 0 = Some (of_nat (length data))"
    "get8 (rec_bytes (DSC_R dtype data ds) @ rest) 2 = Some dtype" "get8 (rec_bytes (DSC_R dtype data ds) @ rest) 8 = Some (of_nat (length ds))"
    "get_data po (rec_bytes (DSC_R dtype data ds) @ rest) table (length data) = Some (if po then data else [])"
    "get (rec_bytes (DSC_R dtype data ds) @ rest) 12 (4 * length ds) = Some tab"
    unfolding im by (simp_all add: get16_def get8_nth nth_append get_data_def table_def tab)
  have "length (rec_bytes (DSC_R dtype data ds)) = table + length data + length ?body" by (simp add: Let_def table_def)
  then show ?thesis
    using assms(3) by (subst copy_rec_dx.simps) (simp add: reads n nd there drop Let_def table_def [symmetric] del: rec_bytes.simps drop_append)
qed

lemma copy_rec_dx_APD:
  assumes "good (DSC_APD a ds)"
    and "copy_recs po (replicate (length ds) True) (concat (recs_bytes 4 ds) @ rest) =
      Some (MDSplusSUCCESS, xs, length (concat (recs_bytes 4 ds)))"
  shows "copy_rec_dx po (rec_bytes (DSC_APD a ds) @ rest) =
    Some (MDSplusSUCCESS, DSC_APD (a\<lparr>a0 := 0, mults := [], a_length := 8, arsize := of_nat (length ds) * 8\<rparr>) xs,
      length (rec_bytes (DSC_APD a ds)))"
proof -
  let ?im = "rec_bytes (DSC_APD a ds) @ rest" and ?n = "length ds" and ?body = "concat (recs_bytes 4 ds)"
  define tab where "tab = LoadInts (offsets_from (head_size a + 4 * ?n) (zip ds (recs_bytes 4 ds)))"
  have ok: "head_ok a" "\<not> coeff a" "\<not> bounds a" "8 * ?n < 2 ^ 32" using assms(1) by (auto simp: head_ok_def)
  note len = put_head_ok(2) [OF ok(1)]
  have im: "?im = (head_bytes a 196 4 (of_nat (head_size a)) (of_nat (4 * ?n)) (of_nat (head_size a) + ucast (a0 a)) @ tab)
      @ (?body @ rest)"
    by (simp add: tab_def)
  have size: "head_size a = 16" using ok by (simp add: head_size_def)
  have drop: "drop (16 + 4 * ?n) ?im = ?body @ rest"
    unfolding im by (simp add: len tab_def size)
  have start: "get ?im 0 4 = Some (le_bytes 2 (4 :: u16) @ [a_dtype a, 196])"
    unfolding im by (simp add: head_bytes_eq [OF ok(1)] del: append_assoc) simp
  have head: "get_head ?im = Some (a\<lparr>a_length := 4, arsize := of_nat (4 * ?n), a0 := 0, mults := []\<rparr>)"
    using get_head_bytes [OF ok(1)] unfolding im by (simp add: FixLength_def)
  have "length (rec_bytes (DSC_APD a ds)) = head_size a + 4 * ?n + length ?body" by (simp add: len)
  then show ?thesis
    using assms(2) ok elements_unat [OF ok(4)]
    by (subst copy_rec_dx.simps)
      (simp add: start head drop get_mults_def get_a0_def Let_def head_size_def
        del: rec_bytes.simps drop_append)
qed

lemma copy_rec_dx_CA:
  assumes "good (DSC_CA a d)" "length (rec_bytes (DSC_CA a d)) < 2 ^ 32"
  obtains b where "po \<Longrightarrow> read_back (DSC_CA a d) = DSC_CA b (read_back d)"
    and "copy_rec_dx po (rec_bytes (DSC_CA a d) @ rest) =
      (if d = NULL then Some (MDSplusSUCCESS, DSC_CA b NULL, head_size a)
       else do {
         (status, d, total) \<leftarrow> copy_rec_dx po (rec_bytes d @ rest);
         Some (status, DSC_CA b d, head_size a + total)
       })"
    and "length (rec_bytes (DSC_CA a d)) = head_size a + length (rec_bytes d)"
proof -
  define dscsize where "dscsize = (if d = NULL then 0 else of_nat (head_size a) :: u32)"
  define head where "head = head_bytes a 195 (a_length a) dscsize (arsize a) (ucast (a0 a))"
  define bs where "bs = head @ rec_bytes d @ rest"
  define b where "b = a\<lparr>a0 := 0, mults := (if po \<and> coeff a then mults a else [])\<rparr>"
  have ok: "head_ok a" "a_length a = FixLength (a_dtype a) (a_length a)" using assms(1) by (simp_all add: head_ok_def)
  have len: "length head = head_size a" using put_head_ok(2) [OF ok(1)] by (simp add: head_def)
  have im: "rec_bytes (DSC_CA a d) @ rest = bs" "length (rec_bytes (DSC_CA a d)) = head_size a + length (rec_bytes d)"
    by (simp_all add: put_head_ok(2) [OF ok(1)] bs_def head_def dscsize_def)
  have nz: "dscsize = 0 \<longleftrightarrow> d = NULL"
    using small_nonzero [of "head_size a", where 'a = 32] assms(2) im(2) by (auto simp: dscsize_def)
  have "get bs 0 4 = Some (le_bytes 2 (a_length a) @ [a_dtype a, 195])" "get32 bs 4 = Some dscsize"
    by (simp_all add: head_bytes_eq [OF ok(1)] get32_def bs_def head_def)
  moreover have "get_head bs = Some (a\<lparr>a0 := 0, mults := []\<rparr>)"
    using get_head_bytes [OF ok(1)] ok(2) by (simp add: bs_def head_def)
  moreover have "get_mults po bs (a\<lparr>a0 := 0, mults := []\<rparr>) = Some b"
    unfolding bs_def head_def by (subst get_mults_bytes [OF ok(1)]) (simp_all add: b_def)
  moreover have "get_ca_a0 po bs b = Some (if \<not> po then b
      else if d \<noteq> NULL \<and> bounds a then b\<lparr>a0 := ucast (- (mults a ! unat (dimct a) * ucast (a_length a)))\<rparr>
      else if coeff a then b\<lparr>a0 := ucast (ucast (a0 a) :: u32)\<rparr> else b)"
    using assms(1) nz unfolding bs_def head_def by (subst get_ca_a0_bytes [OF ok(1)]) (auto simp: b_def)
  moreover have "head_size b = head_size a" by (simp add: b_def head_size_def)
  moreover define b' where "b' = (if \<not> po then b
      else if d \<noteq> NULL \<and> bounds a then b\<lparr>a0 := ucast (- (mults a ! unat (dimct a) * ucast (a_length a)))\<rparr>
      else if coeff a then b\<lparr>a0 := ucast (ucast (a0 a) :: u32)\<rparr> else b)"
  moreover have "head_size b' = head_size a" by (simp add: b'_def b_def head_size_def)
  moreover have "drop (head_size a) bs = rec_bytes d @ rest" by (simp add: bs_def len)
  ultimately have run: "copy_rec_dx po bs =
      (if d = NULL then Some (MDSplusSUCCESS, DSC_CA b' NULL, head_size a)
       else do {
         (status, d, total) \<leftarrow> copy_rec_dx po (rec_bytes d @ rest);
         Some (status, DSC_CA b' d, head_size a + total)
       })"
    by (subst copy_rec_dx.simps) (simp add: nz)
  have "po \<Longrightarrow> read_back (DSC_CA a d) = DSC_CA b' (read_back d)" by (auto simp: b'_def b_def back_head_def)
  with run show ?thesis using that im by simp
qed

lemma copy_rec_dx_bytes:
  fixes z :: nat
  shows "good d \<Longrightarrow> d \<noteq> NULL \<Longrightarrow> length (rec_bytes d) < 2 ^ 32 \<Longrightarrow>
      \<exists>x. copy_rec_dx po (rec_bytes d @ rest) = Some (MDSplusSUCCESS, x, length (rec_bytes d)) \<and> (po \<longrightarrow> x = read_back d)"
    "list_all good ds \<Longrightarrow> z = 0 \<or> z = 4 \<Longrightarrow> length (concat (recs_bytes z ds)) < 2 ^ 32 \<Longrightarrow>
      \<exists>xs. copy_recs po (map (\<lambda>d. z = 4 \<or> d \<noteq> NULL) ds) (concat (recs_bytes z ds) @ rest) =
          Some (MDSplusSUCCESS, xs, length (concat (recs_bytes z ds)))
        \<and> (po \<longrightarrow> xs = map (\<lambda>d. if z = 4 \<and> d = NULL then DSC_DSC NULL else read_back d) ds)"
proof (induction d and z ds arbitrary: rest and rest rule: rec_bytes_recs_bytes.induct)
  case (2 dyn dtype data)
  then show ?case
    by (cases po) (simp_all add: copy_rec_dx.simps get16_def get8_nth nth_append get_data_def length_unat Let_def)
next
  case (3 dyn len dtype data)
  then show ?case
    using small_unat [of "length data", where 'a = 32]
    by (cases po) (simp_all add: copy_rec_dx.simps get32_def get8_nth nth_append get_data_def)
next
  case (4 dtype data ds)
  obtain xs where xs: "copy_recs po (map (\<lambda>d. d \<noteq> NULL) ds) (concat (recs_bytes 0 ds) @ rest) =
      Some (MDSplusSUCCESS, xs, length (concat (recs_bytes 0 ds)))" "po \<Longrightarrow> xs = map read_back ds"
    using "4.IH"(1) [OF refl, of rest] "4.prems" by (auto simp: Let_def)
  show ?case using copy_rec_dx_R [OF "4.prems"(1,3) xs(1)] xs(2) by simp
next
  case (5 a data)
  let ?im = "rec_bytes (DSC_A a data) @ rest"
  have ok: "head_ok a" "a_length a = FixLength (a_dtype a) (a_length a)" "unat (arsize a) = length data"
    "a_dtype a = DTYPE_TXT \<or> a_length a \<noteq> 0" using 5(1) by (simp_all add: head_ok_def)
  note len = put_head_ok(2) [OF ok(1)]
  have "get ?im 0 4 = Some (le_bytes 2 (a_length a) @ [a_dtype a, 4])" by (simp add: head_bytes_eq [OF ok(1)])
  moreover have "get_data po ?im (head_size a) (length data) = Some (if po then data else [])"
    by (simp add: get_data_def len)
  ultimately show ?case
    using ok(2-4) by (subst copy_rec_dx.simps)
      (auto simp: get_head_bytes [OF ok(1)] get_mults_bytes [OF ok(1)] get_a0_bytes [OF ok(1)] len head_size_def Let_def back_head_def)
next
  case (6 a ds)
  obtain xs where xs: "copy_recs po (replicate (length ds) True) (concat (recs_bytes 4 ds) @ rest) =
      Some (MDSplusSUCCESS, xs, length (concat (recs_bytes 4 ds)))"
    "po \<Longrightarrow> xs = map (\<lambda>d. if d = NULL then DSC_DSC NULL else read_back d) ds"
    using "6.IH" [of rest] "6.prems" by (auto simp: map_replicate_const)
  show ?case using copy_rec_dx_APD [OF "6.prems"(1) xs(1)] xs(2) "6.prems"(1) by (simp add: back_head_def)
next
  case (7 a d)
  obtain b where b: "po \<Longrightarrow> read_back (DSC_CA a d) = DSC_CA b (read_back d)"
    "copy_rec_dx po (rec_bytes (DSC_CA a d) @ rest) =
      (if d = NULL then Some (MDSplusSUCCESS, DSC_CA b NULL, head_size a)
       else do {
         (status, d, total) \<leftarrow> copy_rec_dx po (rec_bytes d @ rest);
         Some (status, DSC_CA b d, head_size a + total)
       })"
    "length (rec_bytes (DSC_CA a d)) = head_size a + length (rec_bytes d)"
    by (rule copy_rec_dx_CA [OF "7.prems"(1,3), of po rest]) blast
  show ?case
  proof (cases "d = NULL")
    case True
    then show ?thesis using b by simp
  next
    case False
    then show ?thesis using "7.IH" [of rest] "7.prems" b(1) unfolding b(2,3) by auto
  qed
next
  case (10 z d ds)
  let ?there = "map (\<lambda>d. z = 4 \<or> d \<noteq> NULL) ds" and ?body = "concat (recs_bytes z ds)"
  have body: "length ?body < 2 ^ 32" using "10.prems"(3) by simp
  obtain xs where xs: "copy_recs po ?there (?body @ rest) = Some (MDSplusSUCCESS, xs, length ?body)"
    "po \<Longrightarrow> xs = map (\<lambda>d. if z = 4 \<and> d = NULL then DSC_DSC NULL else read_back d) ds"
    using "10.IH"(2) [of rest] "10.prems" body by auto
  show ?case
  proof (cases "d = NULL")
    case True
    have "copy_rec_dx po (replicate 4 0 @ ?body @ rest) = Some (MDSplusSUCCESS, DSC_DSC NULL, 4)"
      by (subst copy_rec_dx.simps) simp
    then show ?thesis using True xs "10.prems"(2) by auto
  next
    case False
    obtain x where "copy_rec_dx po (rec_bytes d @ ?body @ rest) = Some (MDSplusSUCCESS, x, length (rec_bytes d))"
      "po \<Longrightarrow> x = read_back d"
      using "10.IH"(1) [OF False _ False, of "?body @ rest"] "10.prems" False by auto
    then show ?thesis using False xs by auto
  qed
qed simp_all

text \<open>
  C5: \<open>MdsSerializeDscOut\<close> turns the copy of a descriptor into its record, and \<open>MdsSerializeDscIn\<close> gives back the
  copy from the record, both with success. What changes on the way is said by \<open>read_back\<close>.
\<close>

theorem MdsSerializeDscIn_Out:
  assumes "proper d" "good (copied d)" "copied d \<noteq> NULL" "length (rec_bytes (copied d)) < 2 ^ 32"
  shows "MdsSerializeDscOut d = Some (MDSplusSUCCESS, rec_bytes (copied d))
    \<and> MdsSerializeDscIn (rec_bytes (copied d)) = Some (MDSplusSUCCESS, read_back (copied d))"
proof -
  have "MdsCopyDxXd d = Some (if large d then MdsCOMPRESSIBLE else MDSplusSUCCESS, copied d)"
    using copy_dx_proper(1) [OF assms(1)] assms(3) by (simp add: MdsCopyDxXd_def)
  then have "MdsSerializeDscOut d = Some (MDSplusSUCCESS, rec_bytes (copied d))"
    using assms(3) Dsc2Rec_good [OF assms(2-4)] by (simp add: MdsSerializeDscOut_def)
  moreover obtain x where "copy_rec_dx False (rec_bytes (copied d)) = Some (MDSplusSUCCESS, x, length (rec_bytes (copied d)))"
    using copy_rec_dx_bytes(1) [OF assms(2-4), of False "[]"] by auto
  moreover have "copy_rec_dx True (rec_bytes (copied d)) = Some (MDSplusSUCCESS, read_back (copied d), length (rec_bytes (copied d)))"
    using copy_rec_dx_bytes(1) [OF assms(2-4), of True "[]"] by auto
  ultimately show ?thesis by (simp add: MdsSerializeDscIn_def)
qed


lemma MdsSerializeDscIn_Out_witness:
  "\<exists>d bs. bs \<noteq> [] \<and> MdsSerializeDscOut d = Some (MDSplusSUCCESS, bs)
    \<and> MdsSerializeDscIn bs = Some (MDSplusSUCCESS, DSC_R 195 [7] [DSC_S False 14 [65, 66], NULL,
        DSC_A \<lparr>a_length = 2, a_dtype = 7, scale = 0, digits = 0, binscale = False, redim = True, column = True,
          coeff = True, bounds = True, dimct = 1, arsize = 4, a0 = 0, mults = [2, 0, 1]\<rparr> [1, 0, 2, 0]])"
proof -
  let ?a = "\<lparr>a_length = 0, a_dtype = 7, scale = 0, digits = 0, binscale = False, redim = True, column = True,
    coeff = True, bounds = True, dimct = 1, arsize = 4, a0 = 0, mults = [2, 0, 1]\<rparr>"
  let ?d = "DSC_R 195 [7] [DSC_DSC (DSC_S True 14 [65, 66]), NULL, DSC_A ?a [1, 0, 2, 0]]"
  have c: "copied ?d = DSC_R 195 [7] [DSC_S False 14 [65, 66], NULL, DSC_A (?a\<lparr>a_length := 2\<rparr>) [1, 0, 2, 0]]"
    by (simp add: FixLength_def MdsFixDscLength_def)
  have "head_ok (?a\<lparr>a_length := 2\<rparr>)" by (simp add: head_ok_def FixLength_def)
  note len = put_head_ok(2) [OF this]
  have "proper ?d" "good (copied ?d)" "length (rec_bytes (copied ?d)) < 2 ^ 32"
    unfolding c using len by (simp_all add: DTYPE_DSC_def length_ok_def head_ok_def FixLength_def head_size_def Let_def)
  note fits = this
  define bs where "bs = rec_bytes (copied ?d)"
  have "read_back (copied ?d) = DSC_R 195 [7] [DSC_S False 14 [65, 66], NULL, DSC_A (?a\<lparr>a_length := 2\<rparr>) [1, 0, 2, 0]]"
    unfolding c by (simp add: back_head_def)
  moreover have "bs \<noteq> []" using rec_bytes_nonempty [OF fits(2)] unfolding bs_def c by simp
  ultimately show ?thesis
    using MdsSerializeDscIn_Out [OF fits(1,2) _ fits(3)] unfolding bs_def [symmetric] c by auto
qed

end
