(* ===== verification/Spec2Isabelle.thy ===== *)
theory Spec2Isabelle
  imports Cmprs Variables TreeConglom TreeRename Serialize
begin

text \<open>
  A model of the core of MDSplus: the tree library \<open>treeshr/\<close>, and of the shared library \<open>mdsshr/\<close> and the
  expression library \<open>tdishr/\<close> the parts it is built on. File names are those under \<open>src/\<close>.

  The program. A tree is a pool of nodes of a fixed size, linked by byte offsets, with a table of tags, an
  array of subtree references and, in a file or in memory, the characteristics of every node. Trees that are
  open together form a chain, the main tree first; a node identifier names a node of one of them. A tree
  that is edited takes new nodes from the free list of the pool, links them into the lists of children and
  members of their parents, and returns deleted nodes to the free list. Users name nodes by paths. The data
  of a node are descriptors, which are compressed, packed and written as records, and variables of expressions are kept in binary trees by name.

  The theories, from the bottom:

  \<^item> \<open>Prelude\<close>: machine integers, the statuses (a status is a success when its lowest bit is set), the
    byte-addressed memory of the bit packer, and lemmas that several theories use.
  \<^item> \<open>BitPack\<close> (\<open>MdsPk.c\<close>): \<open>MdsPk\<close> and \<open>MdsUnpk\<close>. What is unpacked is what was packed.
  \<^item> \<open>Cmprs\<close> (\<open>MdsCmprs.c\<close>): the choice of the widths of a run (\<open>plan_run\<close>), \<open>MdsCmprs\<close> and \<open>MdsXpand\<close>. The
    chosen widths are the cheapest, the compressor ends and stays within the output, and expansion gives the
    items back as long as no difference overflows; a difference that does is shown to leave the local table.
  \<^item> \<open>StrRoutines\<close>, \<open>WildMatch\<close>, \<open>BBTree\<close> (\<open>librtl.c\<close>): strings behind descriptors, the environment, the search
    for a set bit, the wild-card match, and the binary trees, which the code never balances.
  \<^item> \<open>Variables\<close> (\<open>TdiVar.c\<close>): assignment to, lookup and release of variables in the private and public trees
    of names, against maps from names to data. It uses the trees through the locale \<open>tree_keys\<close> of \<open>BBTree\<close>.
  \<^item> \<open>TreeNci\<close> (\<open>TreeSerializeNci.c\<close>, \<open>TreeGetNci.c\<close>): the record of the characteristics of a node in the file
    and the file address.
  \<^item> \<open>TreeNodes\<close> (\<open>treeshrp.h\<close>, \<open>TreeGetNci.c\<close>): the records \<open>NODE\<close>, \<open>TREE_INFO\<close> and \<open>PINO_DATABASE\<close>, identifiers,
    and the links from node to node. A pointer is a pair of a tree and an index.
  \<^item> \<open>TreeInsert\<close> (\<open>TreeAddNode.c\<close>): \<open>TreeInsertChild\<close> and \<open>TreeInsertMember\<close> against \<open>hierarchy\<close>, the lists of
    children and members of every node. Both are one routine, whose lemmas are proved once in the locale
    \<open>brother_list\<close>.
  \<^item> \<open>TreePool\<close> and \<open>TreeConglom\<close> (\<open>TreeAddNode.c\<close>): taking a node from the pool, its growth, the reservation of
    blocks for conglomerates and the trimming, against \<open>free_list\<close>, the list of the free indices.
  \<^item> \<open>TreeTags\<close> (\<open>TreeAddTag.c\<close>, \<open>TreeFindTag.c\<close>, \<open>TreeRemoveNodesTags.c\<close>): the table of tags against \<open>tag_map\<close>,
    a map from names to nodes.
  \<^item> \<open>TreeSubtree\<close> (\<open>TreeAddNode.c\<close>): subtree references against the set of their nodes.
  \<^item> \<open>TreeState\<close> (\<open>TreeSetNci.c\<close>): reading and writing of characteristics, and the switches of nodes with the
    invariant that the second bit of a node tells whether a node above it is off.
  \<^item> \<open>TreeDelete\<close> (\<open>TreeDeleteNode.c\<close>): marking, execution and the return to the pool; composes the hierarchy,
    the tags, the subtree references and the pool.
  \<^item> \<open>TreeFind\<close> (\<open>TreeFindNodeWild.l\<close>, \<open>TreeFindNode.c\<close>): the scanner of paths and the search, against the
    nodes that a list of names leads to (\<open>paths\<close>).
  \<^item> \<open>TreePath\<close> (\<open>TreeGetNci.c\<close>): the path of a node. The search finds the node again.
  \<^item> \<open>TreeEdit\<close> (\<open>TreeAddNode.c\<close>, \<open>TreeFindParent\<close>, \<open>_TreeIsOn\<close>): adding a node. It states \<open>edit_tree\<close>, the invariants
    of the hierarchy, the names, the tags, the pool and the states together, and shows that \<open>_TreeAddNode\<close>, which
    calls the operations of \<open>TreeFind\<close>, \<open>TreePool\<close>, \<open>TreeInsert\<close> and \<open>TreeState\<close>, keeps all of them.
  \<^item> \<open>TreeRename\<close> (\<open>TreeRenameNode.c\<close>): renaming and moving a node, with \<open>FixParentState\<close>. It keeps \<open>edit_tree\<close>, and
    every node still hangs under the top.
  \<^item> \<open>Descriptor\<close> (\<open>mdsdescrip.h\<close>, \<open>MdsXdRoutines.c\<close>, \<open>MdsCompareXd.c\<close>): the descriptors of data as trees, their copy
    \<open>MdsCopyDxXd\<close> and their comparison. The copy of a \<open>proper\<close> descriptor is \<open>copied\<close>, and compares equal.
  \<^item> \<open>Serialize\<close> (\<open>MdsSerialize.c\<close>): a descriptor as a record of bytes. \<open>rec_bytes\<close> is the record; the counting and
    the writing pass of \<open>copy_dx_rec\<close> agree with it, and \<open>copy_rec_dx\<close> reads it back.

  Loops and fuel. A loop that may not end is a \<open>partial_function\<close>; \<open>None\<close> is the loop that does not end, the
  use of a null pointer or an access outside an array, and the theorems prove a value. Only the marking of
  \<open>TreeDelete\<close> has fuel, for the depth of its calls; the theorem shows that some amount is enough. The results
  of \<open>malloc\<close> that change what is computed are parameters: the content of new memory in \<open>StrRoutines\<close>,
  success in \<open>TreePool\<close>, \<open>TreeTags\<close>, \<open>TreeSubtree\<close> and \<open>TreeDelete\<close>.

  Shape. The theorems on trees suppose the shape that the operations keep: linked lists of brothers without
  cycles, at most \<open>2 ^ 24\<close> nodes and 256 trees, node names of twelve characters. The theorems of \<open>TreeInsert\<close>,
  \<open>TreeTags\<close>, \<open>TreeDelete\<close>, \<open>TreeState\<close>, \<open>TreeEdit\<close> and \<open>TreeRename\<close> show that it is kept; every theorem that supposes it has a witness.

  Not modelled: files, locks and versions of the characteristics and data files, segments, remote trees and
  the mdsip protocol, events, the wrappers that pass the current database, the conversion of data types and
  the compiler and evaluator of expressions in \<open>tdishr/\<close>, and all programs above the tree library. These are
  input and output, or rest on state outside of the program. The search of all trees for a tag with wild
  cards is a parameter of \<open>TreeTags\<close>. The generated scanner is modelled from its rules, with the longest
  match and then the first rule.
\<close>

end
